(* ===== verification/Echos_Prelude.thy ===== *)
theory Echos_Prelude
  imports Main "HOL-Library.Word" "HOL-Library.Monad_Syntax"
begin

text \<open>
  Shared vocabulary of the echOS development: the fixed-width integer types of
  \<^verbatim>\<open>include/stdint.h\<close>, checked array accesses, the byte-addressed memory with its
  little-endian loads and stores, and the generic facts on words, lists and options that the
  component theories use. A computation that reads or writes outside an array, or that never
  returns, has the value \<^const>\<open>None\<close>.
\<close>

unbundle bit_operations_syntax

section \<open>Integer types\<close>

type_synonym u8 = "8 word"
type_synonym u16 = "16 word"
type_synonym u32 = "32 word"
type_synonym u64 = "64 word"

named_theorems word_facts \<open>facts that move word arithmetic to natural numbers\<close>
named_theorems mem_facts \<open>what a load sees after a store\<close>

text \<open>\<^verbatim>\<open>0xFFFFFFFFFFFFFFFF\<close>, the failure value of the frame allocator.\<close>

abbreviation NO_FRAME :: u64 where
  "NO_FRAME \<equiv> 0xFFFFFFFFFFFFFFFF"

section \<open>Arrays with checked access\<close>

definition aget :: "'a list \<Rightarrow> nat \<Rightarrow> 'a option" where
  "aget xs i = (if i < length xs then Some (xs ! i) else None)"

definition aset :: "'a list \<Rightarrow> nat \<Rightarrow> 'a \<Rightarrow> 'a list option" where
  "aset xs i v = (if i < length xs then Some (xs[i := v]) else None)"

lemma aget_Some [simp]: "i < length xs \<Longrightarrow> aget xs i = Some (xs ! i)"
  by (simp add: aget_def)

lemma aset_Some [simp]: "i < length xs \<Longrightarrow> aset xs i v = Some (xs[i := v])"
  by (simp add: aset_def)

lemma aget_eq_Some_iff: "aget xs i = Some v \<longleftrightarrow> i < length xs \<and> xs ! i = v"
  by (auto simp: aget_def)

lemma aset_eq_Some_iff: "aset xs i v = Some ys \<longleftrightarrow> i < length xs \<and> ys = xs[i := v]"
  by (auto simp: aset_def)

section \<open>Words as numbers\<close>

lemma unat_add_nowrap [word_facts]:
  fixes a b :: u64
  assumes "unat a + unat b < 2 ^ 64"
  shows "unat (a + b) = unat a + unat b"
  using assms by (simp add: unat_word_ariths)

lemma unat_mult_nowrap [word_facts]:
  fixes a b :: u64
  assumes "unat a * unat b < 2 ^ 64"
  shows "unat (a * b) = unat a * unat b"
  using assms by (simp add: unat_word_ariths)

lemma unat_sub_le [word_facts]:
  fixes a b :: u64
  assumes "unat b \<le> unat a"
  shows "unat (a - b) = unat a - unat b"
  using assms by (simp add: unat_sub word_le_nat_alt)

lemma unat_of_nat_u64 [word_facts]:
  assumes "n < 2 ^ 64"
  shows "unat (of_nat n :: u64) = n"
  using assms by (simp add: unsigned_of_nat take_bit_nat_eq_self)

lemma unat_add_of_nat [word_facts]:
  fixes a :: u64
  assumes "unat a + n < 2 ^ 64"
  shows "unat (a + of_nat n) = unat a + n"
proof -
  have "unat (of_nat n :: u64) = n" using assms by (intro unat_of_nat_u64) simp
  then show ?thesis using assms by (simp add: unat_add_nowrap)
qed

lemma unat_lt_u64 [simp]: "unat (a :: u64) < 18446744073709551616"
  using unsigned_less [of a] by simp

lemma less_unat_u64: "k < unat (n :: u64) \<Longrightarrow> k < 2 ^ 64"
  by (erule less_trans) simp

lemma and_exp_eq_0_iff [simp]: "(w AND 2 ^ n = 0) \<longleftrightarrow> \<not> bit w n" for w :: u64
  by (simp add: bit_iff_and_push_bit_not_eq_0)

lemma all_ones_u64: "(0xFFFFFFFFFFFFFFFF :: u64) = - 1"
  by simp

lemma bit_all_ones: "n < 64 \<Longrightarrow> bit (0xFFFFFFFFFFFFFFFF :: u64) n"
  unfolding all_ones_u64 by simp

text \<open>Widening to 64 bits keeps the value.\<close>

lemma unat_ucast_u64 [simp]:
  "unat (ucast (a :: u8) :: u64) = unat a" "unat (ucast (b :: u16) :: u64) = unat b"
  "unat (ucast (c :: u32) :: u64) = unat c"
proof -
  have "unat a < 2 ^ 8" "unat b < 2 ^ 16" "unat c < 2 ^ 32"
    using unsigned_less [of a, where 'a = nat] unsigned_less [of b, where 'a = nat]
      unsigned_less [of c, where 'a = nat] by simp_all
  then show "unat (ucast a :: u64) = unat a" "unat (ucast b :: u64) = unat b" "unat (ucast c :: u64) = unat c"
    by (simp_all add: unsigned_ucast_eq take_bit_nat_eq_self)
qed

section \<open>Byte-addressed memory\<close>

type_synonym mem = "u64 \<Rightarrow> u8"

text \<open>Little-endian load of \<open>n\<close> bytes.\<close>

primrec load_le :: "mem \<Rightarrow> u64 \<Rightarrow> nat \<Rightarrow> 'a::len word" where
  "load_le m a 0 = 0"
| "load_le m a (Suc n) = ucast (m a) OR push_bit 8 (load_le m (a + 1) n)"

text \<open>Little-endian store of \<open>n\<close> bytes; addresses wrap modulo \<open>2 ^ 64\<close>.\<close>

definition store_le :: "mem \<Rightarrow> u64 \<Rightarrow> nat \<Rightarrow> 'a::len word \<Rightarrow> mem" where
  "store_le m a n v =
     (\<lambda>x. if unat (x - a) < n then ucast (drop_bit (8 * unat (x - a)) v) else m x)"

abbreviation load16 :: "mem \<Rightarrow> u64 \<Rightarrow> u16" where "load16 m a \<equiv> load_le m a 2"
abbreviation load32 :: "mem \<Rightarrow> u64 \<Rightarrow> u32" where "load32 m a \<equiv> load_le m a 4"
abbreviation load64 :: "mem \<Rightarrow> u64 \<Rightarrow> u64" where "load64 m a \<equiv> load_le m a 8"
abbreviation store16 :: "mem \<Rightarrow> u64 \<Rightarrow> u16 \<Rightarrow> mem" where "store16 m a v \<equiv> store_le m a 2 v"
abbreviation store32 :: "mem \<Rightarrow> u64 \<Rightarrow> u32 \<Rightarrow> mem" where "store32 m a v \<equiv> store_le m a 4 v"
abbreviation store64 :: "mem \<Rightarrow> u64 \<Rightarrow> u64 \<Rightarrow> mem" where "store64 m a v \<equiv> store_le m a 8 v"

text \<open>Loads of the usual widths, byte by byte, for evaluation on concrete memories.\<close>

lemma load_le_bytes:
  "load_le m a 2 = ucast (m a) OR push_bit 8 (ucast (m (a + 1)))"
  "load_le m a 4 = ucast (m a) OR push_bit 8 (ucast (m (a + 1)) OR push_bit 8 (load_le m (a + 2) 2))"
  "load_le m a 8 = ucast (m a) OR push_bit 8 (ucast (m (a + 1)) OR push_bit 8 (ucast (m (a + 2)) OR
     push_bit 8 (ucast (m (a + 3)) OR push_bit 8 (load_le m (a + 4) 4))))"
proof -
  have n: "(2 :: nat) = Suc (Suc 0)" "(4 :: nat) = Suc (Suc 2)" "(8 :: nat) = Suc (Suc (Suc (Suc 4)))" by simp_all
  have a: "a + 1 + 1 = a + 2" "a + 2 + 1 = a + 3" "a + 3 + 1 = a + 4" for a :: u64 by simp_all
  show "load_le m a 2 = ucast (m a) OR push_bit 8 (ucast (m (a + 1)))" unfolding n(1) load_le.simps by simp
  show "load_le m a 4 = ucast (m a) OR push_bit 8 (ucast (m (a + 1)) OR push_bit 8 (load_le m (a + 2) 2))"
    unfolding n(2) load_le.simps a ..
  show "load_le m a 8 = ucast (m a) OR push_bit 8 (ucast (m (a + 1)) OR push_bit 8 (ucast (m (a + 2)) OR
      push_bit 8 (ucast (m (a + 3)) OR push_bit 8 (load_le m (a + 4) 4))))"
    unfolding n(3) load_le.simps a ..
qed

lemma bit_load_le [bit_simps]:
  "bit (load_le m a n :: 'a::len word) k \<longleftrightarrow>
     k < LENGTH('a) \<and> k < 8 * n \<and> bit (m (a + of_nat (k div 8))) (k mod 8)"
proof (induction n arbitrary: a k)
  case 0
  then show ?case by simp
next
  case (Suc n)
  show ?case
  proof (cases "k < 8")
    case True
    then show ?thesis by (auto simp: bit_simps)
  next
    case False
    then have "k = k - 8 + 8" by simp
    then have d: "k div 8 = Suc ((k - 8) div 8)" and m: "k mod 8 = (k - 8) mod 8"
      by (metis div_add_self2 Suc_eq_plus1 zero_neq_numeral, metis mod_add_self2)
    have "bit (ucast (m a) :: 'a word) k = False"
      using False by (auto simp: bit_simps dest: bit_imp_le_length)
    then show ?thesis
      using False Suc.IH [of "a + 1" "k - 8"] d m
      by (auto simp: bit_simps ac_simps)
  qed
qed

lemma load_le_cong:
  assumes "\<And>i. i < n \<Longrightarrow> m (a + of_nat i) = m' (a + of_nat i)"
  shows "load_le m a n = load_le m' a n"
  by (rule bit_word_eqI) (use assms in \<open>auto simp: bit_simps\<close>)

lemma load_store_same [mem_facts]:
  fixes v :: "'a::len word"
  assumes "LENGTH('a) = 8 * n" and "n \<le> 8"
  shows "load_le (store_le m a n v) a n = v"
proof (rule bit_word_eqI)
  fix k assume k: "k < LENGTH('a)"
  then have "k div 8 < n" using assms by auto
  moreover from this have "unat (of_nat (k div 8) :: u64) = k div 8"
    using assms by (intro unat_of_nat_u64) auto
  ultimately show "bit (load_le (store_le m a n v) a n :: 'a word) k = bit v k"
    using assms k by (auto simp: bit_simps store_le_def)
qed

text \<open>The region of \<open>n\<close> bytes at \<open>a\<close> and that of \<open>k\<close> bytes at \<open>b\<close> do not meet.\<close>

definition apart :: "u64 \<Rightarrow> nat \<Rightarrow> u64 \<Rightarrow> nat \<Rightarrow> bool" where
  "apart a n b k \<longleftrightarrow> (\<forall>i < k. n \<le> unat (b + of_nat i - a))"

lemma apartI:
  assumes "unat a + n \<le> unat b \<or> unat b + k \<le> unat a"
    and "unat a + n \<le> 2 ^ 64" and "unat b + k \<le> 2 ^ 64"
  shows "apart a n b k"
  unfolding apart_def
proof (intro allI impI)
  fix i assume i: "i < k"
  then have bi: "unat (b + of_nat i) = unat b + i"
    using assms(3) by (intro unat_add_of_nat) simp
  show "n \<le> unat (b + of_nat i - a)"
  proof (cases "unat a + n \<le> unat b")
    case True
    then show ?thesis using bi by (simp add: unat_sub_le)
  next
    case False
    then have lt: "unat (b + of_nat i) < unat a" using assms(1) i bi by simp
    then have "unat (b + of_nat i - a) = 2 ^ 64 + unat (b + of_nat i) - unat a"
      by (simp add: unat_sub_if' size_word_def)
    then show ?thesis using assms(2) lt by simp
  qed
qed

lemma load_store_other [mem_facts]:
  assumes "apart a n b k"
  shows "load_le (store_le m a n v) b k = load_le m b k"
  using assms by (intro load_le_cong) (auto simp: store_le_def apart_def not_less)

text \<open>A memory in which a whole region holds the byte \<open>c\<close>.\<close>

definition fill :: "mem \<Rightarrow> u64 \<Rightarrow> nat \<Rightarrow> u8 \<Rightarrow> mem" where
  "fill m a n c = (\<lambda>x. if unat (x - a) < n then c else m x)"

lemma load_fill_other [mem_facts]:
  assumes "apart a n b k"
  shows "load_le (fill m a n c) b k = load_le m b k"
  using assms by (intro load_le_cong) (auto simp: fill_def apart_def not_less)

lemma load_fill_zero [mem_facts]:
  assumes "unat (b - a) + k \<le> n" and "n < 2 ^ 64"
  shows "load_le (fill m a n 0) b k = 0"
proof -
  have "unat (b + of_nat i - a) < n" if "i < k" for i
  proof -
    have "unat ((b - a) + of_nat i) = unat (b - a) + i"
      using that assms by (intro unat_add_of_nat) simp
    moreover have "(b - a) + of_nat i = b + of_nat i - a" by simp
    ultimately show ?thesis using that assms by simp
  qed
  then show ?thesis
    by (intro bit_word_eqI) (auto simp: bit_simps fill_def)
qed

section \<open>Printed output\<close>

text \<open>A call of the formatted output function: the format and the arguments after it.\<close>

datatype parg = PInt u64 | PStr string

text \<open>The line break of a format string.\<close>

definition nl :: string where
  "nl = [CHR 0x0A]"

type_synonym printed = "(string \<times> parg list) list"

end
