(* ===== verification/Frame_Interface.thy ===== *)
theory Frame_Interface
  imports Echos_Prelude
begin

text \<open>
  The contract between the frame allocator and the code that takes frames from it (page tables,
  the heap, the GDT): a state has a set of managed frames, some of them free; allocating removes
  one frame from the free set and releasing puts one back. The lemmas of the locale are what the
  clients rest on, whatever the allocator's representation is.
\<close>

text \<open>Taking \<open>n\<close> frames one after the other.\<close>

primrec alloc_many :: "('s \<Rightarrow> ('a \<times> 's) option) \<Rightarrow> nat \<Rightarrow> 's \<Rightarrow> ('a list \<times> 's) option" where
  "alloc_many alloc 0 s = Some ([], s)"
| "alloc_many alloc (Suc n) s = do {
     (a, s') \<leftarrow> alloc s;
     (as, s'') \<leftarrow> alloc_many alloc n s';
     Some (a # as, s'')
   }"

locale frame_allocator =
  fixes ok :: "'s \<Rightarrow> bool"
    and free :: "'s \<Rightarrow> 'a set"
    and managed :: "'s \<Rightarrow> 'a set"
    and alloc :: "'s \<Rightarrow> ('a \<times> 's) option"
    and release :: "'s \<Rightarrow> 'a \<Rightarrow> 's option"
    and none :: 'a
  assumes finite_free: "ok s \<Longrightarrow> finite (free s)"
    and free_managed: "ok s \<Longrightarrow> free s \<subseteq> managed s"
    and none_unmanaged: "ok s \<Longrightarrow> none \<notin> managed s"
    and alloc_some: "ok s \<Longrightarrow> free s \<noteq> {} \<Longrightarrow>
      \<exists>a s'. alloc s = Some (a, s') \<and> a \<in> free s \<and> ok s' \<and>
        free s' = free s - {a} \<and> managed s' = managed s"
    and alloc_none: "ok s \<Longrightarrow> free s = {} \<Longrightarrow> alloc s = Some (none, s)"
    and release_ok: "ok s \<Longrightarrow> a \<in> managed s \<Longrightarrow>
      \<exists>s'. release s a = Some s' \<and> ok s' \<and> free s' = insert a (free s) \<and> managed s' = managed s"
begin

lemma alloc_total:
  assumes "ok s"
  obtains a s' where "alloc s = Some (a, s')" and "ok s'" and "managed s' = managed s"
    and "free s' = free s - {a}" and "a = none \<longleftrightarrow> free s = {}" and "a \<noteq> none \<Longrightarrow> a \<in> free s"
    and "a = none \<Longrightarrow> s' = s"
proof (cases "free s = {}")
  case True
  then show ?thesis using that [of none s] alloc_none assms by auto
next
  case False
  then obtain a s' where *: "alloc s = Some (a, s')" "a \<in> free s" "ok s'" "free s' = free s - {a}"
      "managed s' = managed s"
    using alloc_some [OF assms] by blast
  then have "a \<noteq> none" using free_managed none_unmanaged assms by blast
  then show ?thesis using that [of a s'] * by auto
qed

lemma alloc_many_distinct:
  assumes "ok s" and "n \<le> card (free s)"
  shows "\<exists>as s'. alloc_many alloc n s = Some (as, s') \<and> length as = n \<and> distinct as \<and>
    set as \<subseteq> free s \<and> ok s' \<and> free s' = free s - set as \<and> managed s' = managed s"
  using assms
proof (induction n arbitrary: s)
  case 0
  then show ?case by simp
next
  case (Suc n)
  then have "free s \<noteq> {}" by auto
  then obtain a s1 where a: "alloc s = Some (a, s1)" "a \<in> free s" "ok s1" "free s1 = free s - {a}"
      "managed s1 = managed s"
    using alloc_some [OF Suc.prems(1)] by blast
  have "n \<le> card (free s1)"
    using Suc.prems a finite_free by simp
  with Suc.IH [OF a(3)] obtain as s2 where "alloc_many alloc n s1 = Some (as, s2)"
      "length as = n" "distinct as" "set as \<subseteq> free s1" "ok s2" "free s2 = free s1 - set as"
      "managed s2 = managed s1"
    by blast
  with a show ?case by auto
qed

lemma alloc_release:
  assumes "ok s" and "alloc s = Some (a, s1)" and "a \<noteq> none"
  shows "\<exists>s2. release s1 a = Some s2 \<and> ok s2 \<and> free s2 = free s"
proof -
  obtain b s' where b: "alloc s = Some (b, s')" "ok s'" "managed s' = managed s"
      "free s' = free s - {b}" "b \<noteq> none \<Longrightarrow> b \<in> free s"
    using alloc_total [OF assms(1)] by metis
  with assms have *: "ok s1" "a \<in> free s" "free s1 = free s - {a}" "managed s1 = managed s"
    by auto
  moreover from this have "a \<in> managed s1" using free_managed [OF assms(1)] by auto
  ultimately show ?thesis using release_ok [of s1 a] by auto
qed

end

text \<open>
  An allocator that also hands out runs of frames in one call. \<open>run a n\<close> are the frames of the run of length \<open>n\<close>
  at \<open>a\<close>, and \<open>possible\<close> says whether there is one.
\<close>

locale run_allocator = frame_allocator +
  fixes alloc_run :: "'a \<Rightarrow> 'n \<Rightarrow> ('b \<times> 'a) option"
    and run :: "'b \<Rightarrow> 'n \<Rightarrow> 'b set"
    and possible :: "'a \<Rightarrow> 'n \<Rightarrow> bool"
  assumes run_some: "ok s \<Longrightarrow> possible s n \<Longrightarrow>
      \<exists>a s'. alloc_run s n = Some (a, s') \<and> a \<in> run a n \<and> run a n \<subseteq> free s \<and> ok s' \<and>
        free s' = free s - run a n \<and> managed s' = managed s"
    and run_none: "ok s \<Longrightarrow> \<not> possible s n \<Longrightarrow> alloc_run s n = Some (none, s)"
begin

lemma run_returns: "ok s \<Longrightarrow> \<exists>a s'. alloc_run s n = Some (a, s')"
  using run_some run_none by metis

lemma run_some_iff:
  assumes "ok s" and "alloc_run s n = Some (a, s')"
  shows "a = none \<longleftrightarrow> \<not> possible s n"
  using assms run_some [of s n] run_none [of s n] free_managed [of s] none_unmanaged [of s] by fastforce

lemma run_taken:
  assumes "ok s" and "alloc_run s n = Some (a, s')" and "a \<noteq> none"
  shows "ok s'" and "run a n \<subseteq> free s" and "free s' = free s - run a n" and "managed s' = managed s"
  using run_some [OF assms(1), of n] run_some_iff [OF assms(1,2)] assms(2,3) by auto

end

text \<open>
  A call of a client: it may take frames, and it leaves alone the contents of the frames \<open>R\<close> that others hold. The
  page table routines share this contract.
\<close>

locale frame_client =
  fixes ok :: "'a set \<Rightarrow> 's \<Rightarrow> bool"
    and managed :: "'s \<Rightarrow> 'a set"
    and keeps :: "'a set \<Rightarrow> 's \<Rightarrow> 's \<Rightarrow> bool"
    and allowed :: bool
    and call :: "'s \<Rightarrow> ('r \<times> 's) option"
  assumes call_ok: "allowed \<Longrightarrow> ok R s \<Longrightarrow>
      \<exists>r s'. call s = Some (r, s') \<and> ok R s' \<and> keeps R s s' \<and> managed s' = managed s"
begin

lemma call_returns: "allowed \<Longrightarrow> ok R s \<Longrightarrow> call s \<noteq> None"
  using call_ok by fastforce

lemma call_keeps:
  assumes "allowed" and "ok R s" and "call s = Some (r, s')"
  shows "ok R s'" and "keeps R s s'" and "managed s' = managed s"
  using call_ok [OF assms(1,2)] assms(3) by auto

end

text \<open>A property that every step of a system keeps holds in all states that can be reached.\<close>

locale kept_by_steps =
  fixes step :: "'s \<Rightarrow> 's \<Rightarrow> bool" and inv :: "'s \<Rightarrow> bool"
  assumes step_keeps: "step s t \<Longrightarrow> inv s \<Longrightarrow> inv t"
begin

lemma reachable: "rtranclp step s t \<Longrightarrow> inv s \<Longrightarrow> inv t"
  by (induction rule: rtranclp_induct) (auto intro: step_keeps)

end

end
