(* ===== verification/Physical.thy ===== *)
theory Physical
  imports Frame_Interface
begin

text \<open>
  The physical frame allocator, \<^verbatim>\<open>kernel/memory/physical.h\<close> and
  \<^verbatim>\<open>kernel/memory/physical.c\<close>: blocks of frames with a bitmap each, one operation per C
  function, the well-formedness invariant of a block and of the whole manager, and the proof that
  the bitmap code implements a set of free frames.
  The bitmap a block points to is part of its record: \<open>map_ptr\<close> is the pointer (0 for NULL)
  and \<open>map_words\<close> the words behind it. An access through NULL or past the bitmap is
  \<^const>\<open>None\<close>. A loop counter that runs to a 64-bit limit is a natural number below it.
\<close>

section \<open>Data\<close>

abbreviation frame_size :: u64 where
  "frame_size \<equiv> 4096"

definition frame_map_size :: "u64 \<Rightarrow> u64" where
  "frame_map_size frame_count = (frame_count + 63) div 64"

datatype pm_type =
    PM_USABLE | PM_RECLAIMABLE | PM_ACPI_RECLAIM | PM_ACPI_NVS | PM_FIRMWARE | PM_MMIO | PM_RESERVED

record pm_block =
  address :: u64
  frames_total :: u64
  frames_free :: u64
  map_ptr :: u64
  map_words :: "u64 list"
  btype :: pm_type
  attributes :: u64

record pmm =
  blocks :: "pm_block list"
  block_count :: u64

text \<open>\<^verbatim>\<open>block->map[i]\<close>, read and written.\<close>

definition map_get :: "pm_block \<Rightarrow> nat \<Rightarrow> u64 option" where
  "map_get b i = (if map_ptr b = 0 then None else aget (map_words b) i)"

definition map_set :: "pm_block \<Rightarrow> nat \<Rightarrow> u64 \<Rightarrow> pm_block option" where
  "map_set b i w =
     (if map_ptr b = 0 then None
      else map_option (\<lambda>ws. b\<lparr>map_words := ws\<rparr>) (aset (map_words b) i w))"

section \<open>Operations\<close>

text \<open>The inner loop over the 64 bits of one bitmap word.\<close>

function clear_bit_from :: "u64 \<Rightarrow> nat \<Rightarrow> nat option" where
  "clear_bit_from w n =
     (if n < 64
      then if w AND push_bit n 1 \<noteq> 0 then clear_bit_from w (Suc n) else Some n
      else None)"
  by pat_completeness auto
termination
  by (relation "measure (\<lambda>(w, n). 64 - n)") auto

function frame_allocate_from_entry :: "pm_block \<Rightarrow> nat \<Rightarrow> (u64 \<times> pm_block) option" where
  "frame_allocate_from_entry b entry =
     (if entry < unat (frame_map_size (frames_total b))
      then do {
        w \<leftarrow> map_get b entry;
        if w = 0xFFFFFFFFFFFFFFFF then frame_allocate_from_entry b (Suc entry)
        else (case clear_bit_from w 0 of
            None \<Rightarrow> frame_allocate_from_entry b (Suc entry)
          | Some n \<Rightarrow> do {
              b' \<leftarrow> map_set b entry (w OR push_bit n 1);
              let frame_offset = of_nat entry * 64 + of_nat n;
              let addr = address b + frame_offset * frame_size;
              Some (addr, b'\<lparr>frames_free := frames_free b' - 1\<rparr>)
            })
      }
      else Some (0xFFFFFFFFFFFFFFFF, b))"
  by pat_completeness auto
termination
  by (relation "measure (\<lambda>(b, entry). unat (frame_map_size (frames_total b)) - entry)") auto

definition frame_allocate_from_block :: "pm_block \<Rightarrow> (u64 \<times> pm_block) option" where
  "frame_allocate_from_block b = frame_allocate_from_entry b 0"

definition frame_free_from_block :: "pm_block \<Rightarrow> u64 \<Rightarrow> pm_block option" where
  "frame_free_from_block b addr =
     (if map_ptr b = 0 then Some b
      else do {
        let offset = addr - address b;
        let frame_offset = offset div frame_size;
        let entry = unat (frame_offset div 64);
        let n = unat (frame_offset mod 64);
        w \<leftarrow> map_get b entry;
        let b1 = (if w AND push_bit n 1 \<noteq> 0 then b\<lparr>frames_free := frames_free b + 1\<rparr> else b);
        map_set b1 entry (w AND NOT (push_bit n 1))
      })"

function frame_allocate_loop :: "pmm \<Rightarrow> nat \<Rightarrow> (u64 \<times> pmm) option" where
  "frame_allocate_loop pm i =
     (if i < unat (block_count pm)
      then do {
        b \<leftarrow> aget (blocks pm) i;
        if frames_free b = 0 then frame_allocate_loop pm (Suc i)
        else do {
          (addr, b') \<leftarrow> frame_allocate_from_block b;
          let pm' = pm\<lparr>blocks := (blocks pm)[i := b']\<rparr>;
          if addr \<noteq> 0xFFFFFFFFFFFFFFFF then Some (addr, pm')
          else frame_allocate_loop pm' (Suc i)
        }
      }
      else Some (0xFFFFFFFFFFFFFFFF, pm))"
  by pat_completeness auto
termination
  by (relation "measure (\<lambda>(pm, i). unat (block_count pm) - i)") auto

definition frame_allocate :: "pmm \<Rightarrow> (u64 \<times> pmm) option" where
  "frame_allocate pm = frame_allocate_loop pm 0"

function frame_free_loop :: "pmm \<Rightarrow> u64 \<Rightarrow> nat \<Rightarrow> pmm option" where
  "frame_free_loop pm addr i =
     (if i < unat (block_count pm)
      then do {
        b \<leftarrow> aget (blocks pm) i;
        let block_end = address b + frames_total b * frame_size;
        if address b \<le> addr \<and> addr < block_end
        then do {
          b' \<leftarrow> frame_free_from_block b addr;
          Some (pm\<lparr>blocks := (blocks pm)[i := b']\<rparr>)
        }
        else frame_free_loop pm addr (Suc i)
      }
      else Some pm)"
  by pat_completeness auto
termination
  by (relation "measure (\<lambda>(pm, addr, i). unat (block_count pm) - i)") auto

definition frame_free :: "pmm \<Rightarrow> u64 \<Rightarrow> pmm option" where
  "frame_free pm addr = frame_free_loop pm addr 0"

definition frame_is_used :: "pm_block \<Rightarrow> nat \<Rightarrow> u64 option" where
  "frame_is_used b frame = do {
     w \<leftarrow> map_get b (frame div 64);
     Some (drop_bit (frame mod 64) w AND 1)
   }"

text \<open>The loop that claims the frames \<open>f, \<dots>, stop - 1\<close>.\<close>

function mark_run :: "pm_block \<Rightarrow> nat \<Rightarrow> nat \<Rightarrow> pm_block option" where
  "mark_run b f stop =
     (if f < stop
      then do {
        w \<leftarrow> map_get b (f div 64);
        b' \<leftarrow> map_set b (f div 64) (w OR push_bit (f mod 64) 1);
        mark_run b' (Suc f) stop
      }
      else Some b)"
  by pat_completeness auto
termination
  by (relation "measure (\<lambda>(b, f, stop). stop - f)") auto

function frames_scan ::
  "pm_block \<Rightarrow> u64 \<Rightarrow> nat \<Rightarrow> nat \<Rightarrow> nat \<Rightarrow> (u64 \<times> pm_block) option" where
  "frames_scan b count frame run_start run_length =
     (if frame < unat (frames_total b)
      then do {
        used \<leftarrow> frame_is_used b frame;
        if used \<noteq> 0 then frames_scan b count (Suc frame) run_start 0
        else do {
          let start = (if run_length = 0 then frame else run_start);
          let len = Suc run_length;
          if len < unat count then frames_scan b count (Suc frame) start len
          else do {
            b' \<leftarrow> mark_run b start (start + unat count);
            Some (address b + of_nat start * frame_size, b'\<lparr>frames_free := frames_free b' - count\<rparr>)
          }
        }
      }
      else Some (0xFFFFFFFFFFFFFFFF, b))"
  by pat_completeness auto
termination
  by (relation "measure (\<lambda>(b, count, frame, s, l). unat (frames_total b) - frame)") auto

definition frames_allocate_from_block :: "pm_block \<Rightarrow> u64 \<Rightarrow> (u64 \<times> pm_block) option" where
  "frames_allocate_from_block b count = frames_scan b count 0 0 0"

function frames_allocate_loop :: "pmm \<Rightarrow> u64 \<Rightarrow> nat \<Rightarrow> (u64 \<times> pmm) option" where
  "frames_allocate_loop pm count i =
     (if i < unat (block_count pm)
      then do {
        b \<leftarrow> aget (blocks pm) i;
        if map_ptr b = 0 \<or> frames_free b < count then frames_allocate_loop pm count (Suc i)
        else do {
          (addr, b') \<leftarrow> frames_allocate_from_block b count;
          let pm' = pm\<lparr>blocks := (blocks pm)[i := b']\<rparr>;
          if addr \<noteq> 0xFFFFFFFFFFFFFFFF then Some (addr, pm')
          else frames_allocate_loop pm' count (Suc i)
        }
      }
      else Some (0xFFFFFFFFFFFFFFFF, pm))"
  by pat_completeness auto
termination
  by (relation "measure (\<lambda>(pm, count, i). unat (block_count pm) - i)") auto

definition frames_allocate :: "pmm \<Rightarrow> u64 \<Rightarrow> (u64 \<times> pmm) option" where
  "frames_allocate pm count =
     (if count = 0 then Some (0xFFFFFFFFFFFFFFFF, pm) else frames_allocate_loop pm count 0)"

text \<open>\<^verbatim>\<open>sizeof(pm_block)\<close>: six fields of eight bytes, the enum padded.\<close>

abbreviation sizeof_pm_block :: u64 where
  "sizeof_pm_block \<equiv> 48"

function get_pmm_size_loop :: "pmm \<Rightarrow> u64 \<Rightarrow> nat \<Rightarrow> u64 option" where
  "get_pmm_size_loop pm len i =
     (if i < unat (block_count pm)
      then do {
        b \<leftarrow> aget (blocks pm) i;
        let size = frame_map_size (frames_total b) * 8;
        get_pmm_size_loop pm (len + size) (Suc i)
      }
      else Some len)"
  by pat_completeness auto
termination
  by (relation "measure (\<lambda>(pm, len, i). unat (block_count pm) - i)") auto

definition get_pmm_size :: "pmm \<Rightarrow> u64 option" where
  "get_pmm_size pm = get_pmm_size_loop pm (block_count pm * sizeof_pm_block) 0"

declare clear_bit_from.simps [simp del] frame_allocate_from_entry.simps [simp del]
  frame_allocate_loop.simps [simp del] frame_free_loop.simps [simp del] mark_run.simps [simp del]
  frames_scan.simps [simp del] frames_allocate_loop.simps [simp del]
  get_pmm_size_loop.simps [simp del]

section \<open>The abstract view: sets of free frames\<close>

definition used_bit :: "pm_block \<Rightarrow> nat \<Rightarrow> bool" where
  "used_bit b k \<longleftrightarrow> bit (map_words b ! (k div 64)) (k mod 64)"

text \<open>Indices of the free frames of a block; a block without a bitmap has none.\<close>

definition free_idx :: "pm_block \<Rightarrow> nat set" where
  "free_idx b =
     (if map_ptr b = 0 then {} else {k \<in> {0..<unat (frames_total b)}. \<not> used_bit b k})"

definition frame_addr :: "pm_block \<Rightarrow> nat \<Rightarrow> u64" where
  "frame_addr b k = address b + of_nat k * frame_size"

definition block_free :: "pm_block \<Rightarrow> u64 set" where
  "block_free b = frame_addr b ` free_idx b"

definition block_frames :: "pm_block \<Rightarrow> u64 set" where
  "block_frames b = frame_addr b ` {0..<unat (frames_total b)}"

definition pmm_free :: "pmm \<Rightarrow> u64 set" where
  "pmm_free pm = (\<Union>i \<in> {0..<unat (block_count pm)}. block_free (blocks pm ! i))"

text \<open>
  A block is well-formed when it lies in the 52-bit physical address space on a frame boundary,
  its bitmap has one word for every 64 frames with the bits past the last frame set, and
  \<open>frames_free\<close> counts the clear bits.
\<close>

definition map_ok :: "pm_block \<Rightarrow> bool" where
  "map_ok b \<longleftrightarrow>
     length (map_words b) = unat (frame_map_size (frames_total b)) \<and>
     (\<forall>k \<in> {unat (frames_total b)..<64 * length (map_words b)}. used_bit b k)"

definition block_ok :: "pm_block \<Rightarrow> bool" where
  "block_ok b \<longleftrightarrow>
     unat (address b) mod 4096 = 0 \<and>
     unat (address b) + 4096 * unat (frames_total b) \<le> 2 ^ 52 \<and>
     (map_ptr b = 0 \<or> map_ok b) \<and>
     unat (frames_free b) = card (free_idx b)"

definition blocks_apart :: "pm_block \<Rightarrow> pm_block \<Rightarrow> bool" where
  "blocks_apart b c \<longleftrightarrow>
     unat (address b) + 4096 * unat (frames_total b) \<le> unat (address c) \<or>
     unat (address c) + 4096 * unat (frames_total c) \<le> unat (address b)"

definition pmm_ok :: "pmm \<Rightarrow> bool" where
  "pmm_ok pm \<longleftrightarrow>
     unat (block_count pm) \<le> length (blocks pm) \<and>
     (\<forall>i \<in> {0..<unat (block_count pm)}. block_ok (blocks pm ! i)) \<and>
     (\<forall>i \<in> {0..<unat (block_count pm)}. \<forall>j \<in> {0..<i}. blocks_apart (blocks pm ! i) (blocks pm ! j))"

text \<open>Setting and clearing one bit of the bitmap.\<close>

definition mark :: "pm_block \<Rightarrow> nat \<Rightarrow> pm_block" where
  "mark b k = b\<lparr>map_words := (map_words b)[k div 64 := map_words b ! (k div 64) OR push_bit (k mod 64) 1]\<rparr>"

definition unmark :: "pm_block \<Rightarrow> nat \<Rightarrow> pm_block" where
  "unmark b k =
     b\<lparr>map_words := (map_words b)[k div 64 := map_words b ! (k div 64) AND NOT (push_bit (k mod 64) 1)]\<rparr>"

section \<open>Words of the bitmap\<close>

lemma frame_map_size_unat:
  assumes "unat t \<le> 2 ^ 52"
  shows "unat (frame_map_size t) = (unat t + 63) div 64"
proof -
  have "unat (t + 63) = unat t + 63"
    using assms by (subst unat_add_nowrap) auto
  then show ?thesis by (simp add: frame_map_size_def unat_div)
qed

lemma block_ok_total: "block_ok b \<Longrightarrow> unat (frames_total b) \<le> 2 ^ 52"
  by (simp add: block_ok_def)

lemma map_ok_length:
  assumes "map_ok b" and "unat (frames_total b) \<le> 2 ^ 52"
  shows "length (map_words b) = (unat (frames_total b) + 63) div 64"
  using assms by (simp add: map_ok_def frame_map_size_unat)

lemma map_ok_index:
  assumes "map_ok b" and "unat (frames_total b) \<le> 2 ^ 52" and "k < unat (frames_total b)"
  shows "k div 64 < length (map_words b)"
proof -
  have "k div 64 < (unat (frames_total b) + 63) div 64" using assms(3) by linarith
  then show ?thesis using map_ok_length [OF assms(1,2)] by simp
qed

lemma clear_bit_from_None:
  "clear_bit_from w n = None \<longleftrightarrow> (\<forall>k. n \<le> k \<and> k < 64 \<longrightarrow> bit w k)"
proof (induction w n rule: clear_bit_from.induct)
  case (1 w n)
  have "(\<forall>k. n \<le> k \<and> k < 64 \<longrightarrow> bit w k) \<longleftrightarrow>
      (n < 64 \<longrightarrow> bit w n) \<and> (\<forall>k. Suc n \<le> k \<and> k < 64 \<longrightarrow> bit w k)"
    by (metis Suc_leD le_antisym not_less_eq_eq)
  with 1 show ?case
    by (subst clear_bit_from.simps) auto
qed

lemma clear_bit_from_Some:
  "clear_bit_from w n = Some k \<Longrightarrow>
     n \<le> k \<and> k < 64 \<and> \<not> bit w k \<and> (\<forall>j. n \<le> j \<and> j < k \<longrightarrow> bit w j)"
proof (induction w n rule: clear_bit_from.induct)
  case (1 w n)
  have split: "n \<le> j \<Longrightarrow> j = n \<or> Suc n \<le> j" for j by auto
  from 1 show ?case
    by (subst (asm) (2) clear_bit_from.simps)
      (auto split: if_splits dest: split)
qed

lemma full_word_iff: "w = 0xFFFFFFFFFFFFFFFF \<longleftrightarrow> (\<forall>k < 64. bit w k)" for w :: u64
proof
  assume "\<forall>k < 64. bit w k"
  then show "w = 0xFFFFFFFFFFFFFFFF"
    unfolding all_ones_u64 by (intro bit_word_eqI) simp
qed (use bit_all_ones in blast)

section \<open>Marking and unmarking frames\<close>

lemma used_bit_mark:
  assumes "k div 64 < length (map_words b)" 
  shows "used_bit (mark b k) j \<longleftrightarrow> used_bit b j \<or> j = k"
proof (cases "j div 64 = k div 64")
  case True
  then have "j = k \<longleftrightarrow> j mod 64 = k mod 64" by (metis mod_mult_div_eq)
  then show ?thesis using assms True
    by (auto simp: used_bit_def mark_def bit_simps)
next
  case False
  then show ?thesis using assms by (auto simp: used_bit_def mark_def)
qed

lemma used_bit_unmark:
  assumes "k div 64 < length (map_words b)" 
  shows "used_bit (unmark b k) j \<longleftrightarrow> used_bit b j \<and> j \<noteq> k"
proof (cases "j div 64 = k div 64")
  case True
  then have "j = k \<longleftrightarrow> j mod 64 = k mod 64" by (metis mod_mult_div_eq)
  then show ?thesis using assms True
    by (auto simp: used_bit_def unmark_def bit_simps dest: bit_imp_le_length)
next
  case False
  then show ?thesis using assms by (auto simp: used_bit_def unmark_def)
qed

lemma mark_fields [simp]:
  "address (mark b k) = address b" "frames_total (mark b k) = frames_total b"
  "frames_free (mark b k) = frames_free b" "map_ptr (mark b k) = map_ptr b"
  "length (map_words (mark b k)) = length (map_words b)" "btype (mark b k) = btype b"
  "attributes (mark b k) = attributes b"
  by (simp_all add: mark_def)

lemma unmark_fields [simp]:
  "address (unmark b k) = address b" "frames_total (unmark b k) = frames_total b"
  "frames_free (unmark b k) = frames_free b" "map_ptr (unmark b k) = map_ptr b"
  "length (map_words (unmark b k)) = length (map_words b)" "btype (unmark b k) = btype b"
  "attributes (unmark b k) = attributes b"
  by (simp_all add: unmark_def)

lemma used_bit_frames_free [simp]: "used_bit (b\<lparr>frames_free := n\<rparr>) k = used_bit b k"
  by (simp add: used_bit_def)

lemma free_idx_frames_free [simp]: "free_idx (b\<lparr>frames_free := n\<rparr>) = free_idx b"
  by (simp add: free_idx_def)

lemma map_ok_frames_free [simp]: "map_ok (b\<lparr>frames_free := n\<rparr>) = map_ok b"
  by (simp add: map_ok_def)

lemma free_idx_subset: "free_idx b \<subseteq> {0..<unat (frames_total b)}"
  by (auto simp: free_idx_def)

lemma finite_free_idx [simp]: "finite (free_idx b)"
  using free_idx_subset by (rule finite_subset) simp

lemma free_idx_mark:
  assumes "k div 64 < length (map_words b)"
  shows "free_idx (mark b k) = free_idx b - {k}"
  using used_bit_mark [OF assms] by (auto simp: free_idx_def)

lemma free_idx_unmark:
  assumes "k div 64 < length (map_words b)" and "map_ptr b \<noteq> 0" and "k < unat (frames_total b)"
  shows "free_idx (unmark b k) = insert k (free_idx b)"
  using used_bit_unmark [OF assms(1)] assms(2,3) by (auto simp: free_idx_def)

lemma map_ok_mark:
  assumes "map_ok b" and "k div 64 < length (map_words b)"
  shows "map_ok (mark b k)"
  using assms used_bit_mark [OF assms(2)] by (auto simp: map_ok_def)

lemma map_ok_unmark:
  assumes "map_ok b" and "k div 64 < length (map_words b)" and "k < unat (frames_total b)"
  shows "map_ok (unmark b k)"
  using assms used_bit_unmark [OF assms(2)] by (auto simp: map_ok_def)

lemma map_get_ok [simp]:
  "map_ptr b \<noteq> 0 \<Longrightarrow> i < length (map_words b) \<Longrightarrow> map_get b i = Some (map_words b ! i)"
  by (simp add: map_get_def)

lemma map_set_mark:
  "map_ptr b \<noteq> 0 \<Longrightarrow> k div 64 < length (map_words b) \<Longrightarrow>
     map_set b (k div 64) (map_words b ! (k div 64) OR push_bit (k mod 64) 1) = Some (mark b k)"
  by (simp add: map_set_def mark_def)

lemma map_set_unmark:
  "map_ptr b \<noteq> 0 \<Longrightarrow> k div 64 < length (map_words b) \<Longrightarrow>
     map_set b (k div 64) (map_words b ! (k div 64) AND NOT (push_bit (k mod 64) 1)) = Some (unmark b k)"
  by (simp add: map_set_def unmark_def)

section \<open>Allocating and freeing one frame of a block\<close>

text \<open>The block after frame \<open>k\<close> was handed out, and after it was given back.\<close>

definition take_frame :: "pm_block \<Rightarrow> nat \<Rightarrow> pm_block" where
  "take_frame b k = (mark b k)\<lparr>frames_free := frames_free b - 1\<rparr>"

definition give_frame :: "pm_block \<Rightarrow> nat \<Rightarrow> pm_block" where
  "give_frame b k =
     (unmark b k)\<lparr>frames_free := (if used_bit b k then frames_free b + 1 else frames_free b)\<rparr>"

lemma free_idx_take_frame:
  assumes "block_ok b" and "k \<in> free_idx b"
  shows "free_idx (take_frame b k) = free_idx b - {k}"
proof -
  from assms have "map_ok b" and k: "k < unat (frames_total b)"
    by (auto simp: block_ok_def free_idx_def split: if_splits)
  then show ?thesis
    using map_ok_index [OF _ block_ok_total [OF assms(1)] k] by (simp add: take_frame_def free_idx_mark)
qed

lemma block_ok_take_frame:
  assumes "block_ok b" and "k \<in> free_idx b"
  shows "block_ok (take_frame b k)"
proof -
  from assms have ok: "map_ok b" and k: "k < unat (frames_total b)"
    by (auto simp: block_ok_def free_idx_def split: if_splits)
  have i: "k div 64 < length (map_words b)"
    using map_ok_index [OF ok block_ok_total [OF assms(1)] k] .
  have "0 < card (free_idx b)" using assms(2) by (auto simp: card_gt_0_iff)
  then have "unat (frames_free b - 1) = card (free_idx b) - 1"
    using assms(1) by (subst unat_sub_le) (auto simp: block_ok_def)
  also have "\<dots> = card (free_idx (take_frame b k))"
    using assms by (simp add: free_idx_take_frame)
  finally show ?thesis
    using assms(1) map_ok_mark [OF ok i] by (auto simp: block_ok_def take_frame_def)
qed

lemma free_idx_give_frame:
  assumes "block_ok b" and "map_ptr b \<noteq> 0" and "k < unat (frames_total b)"
  shows "free_idx (give_frame b k) = insert k (free_idx b)"
proof -
  have "map_ok b" using assms by (auto simp: block_ok_def)
  then show ?thesis
    using map_ok_index [OF _ block_ok_total [OF assms(1)] assms(3)] assms(2,3)
    by (simp add: give_frame_def free_idx_unmark)
qed

lemma block_ok_give_frame:
  assumes "block_ok b" and "map_ptr b \<noteq> 0" and "k < unat (frames_total b)"
  shows "block_ok (give_frame b k)"
proof -
  have ok: "map_ok b" using assms by (auto simp: block_ok_def)
  have i: "k div 64 < length (map_words b)"
    using map_ok_index [OF ok block_ok_total [OF assms(1)] assms(3)] .
  have "card (free_idx b) \<le> unat (frames_total b)"
    using card_mono [OF _ free_idx_subset [of b]] by simp
  then have lt: "card (free_idx b) + 1 < 2 ^ 64" using block_ok_total [OF assms(1)] by simp
  have n: "k \<in> free_idx b \<longleftrightarrow> \<not> used_bit b k" using assms(2,3) by (simp add: free_idx_def)
  have "unat (if used_bit b k then frames_free b + 1 else frames_free b) = card (insert k (free_idx b))"
    using assms(1) lt n by (auto simp: block_ok_def unat_add_nowrap insert_absorb)
  then show ?thesis
    using assms map_ok_unmark [OF ok i assms(3)] free_idx_give_frame [OF assms]
    by (auto simp: block_ok_def give_frame_def)
qed

text \<open>
  The scan of \<^verbatim>\<open>frame_allocate_from_block\<close> returns the lowest free frame: when every
  frame below the entry it stands at is in use, it hands out the least free index.
\<close>

definition first_free :: "pm_block \<Rightarrow> (u64 \<times> pm_block) option" where
  "first_free b =
     (if free_idx b = {} then Some (NO_FRAME, b)
      else Some (frame_addr b (Min (free_idx b)), take_frame b (Min (free_idx b))))"

lemma all_used_free_idx:
  assumes "\<forall>k < 64 * length (map_words b). used_bit b k" and "map_ok b"
    and "unat (frames_total b) \<le> 2 ^ 52"
  shows "free_idx b = {}"
proof -
  have "unat (frames_total b) \<le> 64 * length (map_words b)"
    using map_ok_length [OF assms(2,3)] by simp
  then show ?thesis using assms(1) by (auto simp: free_idx_def)
qed

lemma least_clear_bit:
  assumes "map_ok b" and "map_ptr b \<noteq> 0" and "entry < length (map_words b)"
    and "\<forall>k < 64 * entry. used_bit b k"
    and "clear_bit_from (map_words b ! entry) 0 = Some n"
  shows "free_idx b \<noteq> {} \<and> Min (free_idx b) = 64 * entry + n"
proof -
  let ?k = "64 * entry + n"
  note n = clear_bit_from_Some [OF assms(5)]
  have dm: "?k div 64 = entry" "?k mod 64 = n" using n by auto
  have clear: "\<not> used_bit b ?k" using n dm by (simp add: used_bit_def)
  have "?k < 64 * length (map_words b)" using assms(3) n by linarith
  with clear assms(1) have "?k < unat (frames_total b)"
    by (auto simp: map_ok_def not_less)
  with clear assms(2) have mem: "?k \<in> free_idx b" by (simp add: free_idx_def)
  moreover have "?k \<le> j" if "j \<in> free_idx b" for j
  proof (rule ccontr)
    assume "\<not> ?k \<le> j"
    moreover from that have j: "\<not> used_bit b j" by (auto simp: free_idx_def split: if_splits)
    ultimately have lt: "64 * entry \<le> j" "j < ?k" using assms(4) not_less by auto
    then have "j div 64 = entry" "j mod 64 = j - 64 * entry" "j - 64 * entry < n"
      using n by (simp_all add: div_nat_eqI minus_mult_div_eq_mod [symmetric])
    then show False using n j by (simp add: used_bit_def)
  qed
  ultimately show ?thesis by (auto intro: Min_eqI)
qed

lemma frame_allocate_from_entry_first_free:
  assumes "block_ok b" and "map_ptr b \<noteq> 0"
    and "entry \<le> length (map_words b)" and "\<forall>k < 64 * entry. used_bit b k"
  shows "frame_allocate_from_entry b entry = first_free b"
  using assms
proof (induction b entry rule: frame_allocate_from_entry.induct)
  case (1 b entry)
  have ok: "map_ok b" using "1.prems" by (auto simp: block_ok_def)
  have len: "unat (frame_map_size (frames_total b)) = length (map_words b)"
    using ok by (simp add: map_ok_def)
  let ?w = "map_words b ! entry"
  show ?case
  proof (cases "entry < length (map_words b)")
    case False
    then have "free_idx b = {}"
      using "1.prems" ok block_ok_total by (intro all_used_free_idx) auto
    then show ?thesis using False len
      by (subst frame_allocate_from_entry.simps) (simp add: first_free_def)
  next
    case True
    show ?thesis
    proof (cases "clear_bit_from ?w 0")
      case None
      then have full: "\<forall>k < 64. bit ?w k" by (simp add: clear_bit_from_None)
      have "used_bit b k" if "k < 64 * Suc entry" for k
      proof (cases "k < 64 * entry")
        case False
        then have "k div 64 = entry" using that by (auto simp: div_nat_eqI)
        then show ?thesis using full by (simp add: used_bit_def)
      qed (use "1.prems" in auto)
      then have "frame_allocate_from_entry b (Suc entry) = first_free b"
        using "1.IH"(1) [OF _ _ _ "1.prems"(1,2)] "1.prems" True len full full_word_iff [of ?w]
        by simp
      then show ?thesis using None True len "1.prems"
        by (subst frame_allocate_from_entry.simps) (simp add: full full_word_iff)
    next
      case (Some n)
      let ?k = "64 * entry + n"
      note n = clear_bit_from_Some [OF Some]
      have dm: "?k div 64 = entry" "?k mod 64 = n" using n by auto
      have "?w \<noteq> 0xFFFFFFFFFFFFFFFF" using n full_word_iff by blast
      moreover have "map_set b entry (?w OR push_bit n 1) = Some (mark b ?k)"
        using map_set_mark [of b ?k] "1.prems" True dm by simp
      moreover have "free_idx b \<noteq> {} \<and> Min (free_idx b) = ?k"
        using least_clear_bit ok "1.prems" True Some by blast
      ultimately show ?thesis using Some True len "1.prems"
        by (subst frame_allocate_from_entry.simps)
          (simp add: first_free_def frame_addr_def take_frame_def algebra_simps)
    qed
  qed
qed

lemma frame_allocate_from_block_first_free:
  "block_ok b \<Longrightarrow> map_ptr b \<noteq> 0 \<Longrightarrow> frame_allocate_from_block b = first_free b"
  by (simp add: frame_allocate_from_block_def frame_allocate_from_entry_first_free)

lemma unat_frame_addr:
  assumes "block_ok b" and "k \<le> unat (frames_total b)"
  shows "unat (frame_addr b k) = unat (address b) + 4096 * k"
proof -
  have bnd: "unat (address b) + 4096 * k \<le> 2 ^ 52" using assms by (auto simp: block_ok_def)
  have "unat (of_nat k :: u64) = k" using bnd by (intro unat_of_nat_u64) auto
  then have "unat (of_nat k * frame_size) = k * 4096"
    using bnd by (subst unat_mult_nowrap) auto
  then show ?thesis unfolding frame_addr_def using bnd by (subst unat_add_nowrap) auto
qed

lemma frame_offset_frame_addr:
  assumes "block_ok b" and "k < unat (frames_total b)"
  shows "unat ((frame_addr b k - address b) div frame_size) = k"
  using assms by (simp add: unat_div unat_sub_le unat_frame_addr)

lemma frame_free_from_block_give_frame:
  assumes "block_ok b" and "map_ptr b \<noteq> 0" and "k < unat (frames_total b)"
    and "unat ((addr - address b) div frame_size) = k"
  shows "frame_free_from_block b addr = Some (give_frame b k)"
proof -
  have "map_ok b" using assms by (auto simp: block_ok_def)
  then have i: "k div 64 < length (map_words b)"
    using map_ok_index [OF _ block_ok_total [OF assms(1)] assms(3)] by simp
  let ?b1 = "b\<lparr>frames_free := (if used_bit b k then frames_free b + 1 else frames_free b)\<rparr>"
  have "map_set ?b1 (k div 64) (map_words b ! (k div 64) AND NOT (push_bit (k mod 64) 1)) =
      Some (unmark ?b1 k)"
    using map_set_unmark [of ?b1 k] i assms(2) by simp
  moreover have "unmark ?b1 k = give_frame b k" by (simp add: give_frame_def unmark_def)
  ultimately show ?thesis using assms i
    by (auto simp: frame_free_from_block_def unat_div unat_mod used_bit_def split: if_splits)
qed

section \<open>Allocating a run of frames of a block\<close>

definition mark_all :: "pm_block \<Rightarrow> nat \<Rightarrow> nat \<Rightarrow> pm_block" where
  "mark_all b f stop = fold (\<lambda>k b. mark b k) [f..<stop] b"

definition take_run :: "pm_block \<Rightarrow> nat \<Rightarrow> u64 \<Rightarrow> pm_block" where
  "take_run b s count =
     (mark_all b s (s + unat count))\<lparr>frames_free := frames_free b - count\<rparr>"

definition free_run :: "pm_block \<Rightarrow> nat \<Rightarrow> nat \<Rightarrow> bool" where
  "free_run b s n \<longleftrightarrow> {s..<s + n} \<subseteq> free_idx b"

lemma fold_mark_fields [simp]:
  "address (fold (\<lambda>k b. mark b k) ks b) = address b"
  "frames_total (fold (\<lambda>k b. mark b k) ks b) = frames_total b"
  "frames_free (fold (\<lambda>k b. mark b k) ks b) = frames_free b"
  "map_ptr (fold (\<lambda>k b. mark b k) ks b) = map_ptr b"
  "length (map_words (fold (\<lambda>k b. mark b k) ks b)) = length (map_words b)"
  "btype (fold (\<lambda>k b. mark b k) ks b) = btype b"
  "attributes (fold (\<lambda>k b. mark b k) ks b) = attributes b"
  by (induction ks arbitrary: b) simp_all

lemma fold_mark_free_idx:
  assumes "\<forall>k \<in> set ks. k div 64 < length (map_words b)"
  shows "free_idx (fold (\<lambda>k b. mark b k) ks b) = free_idx b - set ks"
  using assms by (induction ks arbitrary: b) (auto simp: free_idx_mark)

lemma fold_mark_map_ok:
  assumes "\<forall>k \<in> set ks. k div 64 < length (map_words b)" and "map_ok b"
  shows "map_ok (fold (\<lambda>k b. mark b k) ks b)"
  using assms by (induction ks arbitrary: b) (auto simp: map_ok_mark)

lemma mark_run_mark_all:
  assumes "map_ptr b \<noteq> 0" and "stop \<le> 64 * length (map_words b)"
  shows "mark_run b f stop = Some (mark_all b f stop)"
  using assms
proof (induction b f stop rule: mark_run.induct)
  case (1 b f stop)
  show ?case
  proof (cases "f < stop")
    case True
    then have i: "f div 64 < length (map_words b)" using "1.prems"
      by (intro less_mult_imp_div_less) (simp add: mult.commute)
    then have "mark_run (mark b f) (Suc f) stop = Some (mark_all (mark b f) (Suc f) stop)"
      using "1.IH" [OF True, of "map_words b ! (f div 64)" "mark b f"] "1.prems"
        map_set_mark [of b f] by simp
    moreover have "mark_all (mark b f) (Suc f) stop = mark_all b f stop"
      using True by (simp add: mark_all_def upt_conv_Cons)
    ultimately show ?thesis using True i "1.prems" map_set_mark [of b f]
      by (subst mark_run.simps) simp
  next
    case False
    then show ?thesis by (subst mark_run.simps) (simp add: mark_all_def)
  qed
qed

lemma run_in_map:
  assumes "block_ok b" and "free_run b s n" and "0 < n"
  shows "map_ptr b \<noteq> 0" and "map_ok b" and "s + n \<le> unat (frames_total b)"
    and "\<forall>k \<in> {s..<s + n}. k div 64 < length (map_words b)"
proof -
  have "s \<in> free_idx b" using assms by (auto simp: free_run_def)
  then show "map_ptr b \<noteq> 0" by (auto simp: free_idx_def)
  then show ok: "map_ok b" using assms(1) by (auto simp: block_ok_def)
  have "s + n - 1 \<in> free_idx b" using assms(2,3) by (auto simp: free_run_def)
  then show le: "s + n \<le> unat (frames_total b)" using free_idx_subset [of b] by auto
  show "\<forall>k \<in> {s..<s + n}. k div 64 < length (map_words b)"
    using map_ok_index [OF ok block_ok_total [OF assms(1)]] le by auto
qed

lemma free_idx_take_run:
  assumes "block_ok b" and "free_run b s (unat count)" and "count \<noteq> 0"
  shows "free_idx (take_run b s count) = free_idx b - {s..<s + unat count}"
  using run_in_map [OF assms(1,2)] assms(3)
  by (simp add: take_run_def mark_all_def fold_mark_free_idx unat_gt_0)

lemma block_ok_take_run:
  assumes "block_ok b" and "free_run b s (unat count)" and "count \<noteq> 0"
  shows "block_ok (take_run b s count)"
proof -
  note run = run_in_map [OF assms(1,2)]
  have pos: "0 < unat count" using assms(3) by (simp add: unat_gt_0)
  have sub: "{s..<s + unat count} \<subseteq> free_idx b" using assms(2) by (simp add: free_run_def)
  have "unat count \<le> card (free_idx b)" using card_mono [OF _ sub] by simp
  then have "unat (frames_free b - count) = card (free_idx b) - unat count"
    using assms(1) by (subst unat_sub_le) (auto simp: block_ok_def)
  also have "\<dots> = card (free_idx (take_run b s count))"
    using sub by (simp add: free_idx_take_run [OF assms] card_Diff_subset)
  finally have "unat (frames_free (take_run b s count)) = card (free_idx (take_run b s count))"
    by (simp add: take_run_def)
  moreover have "map_ok (take_run b s count)"
    using run pos by (simp add: take_run_def mark_all_def fold_mark_map_ok)
  ultimately show ?thesis
    using assms(1) by (auto simp: block_ok_def take_run_def mark_all_def)
qed

text \<open>First fit: the lowest run of \<open>count\<close> free frames, or none.\<close>

definition first_run :: "pm_block \<Rightarrow> u64 \<Rightarrow> (u64 \<times> pm_block) option" where
  "first_run b count =
     (if \<exists>s. free_run b s (unat count)
      then Some (frame_addr b (LEAST s. free_run b s (unat count)),
                 take_run b (LEAST s. free_run b s (unat count)) count)
      else Some (NO_FRAME, b))"

lemma frame_is_used_eq:
  assumes "map_ptr b \<noteq> 0" and "k div 64 < length (map_words b)"
  shows "frame_is_used b k = Some (if used_bit b k then 1 else 0)"
proof -
  have "drop_bit n w AND 1 = (if bit w n then 1 else 0)" for w :: u64 and n
    by (simp add: and_one_eq mod_2_eq_odd even_drop_bit_iff_not_bit)
  then show ?thesis using assms by (simp add: frame_is_used_def used_bit_def)
qed

text \<open>The scan over a frame: a used one lies before every run that is still possible, and the last one of a run ends the scan.\<close>

lemma run_past_used:
  assumes "free_run b s n" and "used_bit b frame" and "start \<le> s" and "start + l = frame" and "l < n"
  shows "Suc frame \<le> s"
proof (rule ccontr)
  assume "\<not> Suc frame \<le> s"
  then have "frame \<in> {s..<s + n}" using assms(3-5) by auto
  then have "frame \<in> free_idx b" using assms(1) by (auto simp: free_run_def)
  then show False using assms(2) by (auto simp: free_idx_def split: if_splits)
qed

lemma claim_first_run:
  assumes "block_ok b" and "map_ptr b \<noteq> 0" and "count \<noteq> 0" and "free_run b s (unat count)"
    and "\<And>t. free_run b t (unat count) \<Longrightarrow> s \<le> t"
  shows "mark_run b s (s + unat count) = Some (mark_all b s (s + unat count))"
    and "first_run b count = Some (frame_addr b s, take_run b s count)"
proof -
  have map: "map_ok b" using assms(1,2) by (simp add: block_ok_def)
  have pos: "0 < unat count" using assms(3) by (simp add: unat_gt_0)
  have "s + unat count \<le> 64 * length (map_words b)"
    using run_in_map(3) [OF assms(1,4) pos] map_ok_length [OF map block_ok_total [OF assms(1)]] by simp
  then show "mark_run b s (s + unat count) = Some (mark_all b s (s + unat count))"
    using assms(2) by (intro mark_run_mark_all) auto
  have "(LEAST s. free_run b s (unat count)) = s" using assms(4,5) by (intro Least_equality) auto
  then show "first_run b count = Some (frame_addr b s, take_run b s count)"
    using assms(4) by (auto simp: first_run_def)
qed

lemma frames_scan_first_run:
  assumes "block_ok b" and "map_ptr b \<noteq> 0" and "count \<noteq> 0"
    and "frame \<le> unat (frames_total b)" and "run_length < unat count"
    and "run_length \<noteq> 0 \<Longrightarrow> run_start + run_length = frame \<and> free_run b run_start run_length"
    and "\<And>s. free_run b s (unat count) \<Longrightarrow> (if run_length = 0 then frame else run_start) \<le> s"
  shows "frames_scan b count frame run_start run_length = first_run b count"
  using assms
proof (induction b count frame run_start run_length rule: frames_scan.induct)
  case (1 b count frame run_start run_length)
  note ok = "1.prems"(1) and ptr = "1.prems"(2) and cnt = "1.prems"(3)
  have map: "map_ok b" using ok ptr by (simp add: block_ok_def)
  have pos: "0 < unat count" using cnt by (simp add: unat_gt_0)
  let ?s = "if run_length = 0 then frame else run_start"
  have sum: "?s + run_length = frame" using "1.prems"(6) by auto
  show ?case
  proof (cases "frame < unat (frames_total b)")
    case False
    have "\<not> free_run b s (unat count)" for s
    proof
      assume r: "free_run b s (unat count)"
      show False using run_in_map(3) [OF ok r pos] "1.prems"(5) "1.prems"(7) [OF r] False sum by linarith
    qed
    then show ?thesis using False by (subst frames_scan.simps) (simp add: first_run_def)
  next
    case True
    note used = frame_is_used_eq [OF ptr map_ok_index [OF map block_ok_total [OF ok] True]]
    show ?thesis
    proof (cases "used_bit b frame")
      case u: True
      have "Suc frame \<le> s" if "free_run b s (unat count)" for s
        using run_past_used [OF that u "1.prems"(7) [OF that] sum "1.prems"(5)] .
      then have "frames_scan b count (Suc frame) run_start 0 = first_run b count"
        using "1.IH"(1) [OF True used] u ok ptr cnt True pos by simp
      then show ?thesis using True used u by (subst frames_scan.simps) simp
    next
      case u: False
      have fr: "free_run b ?s (Suc run_length)"
        using "1.prems"(6) True u ptr by (fastforce simp: free_run_def free_idx_def less_Suc_eq)
      show ?thesis
      proof (cases "Suc run_length < unat count")
        case less: True
        have "frames_scan b count (Suc frame) ?s (Suc run_length) = first_run b count"
          using "1.IH"(2) [OF True used _ refl refl] u ok ptr cnt True less fr sum "1.prems"(7)
          by simp
        then show ?thesis using True used u less by (subst frames_scan.simps) (simp add: Let_def)
      next
        case False
        then have "Suc run_length = unat count" using "1.prems"(5) by simp
        then have "free_run b ?s (unat count)" using fr by simp
        note claim = claim_first_run [OF ok ptr cnt this "1.prems"(7)]
        then show ?thesis using True used u False
          by (subst frames_scan.simps) (simp add: Let_def frame_addr_def take_run_def mark_all_def)
      qed
    qed
  qed
qed

lemma frames_allocate_from_block_first_run:
  assumes "block_ok b" and "map_ptr b \<noteq> 0" and "count \<noteq> 0"
  shows "frames_allocate_from_block b count = first_run b count"
  unfolding frames_allocate_from_block_def
  using assms by (intro frames_scan_first_run) (auto simp: unat_gt_0)

section \<open>The manager\<close>

definition upd_block :: "pmm \<Rightarrow> nat \<Rightarrow> pm_block \<Rightarrow> pmm" where
  "upd_block pm i b = pm\<lparr>blocks := (blocks pm)[i := b]\<rparr>"

lemma block_count_upd [simp]: "block_count (upd_block pm i b) = block_count pm"
  by (simp add: upd_block_def)

lemma nth_upd:
  assumes "pmm_ok pm" and "i < unat (block_count pm)"
  shows "blocks (upd_block pm i b) ! j = (if j = i then b else blocks pm ! j)"
  using assms by (simp add: upd_block_def pmm_ok_def nth_list_update)

lemma pmm_ok_nth: "pmm_ok pm \<Longrightarrow> i < unat (block_count pm) \<Longrightarrow> block_ok (blocks pm ! i)"
  by (auto simp: pmm_ok_def)

lemma pmm_ok_aget: "pmm_ok pm \<Longrightarrow> i < unat (block_count pm) \<Longrightarrow> aget (blocks pm) i = Some (blocks pm ! i)"
  by (auto simp: pmm_ok_def)

lemma pmm_ok_apart:
  assumes "pmm_ok pm" and "i < unat (block_count pm)" and "j < unat (block_count pm)" and "i \<noteq> j"
  shows "blocks_apart (blocks pm ! i) (blocks pm ! j)"
proof (cases "j < i")
  case True
  then show ?thesis using assms by (auto simp: pmm_ok_def)
next
  case False
  then have "blocks_apart (blocks pm ! j) (blocks pm ! i)"
    using assms by (auto simp: pmm_ok_def)
  then show ?thesis by (auto simp: blocks_apart_def)
qed

lemma pmm_ok_upd:
  assumes "pmm_ok pm" and "i < unat (block_count pm)" and "block_ok b"
    and "address b = address (blocks pm ! i)" and "frames_total b = frames_total (blocks pm ! i)"
  shows "pmm_ok (upd_block pm i b)"
proof -
  have "blocks_apart (blocks (upd_block pm i b) ! j) (blocks (upd_block pm i b) ! k) \<longleftrightarrow>
      blocks_apart (blocks pm ! j) (blocks pm ! k)" for j k
    using assms by (auto simp: blocks_apart_def nth_upd)
  moreover have "length (blocks (upd_block pm i b)) = length (blocks pm)"
    by (simp add: upd_block_def)
  ultimately show ?thesis
    using assms pmm_ok_nth [OF assms(1)] unfolding pmm_ok_def [of "upd_block pm i b"]
    by (auto simp: nth_upd pmm_ok_def [of pm])
qed

lemma block_free_subset: "block_free b \<subseteq> block_frames b"
  using free_idx_subset by (auto simp: block_free_def block_frames_def)

lemma block_frames_bounds:
  assumes "block_ok b" and "a \<in> block_frames b"
  shows "unat (address b) \<le> unat a" 
    and "unat a + 4096 \<le> unat (address b) + 4096 * unat (frames_total b)"
    and "unat a mod 4096 = 0"
proof -
  obtain k where k: "k < unat (frames_total b)" "a = frame_addr b k"
    using assms(2) by (auto simp: block_frames_def)
  then have u: "unat a = unat (address b) + 4096 * k" using assms(1) by (simp add: unat_frame_addr)
  show "unat (address b) \<le> unat a" using u by simp
  have "4096 * Suc k \<le> 4096 * unat (frames_total b)" using k(1) by (intro mult_le_mono2) simp
  then show "unat a + 4096 \<le> unat (address b) + 4096 * unat (frames_total b)" using u by simp
  show "unat a mod 4096 = 0" using u assms(1) by (simp add: block_ok_def)
qed

lemma frame_addr_inj:
  assumes "block_ok b" and "k < unat (frames_total b)" and "j < unat (frames_total b)"
  shows "frame_addr b k = frame_addr b j \<longleftrightarrow> k = j"
proof
  assume "frame_addr b k = frame_addr b j"
  then have "unat (frame_addr b k) = unat (frame_addr b j)" by (rule arg_cong)
  then show "k = j" using assms by (simp add: unat_frame_addr)
qed (rule arg_cong)

lemma frame_addr_image_diff:
  assumes "block_ok b" and "A \<subseteq> {0..<unat (frames_total b)}" and "B \<subseteq> {0..<unat (frames_total b)}"
  shows "frame_addr b ` (A - B) = frame_addr b ` A - frame_addr b ` B"
proof (rule inj_on_image_set_diff)
  show "inj_on (frame_addr b) {0..<unat (frames_total b)}"
    using frame_addr_inj [OF assms(1)] by (auto simp: inj_on_def)
qed (use assms in auto)

lemma frame_addr_cong: "address b = address c \<Longrightarrow> frame_addr b = frame_addr c"
  by (simp add: frame_addr_def fun_eq_iff)

lemma take_frame_fields [simp]:
  "address (take_frame b k) = address b" "frames_total (take_frame b k) = frames_total b"
  "map_ptr (take_frame b k) = map_ptr b" "btype (take_frame b k) = btype b"
  by (simp_all add: take_frame_def)

lemma give_frame_fields [simp]:
  "address (give_frame b k) = address b" "frames_total (give_frame b k) = frames_total b"
  "map_ptr (give_frame b k) = map_ptr b" "btype (give_frame b k) = btype b"
  by (simp_all add: give_frame_def)

lemma take_run_fields [simp]:
  "address (take_run b k n) = address b" "frames_total (take_run b k n) = frames_total b"
  "map_ptr (take_run b k n) = map_ptr b" "btype (take_run b k n) = btype b"
  by (simp_all add: take_run_def mark_all_def)

lemma block_free_take_frame:
  assumes "block_ok b" and "k \<in> free_idx b"
  shows "block_free (take_frame b k) = block_free b - {frame_addr b k}"
proof -
  have "frame_addr (take_frame b k) = frame_addr b" by (rule frame_addr_cong) simp
  moreover have "{k} \<subseteq> {0..<unat (frames_total b)}" using assms(2) free_idx_subset by blast
  ultimately show ?thesis
    using frame_addr_image_diff [OF assms(1) free_idx_subset, of "{k}"]
    by (simp add: block_free_def free_idx_take_frame [OF assms])
qed

lemma block_free_give_frame:
  assumes "block_ok b" and "map_ptr b \<noteq> 0" and "k < unat (frames_total b)"
  shows "block_free (give_frame b k) = insert (frame_addr b k) (block_free b)"
proof -
  have "frame_addr (give_frame b k) = frame_addr b" by (rule frame_addr_cong) simp
  then show ?thesis by (simp add: block_free_def free_idx_give_frame [OF assms])
qed

lemma block_free_take_run:
  assumes "block_ok b" and "free_run b s (unat count)" and "count \<noteq> 0"
  shows "block_free (take_run b s count) = block_free b - frame_addr b ` {s..<s + unat count}"
proof -
  have "frame_addr (take_run b s count) = frame_addr b" by (rule frame_addr_cong) simp
  moreover have "{s..<s + unat count} \<subseteq> {0..<unat (frames_total b)}"
    using assms(2) free_idx_subset [of b] unfolding free_run_def by (rule subset_trans)
  ultimately show ?thesis
    using frame_addr_image_diff [OF assms(1) free_idx_subset]
    by (simp add: block_free_def free_idx_take_run [OF assms])
qed

lemma blocks_apart_frames:
  assumes "block_ok b" and "block_ok c" and "blocks_apart b c"
  shows "block_frames b \<inter> block_frames c = {}"
proof -
  have False if "a \<in> block_frames b" and "a \<in> block_frames c" for a
    using block_frames_bounds [OF assms(1) that(1)] block_frames_bounds [OF assms(2) that(2)]
      assms(3) by (auto simp: blocks_apart_def)
  then show ?thesis by blast
qed

lemma pmm_free_upd:
  assumes "pmm_ok pm" and "i < unat (block_count pm)"
  shows "pmm_free (upd_block pm i b) = (pmm_free pm - block_free (blocks pm ! i)) \<union> block_free b"
proof -
  have "block_free (blocks pm ! j) \<inter> block_free (blocks pm ! i) = {}"
    if "j < unat (block_count pm)" "j \<noteq> i" for j
    using blocks_apart_frames [OF pmm_ok_nth [OF assms(1) that(1)] pmm_ok_nth [OF assms]]
      pmm_ok_apart [OF assms(1) that(1) assms(2) that(2)] block_free_subset by blast
  then have "(x \<in> block_free (blocks pm ! j) \<and> j \<noteq> i) \<longleftrightarrow>
      (x \<in> block_free (blocks pm ! j) \<and> x \<notin> block_free (blocks pm ! i))"
    if "j < unat (block_count pm)" for x j using that by blast
  then show ?thesis
    using assms by (fastforce simp: pmm_free_def nth_upd split: if_splits)
qed

text \<open>The frames of the blocks that have a bitmap.\<close>

definition pmm_managed :: "pmm \<Rightarrow> u64 set" where
  "pmm_managed pm =
     (\<Union>i \<in> {i \<in> {0..<unat (block_count pm)}. map_ptr (blocks pm ! i) \<noteq> 0}. block_frames (blocks pm ! i))"

lemma block_frames_cong:
  "address b = address c \<Longrightarrow> frames_total b = frames_total c \<Longrightarrow> block_frames b = block_frames c"
  using frame_addr_cong [of b c] by (simp add: block_frames_def)

lemma pmm_managed_upd:
  assumes "pmm_ok pm" and "i < unat (block_count pm)" and "address b = address (blocks pm ! i)"
    and "frames_total b = frames_total (blocks pm ! i)" and "map_ptr b = map_ptr (blocks pm ! i)"
  shows "pmm_managed (upd_block pm i b) = pmm_managed pm"
proof -
  let ?pm = "upd_block pm i b"
  have "block_frames (blocks ?pm ! j) = block_frames (blocks pm ! j)" for j
    using block_frames_cong [OF assms(3,4)] by (simp add: nth_upd [OF assms(1,2)])
  moreover have "map_ptr (blocks ?pm ! j) = map_ptr (blocks pm ! j)" for j
    using assms(5) by (simp add: nth_upd [OF assms(1,2)])
  ultimately show ?thesis by (simp add: pmm_managed_def)
qed

lemma block_frames_52:
  assumes "block_ok b" and "a \<in> block_frames b"
  shows "unat a + 4096 \<le> 2 ^ 52"
  using block_frames_bounds(2) [OF assms] assms(1) by (simp add: block_ok_def)

lemma frame_addr_in_frames: "k \<in> free_idx b \<Longrightarrow> frame_addr b k \<in> block_frames b"
  using free_idx_subset by (auto simp: block_frames_def)

lemma NO_FRAME_not_frame: "block_ok b \<Longrightarrow> NO_FRAME \<notin> block_frames b"
  using block_frames_52 [of b NO_FRAME] by auto

lemma frames_free_0_iff:
  assumes "block_ok b"
  shows "frames_free b = 0 \<longleftrightarrow> free_idx b = {}"
proof -
  have "frames_free b = 0 \<longleftrightarrow> unat (frames_free b) = 0" by (simp add: unat_eq_0)
  then show ?thesis using assms by (simp add: block_ok_def)
qed

lemma free_idx_block_free: "free_idx b = {} \<longleftrightarrow> block_free b = {}"
  by (simp add: block_free_def)

lemma frame_allocate_loop_cases:
  assumes "pmm_ok pm" and "\<forall>j < i. block_free (blocks pm ! j) = {}"
  shows "(pmm_free pm = {} \<longrightarrow> frame_allocate_loop pm i = Some (NO_FRAME, pm)) \<and>
    (pmm_free pm \<noteq> {} \<longrightarrow> (\<exists>j < unat (block_count pm). \<exists>k \<in> free_idx (blocks pm ! j).
       frame_allocate_loop pm i =
         Some (frame_addr (blocks pm ! j) k, upd_block pm j (take_frame (blocks pm ! j) k))))"
  using assms
proof (induction pm i rule: frame_allocate_loop.induct)
  case (1 pm i)
  let ?b = "blocks pm ! i"
  show ?case
  proof (cases "i < unat (block_count pm)")
    case False
    then have "pmm_free pm = {}" using "1.prems"(2) by (auto simp: pmm_free_def)
    with False show ?thesis by (simp add: frame_allocate_loop.simps [of pm i])
  next
    case True
    note ok = pmm_ok_nth [OF "1.prems"(1) True] and get = pmm_ok_aget [OF "1.prems"(1) True]
    show ?thesis
    proof (cases "frames_free ?b = 0")
      case free0: True
      then have "block_free ?b = {}" using frames_free_0_iff [OF ok] free_idx_block_free by blast
      then have "\<forall>j < Suc i. block_free (blocks pm ! j) = {}"
        using "1.prems"(2) less_Suc_eq by auto
      then show ?thesis
        using "1.IH"(1) [OF True get free0 "1.prems"(1)] True get free0
        by (simp add: frame_allocate_loop.simps [of pm i])
    next
      case False
      then have ne: "free_idx ?b \<noteq> {}" using frames_free_0_iff [OF ok] by simp
      let ?k = "Min (free_idx ?b)"
      have k: "?k \<in> free_idx ?b" using ne by (intro Min_in) auto
      have "map_ptr ?b \<noteq> 0" using ne by (auto simp: free_idx_def)
      then have eq: "frame_allocate_from_block ?b = Some (frame_addr ?b ?k, take_frame ?b ?k)"
        using frame_allocate_from_block_first_free [OF ok] ne by (simp add: first_free_def)
      have neq: "frame_addr ?b ?k \<noteq> NO_FRAME"
        using NO_FRAME_not_frame [OF ok] frame_addr_in_frames [OF k] by auto
      have "block_free ?b \<noteq> {}" using ne free_idx_block_free by blast
      then have "pmm_free pm \<noteq> {}" using True by (auto simp: pmm_free_def)
      then show ?thesis using True get False eq neq k
        by (auto simp: frame_allocate_loop.simps [of pm i] upd_block_def Let_def intro!: exI [of _ i])
    qed
  qed
qed

lemma frame_allocate_none:
  "pmm_ok pm \<Longrightarrow> pmm_free pm = {} \<Longrightarrow> frame_allocate pm = Some (NO_FRAME, pm)"
  using frame_allocate_loop_cases [of pm 0] by (simp add: frame_allocate_def)

lemma frame_allocate_take:
  assumes "pmm_ok pm" and "pmm_free pm \<noteq> {}"
  obtains j k where "j < unat (block_count pm)" and "k \<in> free_idx (blocks pm ! j)"
    and "frame_allocate pm =
      Some (frame_addr (blocks pm ! j) k, upd_block pm j (take_frame (blocks pm ! j) k))"
  using frame_allocate_loop_cases [of pm 0] assms by (auto simp: frame_allocate_def)

lemma pmm_take_frame:
  assumes "pmm_ok pm" and "j < unat (block_count pm)" and "k \<in> free_idx (blocks pm ! j)"
  defines "b \<equiv> blocks pm ! j" and "pm' \<equiv> upd_block pm j (take_frame (blocks pm ! j) k)"
  shows "pmm_ok pm'" and "pmm_free pm' = pmm_free pm - {frame_addr b k}"
    and "pmm_managed pm' = pmm_managed pm" and "frame_addr b k \<in> pmm_free pm"
proof -
  have ok: "block_ok b" and k: "k \<in> free_idx b"
    using pmm_ok_nth [OF assms(1,2)] assms(3) by (simp_all add: b_def)
  show "pmm_ok pm'" and "pmm_managed pm' = pmm_managed pm"
    using pmm_ok_upd [OF assms(1,2) block_ok_take_frame [OF ok k]]
      pmm_managed_upd [OF assms(1,2), of "take_frame b k"] by (simp_all add: pm'_def b_def)
  have in_b: "frame_addr b k \<in> block_free b" using k by (simp add: block_free_def)
  then show "frame_addr b k \<in> pmm_free pm" using assms(2) by (auto simp: pmm_free_def b_def)
  have "block_free b \<subseteq> pmm_free pm" using assms(2) by (auto simp: pmm_free_def b_def)
  then show "pmm_free pm' = pmm_free pm - {frame_addr b k}"
    using pmm_free_upd [OF assms(1,2), of "take_frame b k"] block_free_take_frame [OF ok k] in_b
    by (auto simp: pm'_def b_def)
qed

text \<open>The block a frame of the manager belongs to is unique, so \<^verbatim>\<open>frame_free\<close> finds it.\<close>

lemma in_block_range:
  assumes "block_ok b"
  shows "(address b \<le> a \<and> a < address b + frames_total b * frame_size) \<longleftrightarrow>
    unat (address b) \<le> unat a \<and> unat a < unat (address b) + 4096 * unat (frames_total b)"
proof -
  have "address b + frames_total b * frame_size = frame_addr b (unat (frames_total b))"
    by (simp add: frame_addr_def)
  then show ?thesis
    using unat_frame_addr [OF assms order_refl] by (simp add: word_le_nat_alt word_less_nat_alt)
qed

lemma frame_free_loop_found:
  assumes "pmm_ok pm" and "j < unat (block_count pm)" and "i \<le> j"
    and "unat (address (blocks pm ! j)) \<le> unat a"
    and "unat a < unat (address (blocks pm ! j)) + 4096 * unat (frames_total (blocks pm ! j))"
  shows "frame_free_loop pm a i =
    map_option (upd_block pm j) (frame_free_from_block (blocks pm ! j) a)"
  using assms(3)
proof (induction "j - i" arbitrary: i)
  case 0
  then have "i = j" by simp
  moreover have "address (blocks pm ! j) \<le> a \<and>
      a < address (blocks pm ! j) + frames_total (blocks pm ! j) * frame_size"
    using assms(4,5) by (simp add: in_block_range pmm_ok_nth [OF assms(1,2)])
  ultimately show ?case
    using assms(2) pmm_ok_aget [OF assms(1,2)]
    by (cases "frame_free_from_block (blocks pm ! j) a")
      (simp_all add: frame_free_loop.simps [of pm a j] upd_block_def)
next
  case (Suc d)
  then have i: "i < unat (block_count pm)" "i \<noteq> j" using assms(2) by auto
  have "\<not> (address (blocks pm ! i) \<le> a \<and>
      a < address (blocks pm ! i) + frames_total (blocks pm ! i) * frame_size)"
    using assms(4,5) pmm_ok_apart [OF assms(1) i(1) assms(2) i(2)]
    unfolding in_block_range [OF pmm_ok_nth [OF assms(1) i(1)]] blocks_apart_def by linarith
  then have "frame_free_loop pm a i = frame_free_loop pm a (Suc i)"
    using i(1) pmm_ok_aget [OF assms(1) i(1)]
    by (subst frame_free_loop.simps) (auto simp: Let_def)
  then show ?case using Suc by simp
qed

lemma frame_free_loop_outside:
  assumes "pmm_ok pm"
    and "\<forall>j < unat (block_count pm). \<not> (unat (address (blocks pm ! j)) \<le> unat a \<and>
      unat a < unat (address (blocks pm ! j)) + 4096 * unat (frames_total (blocks pm ! j)))"
  shows "frame_free_loop pm a i = Some pm"
proof (induction "unat (block_count pm) - i" arbitrary: i)
  case 0
  then show ?case by (simp add: frame_free_loop.simps [of pm a i])
next
  case (Suc d)
  then have i: "i < unat (block_count pm)" by simp
  then have "\<not> (address (blocks pm ! i) \<le> a \<and>
      a < address (blocks pm ! i) + frames_total (blocks pm ! i) * frame_size)"
    using assms(2) unfolding in_block_range [OF pmm_ok_nth [OF assms(1) i]] by blast
  then show ?case using Suc i pmm_ok_aget [OF assms(1) i]
    by (subst frame_free_loop.simps) (auto simp: Let_def)
qed

lemma frame_free_give:
  assumes "pmm_ok pm" and "j < unat (block_count pm)" and "map_ptr (blocks pm ! j) \<noteq> 0"
    and "k < unat (frames_total (blocks pm ! j))"
  shows "frame_free pm (frame_addr (blocks pm ! j) k) =
    Some (upd_block pm j (give_frame (blocks pm ! j) k))"
proof -
  note ok = pmm_ok_nth [OF assms(1,2)]
  have "frame_addr (blocks pm ! j) k \<in> block_frames (blocks pm ! j)"
    using assms(4) by (simp add: block_frames_def)
  from block_frames_bounds [OF ok this] show ?thesis
    using frame_free_loop_found [OF assms(1,2), of 0]
      frame_free_from_block_give_frame [OF ok assms(3,4) frame_offset_frame_addr [OF ok assms(4)]]
    by (simp add: frame_free_def)
qed

lemma pmm_give_frame:
  assumes "pmm_ok pm" and "j < unat (block_count pm)" and "map_ptr (blocks pm ! j) \<noteq> 0"
    and "k < unat (frames_total (blocks pm ! j))"
  defines "b \<equiv> blocks pm ! j" and "pm' \<equiv> upd_block pm j (give_frame (blocks pm ! j) k)"
  shows "pmm_ok pm'" and "pmm_free pm' = insert (frame_addr b k) (pmm_free pm)"
    and "pmm_managed pm' = pmm_managed pm"
proof -
  note ok = pmm_ok_nth [OF assms(1,2)]
  show "pmm_ok pm'" and "pmm_managed pm' = pmm_managed pm"
    using pmm_ok_upd [OF assms(1,2) block_ok_give_frame [OF ok assms(3,4)]]
      pmm_managed_upd [OF assms(1,2), of "give_frame b k"] by (simp_all add: pm'_def b_def)
  have "block_free b \<subseteq> pmm_free pm" using assms(2) by (auto simp: pmm_free_def b_def)
  then show "pmm_free pm' = insert (frame_addr b k) (pmm_free pm)"
    using pmm_free_upd [OF assms(1,2), of "give_frame b k"] block_free_give_frame [OF ok assms(3,4)]
    by (auto simp: pm'_def b_def)
qed

subsection \<open>Runs of contiguous frames\<close>

lemma free_run_card:
  assumes "free_run b s n"
  shows "n \<le> card (free_idx b)"
  using card_mono [OF finite_free_idx, of "{s..<s + n}" b] assms by (simp add: free_run_def)

lemma upd_block_id: "upd_block pm i (blocks pm ! i) = pm"
  by (simp add: upd_block_def)

lemma free_run_start: "free_run b s n \<Longrightarrow> 0 < n \<Longrightarrow> s \<in> free_idx b"
  by (auto simp: free_run_def)

lemma frames_allocate_loop_skip:
  assumes "pmm_ok pm" and "count \<noteq> 0" and "i < unat (block_count pm)"
    and "\<nexists>s. free_run (blocks pm ! i) s (unat count)"
  shows "frames_allocate_loop pm count i = frames_allocate_loop pm count (Suc i)"
proof (cases "map_ptr (blocks pm ! i) = 0 \<or> frames_free (blocks pm ! i) < count")
  case True
  then show ?thesis using assms pmm_ok_aget [OF assms(1,3)]
    by (auto simp: frames_allocate_loop.simps [of pm count i])
next
  case False
  then have "frames_allocate_from_block (blocks pm ! i) count = Some (NO_FRAME, blocks pm ! i)"
    using frames_allocate_from_block_first_run [OF pmm_ok_nth [OF assms(1,3)] _ assms(2)] assms(4)
    by (simp add: first_run_def)
  then show ?thesis using assms(3) pmm_ok_aget [OF assms(1,3)] False upd_block_id [of pm i]
    by (auto simp: frames_allocate_loop.simps [of pm count i] upd_block_def Let_def)
qed

lemma frames_allocate_loop_hit:
  assumes "pmm_ok pm" and "count \<noteq> 0" and "i < unat (block_count pm)"
    and "free_run (blocks pm ! i) r (unat count)"
  shows "\<exists>s. free_run (blocks pm ! i) s (unat count) \<and> frames_allocate_loop pm count i =
    Some (frame_addr (blocks pm ! i) s, upd_block pm i (take_run (blocks pm ! i) s count))"
proof -
  let ?b = "blocks pm ! i" and ?s = "LEAST s. free_run (blocks pm ! i) s (unat count)"
  note ok = pmm_ok_nth [OF assms(1,3)] and get = pmm_ok_aget [OF assms(1,3)]
  have pos: "0 < unat count" using assms(2) by (simp add: unat_gt_0)
  have s: "free_run ?b ?s (unat count)" using assms(4) by (rule LeastI)
  have ptr: "map_ptr ?b \<noteq> 0" using run_in_map(1) [OF ok s pos] .
  have "\<not> frames_free ?b < count"
    using free_run_card [OF s] ok by (simp add: word_less_nat_alt block_ok_def)
  moreover have "frames_allocate_from_block ?b count = Some (frame_addr ?b ?s, take_run ?b ?s count)"
    using frames_allocate_from_block_first_run [OF ok ptr assms(2)] assms(4)
    by (auto simp: first_run_def)
  moreover have "frame_addr ?b ?s \<noteq> NO_FRAME"
    using NO_FRAME_not_frame [OF ok] frame_addr_in_frames [OF free_run_start [OF s pos]] by auto
  ultimately have "frames_allocate_loop pm count i =
      Some (frame_addr ?b ?s, upd_block pm i (take_run ?b ?s count))"
    using assms(3) get ptr by (auto simp: frames_allocate_loop.simps [of pm count i] upd_block_def Let_def)
  then show ?thesis using s by blast
qed

lemma frames_allocate_none:
  assumes "pmm_ok pm" and "\<forall>j < unat (block_count pm). \<forall>s. \<not> free_run (blocks pm ! j) s (unat count)"
  shows "frames_allocate pm count = Some (NO_FRAME, pm)"
proof (cases "count = 0")
  case False
  have "frames_allocate_loop pm count i = Some (NO_FRAME, pm)" for i
  proof (induction "unat (block_count pm) - i" arbitrary: i)
    case 0
    then show ?case by (simp add: frames_allocate_loop.simps [of pm count i])
  next
    case (Suc d)
    then show ?case using assms False frames_allocate_loop_skip [of pm count i] by simp
  qed
  with False show ?thesis by (simp add: frames_allocate_def)
qed (simp add: frames_allocate_def)

lemma frames_allocate_take:
  assumes "pmm_ok pm" and "count \<noteq> 0"
    and "j < unat (block_count pm)" and "free_run (blocks pm ! j) r (unat count)"
  shows "\<exists>j < unat (block_count pm). \<exists>s. free_run (blocks pm ! j) s (unat count) \<and>
    frames_allocate pm count =
      Some (frame_addr (blocks pm ! j) s, upd_block pm j (take_run (blocks pm ! j) s count))"
proof -
  have "\<exists>j < unat (block_count pm). \<exists>s. free_run (blocks pm ! j) s (unat count) \<and>
      frames_allocate_loop pm count i =
        Some (frame_addr (blocks pm ! j) s, upd_block pm j (take_run (blocks pm ! j) s count))"
    if "i \<le> j" for i
    using that
  proof (induction "j - i" arbitrary: i)
    case 0
    then show ?case using frames_allocate_loop_hit [OF assms(1,2,3,4)] assms(3) by auto
  next
    case (Suc d)
    then have i: "i < unat (block_count pm)" using assms(3) by simp
    show ?case
    proof (cases "\<exists>s. free_run (blocks pm ! i) s (unat count)")
      case True
      then show ?thesis using frames_allocate_loop_hit [OF assms(1,2) i] i by auto
    next
      case False
      then show ?thesis using Suc frames_allocate_loop_skip [OF assms(1,2) i] by simp
    qed
  qed
  then show ?thesis using assms(2) by (simp add: frames_allocate_def)
qed

lemma pmm_take_run:
  assumes "pmm_ok pm" and "j < unat (block_count pm)"
    and "free_run (blocks pm ! j) s (unat count)" and "count \<noteq> 0"
  defines "b \<equiv> blocks pm ! j" and "pm' \<equiv> upd_block pm j (take_run (blocks pm ! j) s count)"
  shows "pmm_ok pm'" and "pmm_free pm' = pmm_free pm - frame_addr b ` {s..<s + unat count}"
    and "pmm_managed pm' = pmm_managed pm" and "frame_addr b ` {s..<s + unat count} \<subseteq> pmm_free pm"
proof -
  note ok = pmm_ok_nth [OF assms(1,2)]
  show "pmm_ok pm'" and "pmm_managed pm' = pmm_managed pm"
    using pmm_ok_upd [OF assms(1,2) block_ok_take_run [OF ok assms(3,4)]]
      pmm_managed_upd [OF assms(1,2), of "take_run b s count"] by (simp_all add: pm'_def b_def)
  have sub: "frame_addr b ` {s..<s + unat count} \<subseteq> block_free b"
    using assms(3) by (auto simp: block_free_def free_run_def b_def)
  have "block_free b \<subseteq> pmm_free pm" using assms(2) by (auto simp: pmm_free_def b_def)
  then show "frame_addr b ` {s..<s + unat count} \<subseteq> pmm_free pm"
    and "pmm_free pm' = pmm_free pm - frame_addr b ` {s..<s + unat count}"
    using sub pmm_free_upd [OF assms(1,2), of "take_run b s count"]
      block_free_take_run [OF ok assms(3,4)]
    by (auto simp: pm'_def b_def)
qed

subsection \<open>Which frame an address belongs to\<close>

definition in_block :: "pm_block \<Rightarrow> u64 \<Rightarrow> bool" where
  "in_block b a \<longleftrightarrow>
     unat (address b) \<le> unat a \<and> unat a < unat (address b) + 4096 * unat (frames_total b)"

definition frame_has :: "u64 \<Rightarrow> u64 \<Rightarrow> bool" where
  "frame_has f a \<longleftrightarrow> unat f \<le> unat a \<and> unat a < unat f + 4096"

lemma in_block_unique:
  assumes "pmm_ok pm" and "i < unat (block_count pm)" and "j < unat (block_count pm)"
    and "in_block (blocks pm ! i) a" and "in_block (blocks pm ! j) a"
  shows "i = j"
  using pmm_ok_apart [OF assms(1,2,3)] assms(4,5) by (auto simp: in_block_def blocks_apart_def)

lemma frame_has_in_block:
  assumes "block_ok b" and "f \<in> block_frames b" and "frame_has f a"
  shows "in_block b a"
  using block_frames_bounds [OF assms(1,2)] assms(3) by (simp add: in_block_def frame_has_def)

lemma in_block_frame:
  assumes "block_ok b" and "in_block b a"
  defines "k \<equiv> unat ((a - address b) div frame_size)"
  shows "k < unat (frames_total b)" and "frame_has (frame_addr b k) a"
proof -
  have k: "k = (unat a - unat (address b)) div 4096"
    using assms(2) by (simp add: k_def unat_div unat_sub_le in_block_def)
  have "unat a - unat (address b) < unat (frames_total b) * 4096"
    using assms(2) by (auto simp: in_block_def)
  then show lt: "k < unat (frames_total b)" using k by (simp add: less_mult_imp_div_less)
  have "unat (address b) \<le> unat a" using assms(2) by (simp add: in_block_def)
  then show "frame_has (frame_addr b k) a"
    using k unat_frame_addr [OF assms(1), of k] lt unfolding frame_has_def by linarith
qed

lemma frame_has_unique:
  assumes "block_ok b" and "f \<in> block_frames b" and "g \<in> block_frames b"
    and "frame_has f a" and "frame_has g a"
  shows "f = g"
proof -
  obtain i j where *: "i < unat (frames_total b)" "f = frame_addr b i"
      "j < unat (frames_total b)" "g = frame_addr b j"
    using assms(2,3) by (auto simp: block_frames_def)
  then have "i = j" using assms(4,5) unat_frame_addr [OF assms(1)] by (auto simp: frame_has_def)
  then show ?thesis using * by simp
qed

lemma frames_holding:
  assumes "pmm_ok pm" and "j < unat (block_count pm)" and "in_block (blocks pm ! j) a"
  defines "k \<equiv> unat ((a - address (blocks pm ! j)) div frame_size)"
  shows "{f \<in> pmm_managed pm. frame_has f a} =
    (if map_ptr (blocks pm ! j) = 0 then {} else {frame_addr (blocks pm ! j) k})"
proof -
  let ?b = "blocks pm ! j"
  note ok = pmm_ok_nth [OF assms(1,2)]
  have k: "k < unat (frames_total ?b)" "frame_has (frame_addr ?b k) a"
    using in_block_frame [OF ok assms(3)] by (simp_all add: k_def)
  then have kf: "frame_addr ?b k \<in> block_frames ?b" by (simp add: block_frames_def)
  have only: "f = frame_addr ?b k \<and> map_ptr ?b \<noteq> 0" if f: "f \<in> pmm_managed pm" "frame_has f a" for f
  proof -
    obtain i where i: "i < unat (block_count pm)" "map_ptr (blocks pm ! i) \<noteq> 0"
        "f \<in> block_frames (blocks pm ! i)"
      using f(1) by (auto simp: pmm_managed_def)
    have "i = j"
      using in_block_unique [OF assms(1) i(1) assms(2) _ assms(3)]
        frame_has_in_block [OF pmm_ok_nth [OF assms(1) i(1)] i(3) f(2)] by simp
    then show ?thesis using frame_has_unique [OF ok _ kf f(2) k(2)] i by simp
  qed
  moreover have "map_ptr ?b \<noteq> 0 \<Longrightarrow> frame_addr ?b k \<in> pmm_managed pm"
    using kf assms(2) by (auto simp: pmm_managed_def)
  ultimately show ?thesis using k(2) by (auto split: if_splits)
qed

lemma frame_free_any:
  assumes "pmm_ok pm"
  shows "\<exists>pm'. frame_free pm a = Some pm' \<and> pmm_ok pm' \<and>
    pmm_free pm' = pmm_free pm \<union> {f \<in> pmm_managed pm. frame_has f a}"
proof (cases "\<exists>j < unat (block_count pm). in_block (blocks pm ! j) a")
  case False
  then have "{f \<in> pmm_managed pm. frame_has f a} = {}"
    using frame_has_in_block pmm_ok_nth [OF assms] by (fastforce simp: pmm_managed_def)
  moreover have "frame_free pm a = Some pm"
    using False unfolding frame_free_def in_block_def
    by (intro frame_free_loop_outside [OF assms]) auto
  ultimately show ?thesis using assms by (metis sup_bot_right)
next
  case True
  then obtain j where j: "j < unat (block_count pm)" "in_block (blocks pm ! j) a" by blast
  let ?b = "blocks pm ! j" and ?k = "unat ((a - address (blocks pm ! j)) div frame_size)"
  note ok = pmm_ok_nth [OF assms j(1)]
  have eq: "frame_free pm a = map_option (upd_block pm j) (frame_free_from_block ?b a)"
    using frame_free_loop_found [OF assms j(1), of 0 a] j(2) by (simp add: frame_free_def in_block_def)
  show ?thesis
  proof (cases "map_ptr ?b = 0")
    case null: True
    then have "frame_free pm a = Some pm"
      using eq by (simp add: frame_free_from_block_def upd_block_id)
    then show ?thesis using assms frames_holding [OF assms j] null by auto
  next
    case False
    note k = in_block_frame [OF ok j(2)]
    show ?thesis
      using eq frame_free_from_block_give_frame [OF ok False k(1) refl]
        pmm_give_frame [OF assms j(1) False k(1)] frames_holding [OF assms j] False by simp
  qed
qed

lemma give_take_frame:
  assumes "block_ok b" and "k \<in> free_idx b"
  shows "give_frame (take_frame b k) k = b"
proof -
  from assms have "map_ok b" and k: "k < unat (frames_total b)" and free: "\<not> used_bit b k"
    by (auto simp: block_ok_def free_idx_def split: if_splits)
  then have i: "k div 64 < length (map_words b)"
    using map_ok_index [OF _ block_ok_total [OF assms(1)]] by simp
  have "used_bit (take_frame b k) k" using used_bit_mark [OF i] by (simp add: take_frame_def)
  moreover have "(w OR push_bit n 1) AND NOT (push_bit n 1) = w" if "\<not> bit w n" for w :: u64 and n
    using that by (intro bit_word_eqI) (auto simp: bit_simps)
  then have "map_words (unmark (mark b k) k) = map_words b"
    using free i by (simp add: unmark_def mark_def used_bit_def)
  ultimately show ?thesis
    by (cases b) (auto simp: give_frame_def take_frame_def unmark_def mark_def)
qed

section \<open>The allocator meets its interface\<close>

lemma finite_pmm_free [simp]: "finite (pmm_free pm)"
  by (simp add: pmm_free_def block_free_def)

lemma pmm_free_managed: "pmm_free pm \<subseteq> pmm_managed pm"
proof -
  have "block_free b \<noteq> {} \<Longrightarrow> map_ptr b \<noteq> 0" for b
    by (auto simp: block_free_def free_idx_def split: if_splits)
  then show ?thesis using block_free_subset by (fastforce simp: pmm_free_def pmm_managed_def)
qed

lemma pmm_managed_frame:
  assumes "a \<in> pmm_managed pm"
  obtains j k where "j < unat (block_count pm)" and "map_ptr (blocks pm ! j) \<noteq> 0"
    and "k < unat (frames_total (blocks pm ! j))" and "a = frame_addr (blocks pm ! j) k"
  using assms by (auto simp: pmm_managed_def block_frames_def)

lemma pmm_managed_bounds:
  assumes "pmm_ok pm" and "a \<in> pmm_managed pm"
  shows "unat a mod 4096 = 0" and "unat a + 4096 \<le> 2 ^ 52"
proof -
  obtain j where j: "j < unat (block_count pm)" "a \<in> block_frames (blocks pm ! j)"
    using assms(2) by (auto simp: pmm_managed_def)
  show "unat a mod 4096 = 0" and "unat a + 4096 \<le> 2 ^ 52"
    using block_frames_bounds(3) [OF pmm_ok_nth [OF assms(1) j(1)] j(2)]
      block_frames_52 [OF pmm_ok_nth [OF assms(1) j(1)] j(2)] by simp_all
qed

interpretation pm: frame_allocator pmm_ok pmm_free pmm_managed frame_allocate frame_free NO_FRAME
proof
  fix s a
  assume ok: "pmm_ok s"
  show "finite (pmm_free s)" by simp
  show "pmm_free s \<subseteq> pmm_managed s" by (rule pmm_free_managed)
  show "NO_FRAME \<notin> pmm_managed s" using pmm_managed_bounds(2) [OF ok, of NO_FRAME] by auto
  show "\<exists>a s'. frame_allocate s = Some (a, s') \<and> a \<in> pmm_free s \<and> pmm_ok s' \<and>
      pmm_free s' = pmm_free s - {a} \<and> pmm_managed s' = pmm_managed s" if "pmm_free s \<noteq> {}"
    using frame_allocate_take [OF ok that] pmm_take_frame [OF ok] by metis
  show "frame_allocate s = Some (NO_FRAME, s)" if "pmm_free s = {}"
    using frame_allocate_none [OF ok that] .
  show "\<exists>s'. frame_free s a = Some s' \<and> pmm_ok s' \<and> pmm_free s' = insert a (pmm_free s) \<and>
      pmm_managed s' = pmm_managed s" if "a \<in> pmm_managed s"
    using that frame_free_give [OF ok] pmm_give_frame [OF ok] by (elim pmm_managed_frame) auto
qed

section \<open>The layout of memory\<close>

text \<open>What allocation never changes: the blocks, where they lie and what they are for.\<close>

definition geometry :: "pmm \<Rightarrow> u64 \<times> (u64 \<times> u64 \<times> pm_type) list" where
  "geometry pm = (block_count pm, map (\<lambda>b. (address b, frames_total b, btype b)) (blocks pm))"

lemma frame_allocate_geometry:
  assumes "pmm_ok pm" and "frame_allocate pm = Some (a, pm')"
  shows "geometry pm' = geometry pm"
proof (cases "pmm_free pm = {}")
  case True
  then show ?thesis using frame_allocate_none [OF assms(1)] assms(2) by simp
next
  case False
  show ?thesis
  proof (rule frame_allocate_take [OF assms(1) False])
    fix j k
    assume j: "j < unat (block_count pm)" and "frame_allocate pm =
        Some (frame_addr (blocks pm ! j) k, upd_block pm j (take_frame (blocks pm ! j) k))"
    then have pm': "pm' = upd_block pm j (take_frame (blocks pm ! j) k)" using assms(2) by simp
    have "j < length (blocks pm)" using j assms(1) by (simp add: pmm_ok_def)
    moreover have "btype (take_frame b k) = btype b" for b by (simp add: take_frame_def mark_def)
    ultimately show ?thesis
      unfolding pm' by (simp add: geometry_def upd_block_def map_update list_update_same_conv)
  qed
qed

end
