(* ===== verification/Cstring.thy ===== *)
theory Cstring
  imports Echos_Prelude "HOL-Library.Signed_Division"
begin

text \<open>
  The string routines of the C library, \<^verbatim>\<open>lib/string/*.c\<close>, on byte-addressed
  memory. A C \<^verbatim>\<open>int\<close> is an integer in the range of 32-bit two's complement, a
  \<^verbatim>\<open>char\<close> is signed. The searches for a terminating NUL and the loops whose counter
  may wrap around are partial functions: \<^const>\<open>None\<close> is a loop that never ends.
\<close>

section \<open>Memory blocks\<close>

function memset_loop :: "mem \<Rightarrow> u64 \<Rightarrow> u32 \<Rightarrow> u64 \<Rightarrow> nat \<Rightarrow> mem" where
  "memset_loop m p c n counter =
     (if counter < unat n
      then memset_loop (m(p + of_nat counter := ucast c)) p c n (Suc counter)
      else m)"
  by pat_completeness auto
termination
  by (relation "measure (\<lambda>(m, p, c, n, counter). unat n - counter)") auto

text \<open>The result is the returned pointer and the memory.\<close>

definition memset :: "mem \<Rightarrow> u64 \<Rightarrow> u32 \<Rightarrow> u64 \<Rightarrow> u64 \<times> mem" where
  "memset m s c n = (s, memset_loop m s c n 0)"

function memcpy_loop :: "mem \<Rightarrow> u64 \<Rightarrow> u64 \<Rightarrow> u64 \<Rightarrow> nat \<Rightarrow> mem" where
  "memcpy_loop m dest src n counter =
     (if counter < unat n
      then memcpy_loop (m(dest + of_nat counter := m (src + of_nat counter))) dest src n (Suc counter)
      else m)"
  by pat_completeness auto
termination
  by (relation "measure (\<lambda>(m, d, s, n, counter). unat n - counter)") auto

definition memcpy :: "mem \<Rightarrow> u64 \<Rightarrow> u64 \<Rightarrow> u64 \<Rightarrow> u64 \<times> mem" where
  "memcpy m dest src n = (if dest = src then (dest, m) else (dest, memcpy_loop m dest src n 0))"

function memcmp_loop :: "mem \<Rightarrow> u64 \<Rightarrow> u64 \<Rightarrow> u64 \<Rightarrow> nat \<Rightarrow> int" where
  "memcmp_loop m s1 s2 n i =
     (if i < unat n
      then if m (s1 + of_nat i) = m (s2 + of_nat i) then memcmp_loop m s1 s2 n (Suc i)
        else if sint (m (s1 + of_nat i)) < sint (m (s2 + of_nat i)) then - 1
        else 1
      else 0)"
  by pat_completeness auto
termination
  by (relation "measure (\<lambda>(m, s1, s2, n, i). unat n - i)") auto

definition memcmp :: "mem \<Rightarrow> u64 \<Rightarrow> u64 \<Rightarrow> u64 \<Rightarrow> int" where
  "memcmp m str1 str2 n = memcmp_loop m str1 str2 n 0"

section \<open>Strings\<close>

partial_function (option) strlen_loop :: "mem \<Rightarrow> u64 \<Rightarrow> u64 \<Rightarrow> u64 option" where
  "strlen_loop m str len =
     (if m (str + len) \<noteq> 0 then strlen_loop m str (len + 1) else Some len)"

definition strlen :: "mem \<Rightarrow> u64 \<Rightarrow> u64 option" where
  "strlen m str = strlen_loop m str 0"

definition strcpy :: "mem \<Rightarrow> u64 \<Rightarrow> u64 \<Rightarrow> (u64 \<times> mem) option" where
  "strcpy m dest src = do {
     len \<leftarrow> strlen m src;
     Some (memcpy m dest src (len + 1))
   }"

text \<open>The loop of \<^verbatim>\<open>strcmp\<close> is that of \<^verbatim>\<open>memcmp\<close> over the longer length.\<close>

definition strcmp :: "mem \<Rightarrow> u64 \<Rightarrow> u64 \<Rightarrow> int option" where
  "strcmp m s1 s2 = do {
     len1 \<leftarrow> strlen m s1;
     len2 \<leftarrow> strlen m s2;
     let len = (if len2 > len1 then len2 else len1);
     Some (memcmp_loop m s1 s2 len 0)
   }"

text \<open>
  \<^verbatim>\<open>reverse_string\<close> copies the string to a local array \<open>temp\<close>, whose address the
  compiler chooses, and copies it back from the end.
\<close>

partial_function (option) reverse_loop ::
  "mem \<Rightarrow> u64 \<Rightarrow> u64 \<Rightarrow> u64 \<Rightarrow> u64 \<Rightarrow> u64 \<Rightarrow> mem option" where
  "reverse_loop m s temp c1 c2 len =
     (if c1 \<le> len
      then reverse_loop (m(s + c1 := m (temp + c2))) s temp (c1 + 1) (c2 - 1) len
      else Some m)"

definition reverse_string :: "u64 \<Rightarrow> mem \<Rightarrow> u64 \<Rightarrow> mem option" where
  "reverse_string temp m s = do {
     n \<leftarrow> strlen m s;
     let len = n - 1;
     (_, m1) \<leftarrow> strcpy m temp s;
     reverse_loop m1 s temp 0 len len
   }"

text \<open>
  \<^verbatim>\<open>itoa\<close>: for 0 the literal "0" is copied with its NUL; otherwise the digits are written from the lowest to the highest and then reversed. A
  division by zero has no result. Negating the least \<^verbatim>\<open>int\<close> wraps around to itself.
\<close>

partial_function (option) itoa_loop :: "mem \<Rightarrow> u64 \<Rightarrow> int \<Rightarrow> int \<Rightarrow> nat \<Rightarrow> (nat \<times> mem) option" where
  "itoa_loop m str num base pos =
     (if num = 0 then Some (pos, m)
      else if base = 0 then None
      else itoa_loop (m(str + of_nat pos := word_of_int (num smod base + 48))) str
             (num sdiv base) base (Suc pos))"

definition itoa :: "u64 \<Rightarrow> mem \<Rightarrow> int \<Rightarrow> u64 \<Rightarrow> int \<Rightarrow> (u64 \<times> mem) option" where
  "itoa temp m num str base =
     (if num = 0 then Some (str, m(str := 48, str + 1 := 0))
      else do {
        let negative = num < 0 \<and> base = 10;
        let num' = (if negative then signed_take_bit 31 (- num) else num);
        (pos, m1) \<leftarrow> itoa_loop m str num' base 0;
        let (pos', m2) = (if negative then (Suc pos, m1(str + of_nat pos := 45)) else (pos, m1));
        m3 \<leftarrow> reverse_string temp (m2(str + of_nat pos' := 0)) str;
        Some (str, m3)
      })"

declare memset_loop.simps [simp del] memcpy_loop.simps [simp del] memcmp_loop.simps [simp del]

section \<open>Filling and copying\<close>

lemma memset_loop_fill:
  assumes "k \<le> unat n"
  shows "memset_loop m p c n k =
    (\<lambda>x. if k \<le> unat (x - p) \<and> unat (x - p) < unat n then ucast c else m x)"
  using assms
proof (induction m p c n k rule: memset_loop.induct)
  case (1 m p c n k)
  show ?case
  proof (cases "k < unat n")
    case True
    have k: "unat (of_nat k :: u64) = k"
      using less_unat_u64 [OF True] by (rule unat_of_nat_u64)
    have "x = p + of_nat k \<longleftrightarrow> unat (x - p) = k" for x
    proof -
      have "x = p + of_nat k \<longleftrightarrow> x - p = of_nat k" by (auto simp: algebra_simps)
      then show ?thesis using k by (simp add: word_unat_eq_iff)
    qed
    then have upd: "(m(p + of_nat k := ucast c)) x = (if unat (x - p) = k then ucast c else m x)" for x
      by simp
    have "memset_loop m p c n k = memset_loop (m(p + of_nat k := ucast c)) p c n (Suc k)"
      using True by (subst memset_loop.simps) simp
    also have "\<dots> = (\<lambda>x. if Suc k \<le> unat (x - p) \<and> unat (x - p) < unat n then ucast c
        else (m(p + of_nat k := ucast c)) x)"
      using "1.IH" [OF True] True by (simp add: fun_upd_def)
    also have "\<dots> = (\<lambda>x. if k \<le> unat (x - p) \<and> unat (x - p) < unat n then ucast c else m x)"
      unfolding upd using True by (auto simp: fun_eq_iff)
    finally show ?thesis .
  next
    case False
    then show ?thesis by (subst memset_loop.simps) (auto simp: fun_eq_iff)
  qed
qed

lemma memset_fill: "memset m s c n = (s, fill m s (unat n) (ucast c))"
  by (simp add: memset_def memset_loop_fill fill_def)

lemma memset_code [code]: "memset m s c n = (s, fill m s (unat n) (ucast c))"
  by (rule memset_fill)

section \<open>Comparing\<close>

text \<open>The sign of the first difference of two lists of bytes, read as signed characters.\<close>

fun cmp_bytes :: "u8 list \<Rightarrow> u8 list \<Rightarrow> int" where
  "cmp_bytes (x # xs) (y # ys) =
     (if x = y then cmp_bytes xs ys else if sint x < sint y then - 1 else 1)"
| "cmp_bytes xs ys = 0"

definition bytes :: "mem \<Rightarrow> u64 \<Rightarrow> nat \<Rightarrow> u8 list" where
  "bytes m p n = map (\<lambda>i. m (p + of_nat i)) [0..<n]"

lemma length_bytes [simp]: "length (bytes m p n) = n"
  by (simp add: bytes_def)

lemma nth_bytes [simp]: "i < n \<Longrightarrow> bytes m p n ! i = m (p + of_nat i)"
  by (simp add: bytes_def)

lemma memcmp_loop_bytes:
  assumes "i \<le> unat n"
  shows "memcmp_loop m s1 s2 n i = cmp_bytes (drop i (bytes m s1 (unat n))) (drop i (bytes m s2 (unat n)))"
  using assms
proof (induction m s1 s2 n i rule: memcmp_loop.induct)
  case (1 m s1 s2 n i)
  show ?case
  proof (cases "i < unat n")
    case True
    then have "drop i (bytes m s (unat n)) = m (s + of_nat i) # drop (Suc i) (bytes m s (unat n))" for s
      by (simp add: Cons_nth_drop_Suc [symmetric])
    then show ?thesis using "1.IH" [OF True] True by (subst memcmp_loop.simps) simp
  next
    case False
    then show ?thesis by (subst memcmp_loop.simps) simp
  qed
qed

lemma memcmp_bytes: "memcmp m s1 s2 n = cmp_bytes (bytes m s1 (unat n)) (bytes m s2 (unat n))"
  by (simp add: memcmp_def memcmp_loop_bytes)

lemma cmp_bytes_eq_0: "length xs = length ys \<Longrightarrow> cmp_bytes xs ys = 0 \<longleftrightarrow> xs = ys"
  by (induction xs ys rule: cmp_bytes.induct) auto

lemma memcmp_eq_0: "memcmp m s1 s2 n = 0 \<longleftrightarrow> (\<forall>k < unat n. m (s1 + of_nat k) = m (s2 + of_nat k))"
  by (simp add: memcmp_bytes cmp_bytes_eq_0 list_eq_iff_nth_eq)

end
