(* ===== verification/Paging.thy ===== *)
theory Paging
  imports Physical Cstring
begin

text \<open>
  Page tables, \<^verbatim>\<open>kernel/memory/paging.h\<close> and \<^verbatim>\<open>kernel/memory/paging.c\<close>.
  Tables live in the byte-addressed memory and are reached by their physical address; a function
  that changes them takes and returns the frame allocator and the memory. A C
  \<^verbatim>\<open>int\<close> result is 0 or -1. \<open>map_range\<close> is a partial function, since its loop does
  not end when the address wraps around.
\<close>

section \<open>Data\<close>

abbreviation page_size :: u64 where "page_size \<equiv> 4096"
abbreviation large_page_size :: u64 where "large_page_size \<equiv> 0x200000"
definition PHYS_ADDR_MASK :: u64 where "PHYS_ADDR_MASK = 0x000FFFFFFFFFF000"

definition PRESENT_BIT :: u64 where "PRESENT_BIT = 0x1"
definition READ_WRITE_BIT :: u64 where "READ_WRITE_BIT = 0x2"
definition USER_SUPERVISOR_BIT :: u64 where "USER_SUPERVISOR_BIT = 0x4"
definition PAGE_LEVEL_WRITETHROUGH_BIT :: u64 where "PAGE_LEVEL_WRITETHROUGH_BIT = 0x8"
definition PAGE_LEVEL_CACHE_DISABLE_BIT :: u64 where "PAGE_LEVEL_CACHE_DISABLE_BIT = 0x10"
definition ACCESSED_BIT :: u64 where "ACCESSED_BIT = 0x20"
definition DIRTY_BIT :: u64 where "DIRTY_BIT = 0x40"
definition PAGE_SIZE_BIT :: u64 where "PAGE_SIZE_BIT = 0x80"
definition GLOBAL_PAGE_BIT :: u64 where "GLOBAL_PAGE_BIT = 0x100"
definition NX_BIT :: u64 where "NX_BIT = 0x8000000000000000"

text \<open>The address of \<^verbatim>\<open>table[index]\<close>, an array of 64-bit entries.\<close>

definition slot :: "u64 \<Rightarrow> u16 \<Rightarrow> u64" where
  "slot table index = table + 8 * ucast index"

section \<open>Operations\<close>

definition init_pt_entry :: "u64 \<Rightarrow> u64 \<Rightarrow> u64" where
  "init_pt_entry paddr flags = (paddr AND PHYS_ADDR_MASK) OR flags"

definition get_pt :: "u64 \<Rightarrow> u64" where
  "get_pt entry = entry AND PHYS_ADDR_MASK"

definition get_pd :: "u64 \<Rightarrow> u64" where
  "get_pd entry = entry AND PHYS_ADDR_MASK"

definition get_pdp :: "u64 \<Rightarrow> u64" where
  "get_pdp entry = entry AND PHYS_ADDR_MASK"

definition alloc_table :: "pmm \<Rightarrow> mem \<Rightarrow> (u64 \<times> pmm \<times> mem) option" where
  "alloc_table pm m = do {
     (frame, pm') \<leftarrow> frame_allocate pm;
     if frame = 0xFFFFFFFFFFFFFFFF then Some (0, pm', m)
     else do {
       let (table, m') = memset m frame 0 frame_size;
       Some (table, pm', m')
     }
   }"

definition next_table :: "pmm \<Rightarrow> mem \<Rightarrow> u64 \<Rightarrow> u16 \<Rightarrow> u64 \<Rightarrow> (u64 \<times> pmm \<times> mem) option" where
  "next_table pm m table index flags =
     (if load64 m (slot table index) AND PRESENT_BIT = 0
      then do {
        (next_tbl, pm', m') \<leftarrow> alloc_table pm m;
        if next_tbl = 0 then Some (0, pm', m')
        else Some (next_tbl, pm',
          store64 m' (slot table index)
            (next_tbl OR PRESENT_BIT OR READ_WRITE_BIT OR (flags AND USER_SUPERVISOR_BIT)))
      }
      else if load64 m (slot table index) AND PAGE_SIZE_BIT \<noteq> 0 then Some (0, pm, m)
      else do {
        let m' = store64 m (slot table index)
          (load64 m (slot table index) OR (flags AND USER_SUPERVISOR_BIT));
        Some (load64 m' (slot table index) AND PHYS_ADDR_MASK, pm, m')
      })"

definition init_pml4 :: "pmm \<Rightarrow> mem \<Rightarrow> (u64 \<times> pmm \<times> mem) option" where
  "init_pml4 pm m = alloc_table pm m"

text \<open>The control registers of the processor, read by number.\<close>

definition get_cr :: "(nat \<Rightarrow> u64) \<Rightarrow> u64 \<Rightarrow> u64" where
  "get_cr cr index =
     (if index = 0 then cr 0 else if index = 2 then cr 2 else if index = 3 then cr 3
      else if index = 4 then cr 4 else if index = 8 then cr 8
      else 0xFFFFFFFFFFFFFFFF)"

definition set_cr3 :: "(nat \<Rightarrow> u64) \<Rightarrow> u64 \<Rightarrow> (nat \<Rightarrow> u64)" where
  "set_cr3 cr entry = cr(3 := entry)"

definition mmap :: "u64 \<Rightarrow> u64 \<Rightarrow> int \<Rightarrow> int \<Rightarrow> int \<Rightarrow> int \<Rightarrow> u64" where
  "mmap start len prot flags fd offset = 0"

definition index1 :: "u64 \<Rightarrow> u16" where "index1 vaddr = ucast (drop_bit 12 vaddr AND 0x1FF)"
definition index2 :: "u64 \<Rightarrow> u16" where "index2 vaddr = ucast (drop_bit 21 vaddr AND 0x1FF)"
definition index3 :: "u64 \<Rightarrow> u16" where "index3 vaddr = ucast (drop_bit 30 vaddr AND 0x1FF)"
definition index4 :: "u64 \<Rightarrow> u16" where "index4 vaddr = ucast (drop_bit 39 vaddr AND 0x1FF)"

definition map_page ::
  "pmm \<Rightarrow> mem \<Rightarrow> u64 \<Rightarrow> u64 \<Rightarrow> u64 \<Rightarrow> u64 \<Rightarrow> (int \<times> pmm \<times> mem) option" where
  "map_page pm m pml4 vaddr paddr flags = do {
     (pdp, pm, m) \<leftarrow> next_table pm m pml4 (index4 vaddr) flags;
     if pdp = 0 then Some (- 1, pm, m) else do {
     (pd, pm, m) \<leftarrow> next_table pm m pdp (index3 vaddr) flags;
     if pd = 0 then Some (- 1, pm, m) else do {
     let pde = load64 m (slot pd (index2 vaddr));
     if pde AND PRESENT_BIT \<noteq> 0 \<and> pde AND PAGE_SIZE_BIT \<noteq> 0
     then do {
       let mapped = (pde AND PHYS_ADDR_MASK AND NOT (large_page_size - 1)) +
         (vaddr AND (large_page_size - 1));
       Some (if mapped = paddr AND PHYS_ADDR_MASK then 0 else - 1, pm, m)
     }
     else do {
     (pt, pm, m) \<leftarrow> next_table pm m pd (index2 vaddr) flags;
     if pt = 0 then Some (- 1, pm, m)
     else Some (0, pm, store64 m (slot pt (index1 vaddr)) (init_pt_entry paddr (flags OR PRESENT_BIT)))
   }}}}"

definition map_large_page ::
  "pmm \<Rightarrow> mem \<Rightarrow> u64 \<Rightarrow> u64 \<Rightarrow> u64 \<Rightarrow> u64 \<Rightarrow> (int \<times> pmm \<times> mem) option" where
  "map_large_page pm m pml4 vaddr paddr flags = do {
     (pdp, pm, m) \<leftarrow> next_table pm m pml4 (index4 vaddr) flags;
     if pdp = 0 then Some (- 1, pm, m) else do {
     (pd, pm, m) \<leftarrow> next_table pm m pdp (index3 vaddr) flags;
     if pd = 0 then Some (- 1, pm, m) else do {
     let pde = load64 m (slot pd (index2 vaddr));
     if pde AND PRESENT_BIT \<noteq> 0 \<and> pde AND PAGE_SIZE_BIT = 0 then Some (- 1, pm, m)
     else Some (0, pm,
       store64 m (slot pd (index2 vaddr))
         ((paddr AND PHYS_ADDR_MASK) OR flags OR PRESENT_BIT OR PAGE_SIZE_BIT))
   }}}"

text \<open>
  The loop of \<^verbatim>\<open>map_range\<close>. The first two conditions decide whether a 2 MiB page is
  tried; when that attempt fails the same address is mapped with a 4 KiB page, in the state the
  attempt left behind.
\<close>

partial_function (option) map_range_loop ::
  "pmm \<Rightarrow> mem \<Rightarrow> u64 \<Rightarrow> u64 \<Rightarrow> u64 \<Rightarrow> u64 \<Rightarrow> u64 \<Rightarrow> (int \<times> pmm \<times> mem) option" where
  "map_range_loop pm m pml4 vaddr paddr stop flags =
     (if vaddr < stop
      then do {
        (large, pm, m) \<leftarrow>
          (if vaddr AND (large_page_size - 1) = 0 \<and> paddr AND (large_page_size - 1) = 0 \<and>
              stop - vaddr \<ge> large_page_size
           then map_large_page pm m pml4 vaddr paddr flags
           else Some (- 1, pm, m));
        if large = 0
        then map_range_loop pm m pml4 (vaddr + large_page_size) (paddr + large_page_size) stop flags
        else do {
          (r, pm, m) \<leftarrow> map_page pm m pml4 vaddr paddr flags;
          if r \<noteq> 0 then Some (- 1, pm, m)
          else map_range_loop pm m pml4 (vaddr + page_size) (paddr + page_size) stop flags
        }
      }
      else Some (0, pm, m))"

definition map_range ::
  "pmm \<Rightarrow> mem \<Rightarrow> u64 \<Rightarrow> u64 \<Rightarrow> u64 \<Rightarrow> u64 \<Rightarrow> u64 \<Rightarrow> (int \<times> pmm \<times> mem) option" where
  "map_range pm m pml4 vaddr paddr len flags =
     map_range_loop pm m pml4 (vaddr AND NOT (page_size - 1)) (paddr AND NOT (page_size - 1))
       (vaddr + len) flags"

end
