(* ===== verification/Paging_Walk.thy ===== *)
theory Paging_Walk
  imports Paging "HOL-Library.Sublist"
begin

text \<open>
  What page tables mean: the translation the processor makes of them, the well-formedness of a
  tree of tables, and the facts about single stores from which the correctness of
  \<^verbatim>\<open>map_page\<close> and \<^verbatim>\<open>map_large_page\<close> follows. A table is named by the path of
  indices that leads to it from the root; indices are 9-bit words, so every one is in range.
\<close>

section \<open>Bits of entries\<close>

lemma phys_addr_mask: "PHYS_ADDR_MASK = mask 52 AND NOT (mask 12)"
  by (simp add: PHYS_ADDR_MASK_def mask_eq_exp_minus_1)

lemma bit_phys_addr_mask [bit_simps]: "bit PHYS_ADDR_MASK n \<longleftrightarrow> 12 \<le> n \<and> n < 52"
  unfolding phys_addr_mask by (auto simp: bit_simps)

lemma present_iff: "e AND PRESENT_BIT = 0 \<longleftrightarrow> \<not> bit e 0"
  using and_exp_eq_0_iff [of e 0] by (simp add: PRESENT_BIT_def del: and_exp_eq_0_iff)

lemma large_iff: "e AND PAGE_SIZE_BIT = 0 \<longleftrightarrow> \<not> bit e 7"
  using and_exp_eq_0_iff [of e 7] by (simp add: PAGE_SIZE_BIT_def del: and_exp_eq_0_iff)

lemma bit_flag_consts [bit_simps]:
  "bit PRESENT_BIT n \<longleftrightarrow> n = 0" "bit READ_WRITE_BIT n \<longleftrightarrow> n = 1"
  "bit USER_SUPERVISOR_BIT n \<longleftrightarrow> n = 2" "bit PAGE_SIZE_BIT n \<longleftrightarrow> n = 7"
proof -
  have *: "PRESENT_BIT = 2 ^ 0" "READ_WRITE_BIT = 2 ^ 1" "USER_SUPERVISOR_BIT = 2 ^ 2" "PAGE_SIZE_BIT = 2 ^ 7"
    by (simp_all add: PRESENT_BIT_def READ_WRITE_BIT_def USER_SUPERVISOR_BIT_def PAGE_SIZE_BIT_def)
  show "bit PRESENT_BIT n \<longleftrightarrow> n = 0" "bit READ_WRITE_BIT n \<longleftrightarrow> n = 1"
    "bit USER_SUPERVISOR_BIT n \<longleftrightarrow> n = 2" "bit PAGE_SIZE_BIT n \<longleftrightarrow> n = 7"
    unfolding * bit_exp_iff by auto
qed

text \<open>A frame address: on a frame boundary below \<open>2 ^ 52\<close>.\<close>

definition frame_like :: "u64 \<Rightarrow> bool" where
  "frame_like f \<longleftrightarrow> unat f mod 4096 = 0 \<and> unat f < 2 ^ 52"

lemma low_bits_clear:
  assumes "unat (f :: u64) mod 4096 = 0" and "n < 12"
  shows "\<not> bit f n"
proof -
  have "take_bit 12 (unat f) = 0" using assms(1) by (simp add: take_bit_eq_mod)
  then have "\<not> bit (take_bit 12 (unat f)) n" by simp
  then have "\<not> bit (unat f) n" using assms(2) by (simp add: bit_take_bit_iff)
  then show ?thesis by (simp add: bit_unsigned_iff)
qed

lemma high_bits_clear:
  assumes "unat (f :: u64) < 2 ^ k" and "k \<le> n"
  shows "\<not> bit f n"
proof -
  have "take_bit k (unat f) = unat f" using assms(1) by (simp add: take_bit_nat_eq_self)
  then have "\<not> bit (unat f) n" using assms(2) by (metis bit_take_bit_iff not_less)
  then show ?thesis by (simp add: bit_unsigned_iff)
qed

lemma bit_frame_like:
  assumes "frame_like f" and "bit f n"
  shows "12 \<le> n \<and> n < 52"
  using low_bits_clear [of f n] high_bits_clear [of f 52 n] assms
  by (force simp: frame_like_def)

lemma frame_like_masked: "frame_like (e AND PHYS_ADDR_MASK)"
proof -
  let ?f = "e AND PHYS_ADDR_MASK"
  have "take_bit 12 ?f = 0" by (rule bit_word_eqI) (auto simp: bit_simps)
  then have "take_bit 12 (unat ?f) = 0" by (metis unsigned_0 unsigned_take_bit_eq)
  moreover have "take_bit 52 ?f = ?f" by (rule bit_word_eqI) (auto simp: bit_simps)
  then have "take_bit 52 (unat ?f) = unat ?f" by (metis unsigned_take_bit_eq)
  then have "unat ?f < 2 ^ 52" by (simp only: take_bit_nat_eq_self_iff)
  ultimately show ?thesis by (simp add: frame_like_def take_bit_eq_mod)
qed

lemma entry_address:
  assumes "frame_like f" and "\<And>n. 12 \<le> n \<Longrightarrow> n < 52 \<Longrightarrow> \<not> bit x n"
  shows "(f OR x) AND PHYS_ADDR_MASK = f"
  using bit_frame_like [OF assms(1)] assms(2)
  by (intro bit_word_eqI) (auto simp: bit_simps)

section \<open>Tables and the processor's walk\<close>

type_synonym pidx = "9 word"

definition entry :: "mem \<Rightarrow> u64 \<Rightarrow> pidx \<Rightarrow> u64" where
  "entry m t i = load64 m (t + 8 * ucast i)"

text \<open>The four indices of a virtual address, from the root table to the leaf table.\<close>

definition vpath :: "u64 \<Rightarrow> pidx list" where
  "vpath va = [ucast (drop_bit 39 va), ucast (drop_bit 30 va), ucast (drop_bit 21 va), ucast (drop_bit 12 va)]"

text \<open>Where an entry leads when it is present and not a large page.\<close>

definition nav :: "u64 \<Rightarrow> u64 option" where
  "nav e = (if bit e 0 \<and> \<not> bit e 7 then Some (e AND PHYS_ADDR_MASK) else None)"

fun table_at :: "mem \<Rightarrow> u64 \<Rightarrow> pidx list \<Rightarrow> u64 option" where
  "table_at m t [] = Some t"
| "table_at m t (i # p) = (case nav (entry m t i) of None \<Rightarrow> None | Some t' \<Rightarrow> table_at m t' p)"

text \<open>
  The processor's walk from a table: the entry that maps the address, with the number of offset
  bits below it. Bit 7 makes an entry a 1 GiB or 2 MiB page on the middle levels, is reserved in the
  root, and means something else (PAT) in the last level.
\<close>

fun leaf_from :: "mem \<Rightarrow> u64 \<Rightarrow> (pidx \<times> nat) list \<Rightarrow> (nat \<times> u64) option" where
  "leaf_from m t [] = None"
| "leaf_from m t ((i, n) # p) =
     (let e = entry m t i in
      if \<not> bit e 0 then None
      else if n = 12 then Some (n, e)
      else if bit e 7 then (if n = 39 then None else Some (n, e))
      else leaf_from m (e AND PHYS_ADDR_MASK) p)"

definition leaf :: "mem \<Rightarrow> u64 \<Rightarrow> u64 \<Rightarrow> (nat \<times> u64) option" where
  "leaf m root va = leaf_from m root (zip (vpath va) [39, 30, 21, 12])"

definition walk :: "mem \<Rightarrow> u64 \<Rightarrow> u64 \<Rightarrow> u64 option" where
  "walk m root va =
     map_option (\<lambda>(n, e). (e AND PHYS_ADDR_MASK AND NOT (mask n)) OR (va AND mask n)) (leaf m root va)"

lemma table_at_snoc:
  "table_at m t (p @ [i]) = Option.bind (table_at m t p) (\<lambda>t'. nav (entry m t' i))"
  by (induction p arbitrary: t) (auto split: option.splits)

lemma table_at_append:
  "table_at m t (p @ q) = Option.bind (table_at m t p) (\<lambda>t'. table_at m t' q)"
  by (induction p arbitrary: t) (auto split: option.splits)

lemma nav_frame_like: "nav e = Some t \<Longrightarrow> frame_like t"
  by (auto simp: nav_def frame_like_masked split: if_splits)

lemma slot_pidx: "slot t (ucast i) = t + 8 * ucast (i :: pidx)"
proof -
  have "ucast (ucast i :: u16) = (ucast i :: u64)"
    by (rule bit_word_eqI) (auto simp: bit_simps dest: bit_imp_le_length)
  then show ?thesis by (simp add: slot_def)
qed

lemma index_vpath:
  "index4 va = ucast (vpath va ! 0)" "index3 va = ucast (vpath va ! 1)"
  "index2 va = ucast (vpath va ! 2)" "index1 va = ucast (vpath va ! 3)"
proof -
  have m: "(0x1FF :: u64) = mask 9" by (simp add: mask_eq_exp_minus_1)
  have "(ucast (x AND 0x1FF) :: u16) = ucast (ucast x :: pidx)" for x :: u64
    unfolding m by (rule bit_word_eqI) (auto simp: bit_simps)
  then show "index4 va = ucast (vpath va ! 0)" "index3 va = ucast (vpath va ! 1)"
    "index2 va = ucast (vpath va ! 2)" "index1 va = ucast (vpath va ! 3)"
    by (simp_all add: index1_def index2_def index3_def index4_def vpath_def)
qed

section \<open>Slots do not overlap\<close>

lemma frame_top:
  assumes "unat (t :: u64) mod 4096 = 0"
  shows "unat t + 4096 \<le> 2 ^ 64"
proof -
  obtain k where k: "unat t = 4096 * k" using assms by (auto simp: mod_eq_0_iff_dvd elim: dvdE)
  have "4096 * k < 18446744073709551616" using unat_lt_u64 [of t] unfolding k .
  then have "4096 * k + 4096 \<le> 18446744073709551616" by simp
  then show ?thesis by (simp add: k)
qed

lemma pidx_less: "unat (i :: pidx) < 512"
  using unsigned_less [of i, where 'a = nat] by simp

lemma unat_slot:
  assumes "unat (t :: u64) mod 4096 = 0"
  shows "unat (t + 8 * ucast (i :: pidx)) = unat t + 8 * unat i"
proof -
  have i: "unat i < 512" by (rule pidx_less)
  have u: "unat (ucast i :: u64) = unat i"
    by (simp add: unsigned_ucast_eq take_bit_nat_eq_self less_trans [OF i])
  then have "unat (8 * ucast i :: u64) = 8 * unat i"
    using i by (subst unat_mult_nowrap) auto
  then show ?thesis using frame_top [OF assms] i by (subst unat_add_nowrap) auto
qed

lemma pidx_bound: "8 * unat (i :: pidx) + 8 \<le> 4096"
  using pidx_less [of i] by simp

lemma frames_differ:
  assumes "a mod 4096 = 0" and "b mod 4096 = 0" and "a \<noteq> (b :: nat)"
  shows "a + 4096 \<le> b \<or> b + 4096 \<le> a"
proof -
  obtain k l where "a = 4096 * k" "b = 4096 * l"
    using assms(1,2) by (auto simp: mod_eq_0_iff_dvd elim!: dvdE)
  then show ?thesis using assms(3) by (cases "k < l") auto
qed

lemma slots_apart:
  assumes "unat t mod 4096 = 0" and "unat t' mod 4096 = 0" and "(t, i) \<noteq> (t', j)"
  shows "apart (t + 8 * ucast (i :: pidx)) 8 (t' + 8 * ucast (j :: pidx)) 8"
proof (rule apartI)
  note b = pidx_bound [of i] pidx_bound [of j] frame_top [OF assms(1)] frame_top [OF assms(2)]
  show "unat (t + 8 * ucast i) + 8 \<le> unat (t' + 8 * ucast j) \<or>
      unat (t' + 8 * ucast j) + 8 \<le> unat (t + 8 * ucast i)"
  proof (cases "t = t'")
    case True
    then have "unat i \<noteq> unat j" using assms(3) by (simp add: word_unat_eq_iff)
    then show ?thesis unfolding unat_slot [OF assms(1)] unat_slot [OF assms(2)] True by auto
  next
    case False
    then have "unat t \<noteq> unat t'" by (simp add: word_unat_eq_iff)
    then have "unat t + 4096 \<le> unat t' \<or> unat t' + 4096 \<le> unat t"
      using frames_differ [OF assms(1,2)] by blast
    then show ?thesis
      unfolding unat_slot [OF assms(1)] unat_slot [OF assms(2)] using b by linarith
  qed
  show "unat (t + 8 * ucast i) + 8 \<le> 2 ^ 64" "unat (t' + 8 * ucast j) + 8 \<le> 2 ^ 64"
    unfolding unat_slot [OF assms(1)] unat_slot [OF assms(2)] using b by linarith+
qed

lemma frame_slot_apart:
  assumes "unat f mod 4096 = 0" and "unat t mod 4096 = 0" and "f \<noteq> t"
  shows "apart f 4096 (t + 8 * ucast (i :: pidx)) 8"
proof (rule apartI)
  note b = pidx_bound [of i] frame_top [OF assms(1)] frame_top [OF assms(2)]
  have "unat f \<noteq> unat t" using assms(3) by (simp add: word_unat_eq_iff)
  then have "unat f + 4096 \<le> unat t \<or> unat t + 4096 \<le> unat f"
    using frames_differ [OF assms(1,2)] by blast
  then show "unat f + 4096 \<le> unat (t + 8 * ucast i) \<or> unat (t + 8 * ucast i) + 8 \<le> unat f"
    unfolding unat_slot [OF assms(2)] using b by linarith
  show "unat f + 4096 \<le> 2 ^ 64" "unat (t + 8 * ucast i) + 8 \<le> 2 ^ 64"
    unfolding unat_slot [OF assms(2)] using b by linarith+
qed

definition set_entry :: "mem \<Rightarrow> u64 \<Rightarrow> pidx \<Rightarrow> u64 \<Rightarrow> mem" where
  "set_entry m t i e = store64 m (t + 8 * ucast i) e"

lemma entry_set_same [mem_facts]: "entry (set_entry m t i e) t i = e"
  by (simp add: entry_def set_entry_def load_store_same)

lemma entry_set_other [mem_facts]:
  assumes "unat t mod 4096 = 0" and "unat t' mod 4096 = 0" and "(t, i) \<noteq> (t', j)"
  shows "entry (set_entry m t i e) t' j = entry m t' j"
  unfolding entry_def set_entry_def by (rule load_store_other [OF slots_apart [OF assms]])

lemma entry_fill_other [mem_facts]:
  assumes "unat f mod 4096 = 0" and "unat t mod 4096 = 0" and "f \<noteq> t"
  shows "entry (fill m f 4096 c) t i = entry m t i"
  unfolding entry_def by (rule load_fill_other [OF frame_slot_apart [OF assms]])

lemma entry_fill_zero [mem_facts]:
  assumes "unat f mod 4096 = 0"
  shows "entry (fill m f 4096 0) f i = 0"
proof -
  have "unat (f + 8 * ucast i - f) + 8 \<le> 4096"
    using unat_slot [OF assms, of i] pidx_bound [of i] by (subst unat_sub_le) simp_all
  then show ?thesis unfolding entry_def by (intro load_fill_zero) simp_all
qed

section \<open>Well-formed trees of tables\<close>

text \<open>
  Every table a path of at most three indices leads to is a frame that is in use and is not
  the frame at address 0, and no table is reached by two paths.
\<close>

definition tables_ok :: "u64 set \<Rightarrow> mem \<Rightarrow> u64 \<Rightarrow> bool" where
  "tables_ok free m root \<longleftrightarrow>
     (\<forall>p t. length p \<le> 3 \<longrightarrow> table_at m root p = Some t \<longrightarrow>
        unat t mod 4096 = 0 \<and> t \<noteq> 0 \<and> t \<notin> free) \<and>
     (\<forall>p q t. length p \<le> 3 \<longrightarrow> length q \<le> 3 \<longrightarrow>
        table_at m root p = Some t \<longrightarrow> table_at m root q = Some t \<longrightarrow> p = q)"

lemma tables_okD:
  assumes "tables_ok free m root" and "table_at m root p = Some t" and "length p \<le> 3"
  shows "unat t mod 4096 = 0" and "t \<noteq> 0" and "t \<notin> free"
  using assms unfolding tables_ok_def by blast+

lemma tables_ok_inj:
  assumes "tables_ok free m root" and "table_at m root p = Some t" and "table_at m root q = Some t"
    and "length p \<le> 3" and "length q \<le> 3"
  shows "p = q"
  using assms unfolding tables_ok_def by blast

lemma tables_ok_mono: "tables_ok free m root \<Longrightarrow> free' \<subseteq> free \<Longrightarrow> tables_ok free' m root"
  unfolding tables_ok_def by blast

text \<open>Tables are where they were when the entries along the path lead where they led.\<close>

lemma table_at_cong:
  assumes "\<And>q j t. prefix (q @ [j]) p \<Longrightarrow> table_at m root q = Some t \<Longrightarrow>
    nav (entry m' t j) = nav (entry m t j)"
  shows "table_at m' root p = table_at m root p"
  using assms
proof (induction p rule: rev_induct)
  case (snoc j q)
  have "table_at m' root q = table_at m root q"
    using snoc.prems by (intro snoc.IH) (meson prefix_order.trans prefixI)
  then show ?case
    using snoc.prems [of q j] by (cases "table_at m root q") (auto simp: table_at_snoc)
qed simp

section \<open>The walk follows the tables\<close>

lemma leaf_from_step:
  "leaf_from m t ((i, n) # p) =
     (let e = entry m t i in
      if n = 12 then (if bit e 0 then Some (n, e) else None)
      else case nav e of Some t' \<Rightarrow> leaf_from m t' p
        | None \<Rightarrow> if bit e 0 \<and> n \<noteq> 39 then Some (n, e) else None)"
  by (auto simp: nav_def Let_def)

lemma leaf_from_cong:
  assumes "\<And>k t'. k < length xs \<Longrightarrow> table_at m t (map fst (take k xs)) = Some t' \<Longrightarrow>
    entry m' t' (fst (xs ! k)) = entry m t' (fst (xs ! k)) \<or>
    snd (xs ! k) \<noteq> 12 \<and> nav (entry m' t' (fst (xs ! k))) = nav (entry m t' (fst (xs ! k))) \<and>
      nav (entry m t' (fst (xs ! k))) \<noteq> None"
  shows "leaf_from m' t xs = leaf_from m t xs"
  using assms
proof (induction xs arbitrary: t)
  case (Cons x xs)
  obtain i n where x: "x = (i, n)" by (cases x)
  have first: "entry m' t i = entry m t i \<or>
      n \<noteq> 12 \<and> nav (entry m' t i) = nav (entry m t i) \<and> nav (entry m t i) \<noteq> None"
    using Cons.prems [of 0 t] x by simp
  have rest: "leaf_from m' t' xs = leaf_from m t' xs" if "nav (entry m t i) = Some t'" for t'
  proof (rule Cons.IH)
    fix k t''
    assume "k < length xs" and "table_at m t' (map fst (take k xs)) = Some t''"
    then show "entry m' t'' (fst (xs ! k)) = entry m t'' (fst (xs ! k)) \<or>
        snd (xs ! k) \<noteq> 12 \<and> nav (entry m' t'' (fst (xs ! k))) = nav (entry m t'' (fst (xs ! k))) \<and>
        nav (entry m t'' (fst (xs ! k))) \<noteq> None"
      using Cons.prems [of "Suc k" t''] that x by simp
  qed
  show ?case
    unfolding x leaf_from_step Let_def using first rest
    by (cases "nav (entry m t i)") auto
qed simp

lemma leaf_from_at:
  assumes "table_at m t (map fst (take k xs)) = Some t'" and "k \<le> length xs"
    and "\<forall>j < k. snd (xs ! j) \<noteq> 12"
  shows "leaf_from m t xs = leaf_from m t' (drop k xs)"
  using assms
proof (induction k arbitrary: t xs)
  case (Suc k)
  then obtain i n ys where xs: "xs = (i, n) # ys" by (cases xs) auto
  have n: "n \<noteq> 12" using Suc.prems(3) xs by auto
  obtain t1 where t1: "nav (entry m t i) = Some t1" "table_at m t1 (map fst (take k ys)) = Some t'"
    using Suc.prems(1) xs by (auto split: option.splits)
  have "leaf_from m t1 ys = leaf_from m t' (drop k ys)"
    using Suc.prems(2,3) xs t1 by (intro Suc.IH) auto
  then show ?case unfolding xs leaf_from_step Let_def using n t1 by simp
qed simp

lemma length_vpath [simp]: "length (vpath va) = 4"
  by (simp add: vpath_def)

abbreviation level_bits :: "nat list" where
  "level_bits \<equiv> [39, 30, 21, 12]"

lemma level_bits_last: "k < 4 \<Longrightarrow> level_bits ! k = 12 \<longleftrightarrow> k = 3"
  by (auto simp: less_Suc_eq numeral_eq_Suc)

lemma zip_levels:
  "length (zip (vpath va) level_bits) = 4"
  "map fst (take k (zip (vpath va) level_bits)) = take k (vpath va)"
  "k < 4 \<Longrightarrow> fst (zip (vpath va) level_bits ! k) = vpath va ! k"
  "k < 4 \<Longrightarrow> snd (zip (vpath va) level_bits ! k) = level_bits ! k"
  by (simp_all add: take_map [symmetric] del: take_map)

lemma leaf_cong:
  assumes "\<And>k t. k < 4 \<Longrightarrow> table_at m root (take k (vpath va)) = Some t \<Longrightarrow>
    entry m' t (vpath va ! k) = entry m t (vpath va ! k) \<or>
    k < 3 \<and> nav (entry m' t (vpath va ! k)) = nav (entry m t (vpath va ! k)) \<and>
      nav (entry m t (vpath va ! k)) \<noteq> None"
  shows "leaf m' root va = leaf m root va"
  unfolding leaf_def
proof (rule leaf_from_cong)
  fix k t
  assume k: "k < length (zip (vpath va) level_bits)"
    and t: "table_at m root (map fst (take k (zip (vpath va) level_bits))) = Some t"
  then show "entry m' t (fst (zip (vpath va) level_bits ! k)) = entry m t (fst (zip (vpath va) level_bits ! k)) \<or>
      snd (zip (vpath va) level_bits ! k) \<noteq> 12 \<and>
      nav (entry m' t (fst (zip (vpath va) level_bits ! k))) = nav (entry m t (fst (zip (vpath va) level_bits ! k))) \<and>
      nav (entry m t (fst (zip (vpath va) level_bits ! k))) \<noteq> None"
    using assms [of k t] by (auto simp only: zip_levels level_bits_last)
qed

lemma leaf_at:
  assumes "table_at m root (take k (vpath va)) = Some t" and "k \<le> 3"
  shows "leaf m root va = leaf_from m t (drop k (zip (vpath va) level_bits))"
  unfolding leaf_def
proof (rule leaf_from_at)
  show "table_at m root (map fst (take k (zip (vpath va) level_bits))) = Some t"
    using assms(1) by (simp only: zip_levels)
  show "k \<le> length (zip (vpath va) level_bits)" using assms(2) by (simp only: zip_levels)
  show "\<forall>j < k. snd (zip (vpath va) level_bits ! j) \<noteq> 12"
    using assms(2) by (auto simp only: zip_levels level_bits_last less_trans)
qed

lemma leaf_absent:
  assumes "table_at m root (take k (vpath va)) = Some t" and "k \<le> 3"
    and "\<not> bit (entry m t (vpath va ! k)) 0"
  shows "leaf m root va = None"
proof -
  have "drop k (zip (vpath va) level_bits) =
      (vpath va ! k, level_bits ! k) # drop (Suc k) (zip (vpath va) level_bits)"
    using assms(2) by (subst Cons_nth_drop_Suc [symmetric]) auto
  then show ?thesis using leaf_at [OF assms(1,2)] assms(3) by simp
qed

lemma vpath_prefix_short:
  assumes "take k (vpath va) = p" and "k < 4" and "length p \<le> 2"
  shows "k \<le> 2"
  using assms by (metis length_take length_vpath min.absorb4 min.commute)

section \<open>Linking tables\<close>

text \<open>
  Writing an entry that leads where the old one led, or an entry of a last-level table, moves no
  table, and changes the walk only for the addresses that go through the slot.
\<close>

lemma set_entry_tables:
  assumes "tables_ok free m root" and "table_at m root p = Some t" and "length p \<le> 3"
    and "length p = 3 \<or> nav e' = nav (entry m t i)"
  defines "m' \<equiv> set_entry m t i e'"
  shows "length q \<le> 3 \<Longrightarrow> table_at m' root q = table_at m root q" and "tables_ok free m' root"
proof -
  have al: "unat t mod 4096 = 0" using tables_okD(1) [OF assms(1,2,3)] .
  show same: "table_at m' root q = table_at m root q" if q: "length q \<le> 3" for q
  proof (rule table_at_cong)
    fix r j u
    assume r: "prefix (r @ [j]) q" "table_at m root r = Some u"
    have len: "length r \<le> 2" using prefix_length_le [OF r(1)] q by simp
    then have al_u: "unat u mod 4096 = 0" using tables_okD(1) [OF assms(1) r(2)] by simp
    show "nav (entry m' u j) = nav (entry m u j)"
    proof (cases "u = t \<and> j = i")
      case True
      then have "length p \<noteq> 3" using tables_ok_inj [OF assms(1) r(2), of p] assms(2,3) len by auto
      then show ?thesis using True assms(4) by (simp add: m'_def entry_set_same)
    next
      case False
      then show ?thesis using entry_set_other [OF al al_u] by (auto simp: m'_def)
    qed
  qed
  then show "tables_ok free m' root" using assms(1) unfolding tables_ok_def by simp
qed

lemma set_entry_leaf:
  assumes "tables_ok free m root" and "table_at m root p = Some t" and "length p \<le> 3"
    and "take (length p) (vpath va) \<noteq> p \<or> vpath va ! length p \<noteq> i"
  shows "leaf (set_entry m t i e') root va = leaf m root va"
proof (rule leaf_cong)
  have al: "unat t mod 4096 = 0" using tables_okD(1) [OF assms(1,2,3)] .
  fix k u
  assume k: "k < 4" "table_at m root (take k (vpath va)) = Some u"
  have al_u: "unat u mod 4096 = 0" using tables_okD(1) [OF assms(1) k(2)] k(1) by simp
  have "take k (vpath va) = p" if "u = t"
    using tables_ok_inj [OF assms(1) k(2), of p] assms(2,3) k(1) that by simp
  moreover from this have "k = length p" if "u = t" using that k(1) by (metis length_take length_vpath min.absorb4 min.commute)
  ultimately have "(t, i) \<noteq> (u, vpath va ! k)" using assms(4) by auto
  then show "entry (set_entry m t i e') u (vpath va ! k) = entry m u (vpath va ! k) \<or>
      k < 3 \<and> nav (entry (set_entry m t i e') u (vpath va ! k)) = nav (entry m u (vpath va ! k)) \<and>
      nav (entry m u (vpath va ! k)) \<noteq> None"
    using entry_set_other [OF al al_u] by simp
qed

text \<open>Rewriting an entry that keeps leading to the same table changes no walk at all.\<close>

lemma relink_leaf:
  assumes "tables_ok free m root" and "table_at m root p = Some t" and "length p \<le> 2"
    and "nav (entry m t i) = Some t2" and "nav e' = Some t2"
  shows "leaf (set_entry m t i e') root va = leaf m root va"
proof (rule leaf_cong)
  have al: "unat t mod 4096 = 0" using tables_okD(1) [OF assms(1,2)] assms(3) by simp
  fix k u
  assume k: "k < 4" "table_at m root (take k (vpath va)) = Some u"
  have al_u: "unat u mod 4096 = 0" using tables_okD(1) [OF assms(1) k(2)] k(1) by simp
  show "entry (set_entry m t i e') u (vpath va ! k) = entry m u (vpath va ! k) \<or>
      k < 3 \<and> nav (entry (set_entry m t i e') u (vpath va ! k)) = nav (entry m u (vpath va ! k)) \<and>
      nav (entry m u (vpath va ! k)) \<noteq> None"
  proof (cases "u = t \<and> vpath va ! k = i")
    case True
    then have "take k (vpath va) = p"
      using tables_ok_inj [OF assms(1) k(2), of p] assms(2,3) k(1) by simp
    then have "k \<le> 2" using vpath_prefix_short k(1) assms(3) by blast
    then show ?thesis using True entry_set_same assms(4,5) by simp
  next
    case False
    then show ?thesis using entry_set_other [OF al al_u] by auto
  qed
qed

text \<open>Linking a zeroed free frame where nothing was linked adds one empty table.\<close>

definition fresh_link ::
  "u64 set \<Rightarrow> mem \<Rightarrow> u64 \<Rightarrow> pidx list \<Rightarrow> u64 \<Rightarrow> pidx \<Rightarrow> u64 \<Rightarrow> u64 \<Rightarrow> bool" where
  "fresh_link free m root p t i f e' \<longleftrightarrow>
     tables_ok free m root \<and> table_at m root p = Some t \<and> length p \<le> 2 \<and>
     \<not> bit (entry m t i) 0 \<and> f \<in> free \<and> frame_like f \<and> f \<noteq> 0 \<and> nav e' = Some f"

definition linked :: "mem \<Rightarrow> u64 \<Rightarrow> pidx \<Rightarrow> u64 \<Rightarrow> u64 \<Rightarrow> mem" where
  "linked m t i f e' = set_entry (fill m f 4096 0) t i e'"

lemma fresh_link_frames:
  assumes "fresh_link free m root p t i f e'"
  shows "unat f mod 4096 = 0" and "unat t mod 4096 = 0" and "t \<noteq> f"
    and "table_at m root q = Some u \<Longrightarrow> length q \<le> 3 \<Longrightarrow> unat u mod 4096 = 0 \<and> u \<noteq> f"
    and "table_at m root q = Some t \<Longrightarrow> length q \<le> 3 \<Longrightarrow> q = p"
proof -
  have ok: "tables_ok free m root" and t: "table_at m root p = Some t" "length p \<le> 3" and f: "f \<in> free"
    using assms by (auto simp: fresh_link_def)
  show "unat f mod 4096 = 0" using assms by (simp add: fresh_link_def frame_like_def)
  show "unat t mod 4096 = 0" and "t \<noteq> f" using tables_okD [OF ok t] f by auto
  show "table_at m root q = Some u \<Longrightarrow> length q \<le> 3 \<Longrightarrow> unat u mod 4096 = 0 \<and> u \<noteq> f"
    using tables_okD [OF ok, of q u] f by auto
  show "table_at m root q = Some t \<Longrightarrow> length q \<le> 3 \<Longrightarrow> q = p"
    using tables_ok_inj [OF ok _ t(1) _ t(2)] .
qed

lemma entry_linked:
  assumes "fresh_link free m root p t i f e'"
  shows "unat u mod 4096 = 0 \<Longrightarrow> u \<noteq> f \<Longrightarrow>
      entry (linked m t i f e') u j = (if u = t \<and> j = i then e' else entry m u j)"
    and "entry (linked m t i f e') f j = 0"
proof -
  note fr = fresh_link_frames [OF assms]
  show "entry (linked m t i f e') u j = (if u = t \<and> j = i then e' else entry m u j)"
    if "unat u mod 4096 = 0" "u \<noteq> f"
    unfolding linked_def using entry_set_same entry_set_other [OF fr(2) that(1)]
      entry_fill_other [OF fr(1) that(1)] that(2) by auto
  show "entry (linked m t i f e') f j = 0"
    unfolding linked_def using entry_set_other [OF fr(2,1)] fr(3) entry_fill_zero [OF fr(1)] by simp
qed

lemma table_at_linked:
  assumes fl: "fresh_link free m root p t i f e'" and "length q \<le> 3"
  shows "table_at (linked m t i f e') root q =
    (if q = p @ [i] then Some f else if prefix (p @ [i]) q then None else table_at m root q)"
proof -
  let ?m = "linked m t i f e'"
  note fr = fresh_link_frames [OF fl] and ent = entry_linked [OF fl]
  have off: "table_at ?m root r = table_at m root r" if "length r \<le> 3" "\<not> prefix (p @ [i]) r" for r
  proof (rule table_at_cong)
    fix r' j u
    assume r': "prefix (r' @ [j]) r" "table_at m root r' = Some u"
    have len: "length r' \<le> 3" using prefix_length_le [OF r'(1)] that(1) by simp
    have "\<not> (u = t \<and> j = i)" using fr(5) [of r'] r' len that(2) by auto
    then show "nav (entry ?m u j) = nav (entry m u j)" using ent(1) fr(4) [OF r'(2) len] by auto
  qed
  have "table_at ?m root p = Some t" using off [of p] fl
    by (auto simp: fresh_link_def dest: prefix_length_le)
  then have new: "table_at ?m root (p @ [i]) = Some f"
    using ent(1) [OF fr(2,3), of i] fl by (simp add: table_at_snoc fresh_link_def)
  have below: "table_at ?m root (p @ [i] @ r) = None" if ne: "r \<noteq> []" for r
  proof -
    obtain j r' where "r = j # r'" using ne by (cases r) auto
    moreover have "table_at ?m root ((p @ [i]) @ r) = table_at ?m f r"
      by (subst table_at_append) (simp add: new)
    ultimately show ?thesis using ent(2) by (simp add: nav_def)
  qed
  show ?thesis
  proof (cases "prefix (p @ [i]) q")
    case True
    then obtain r where "q = p @ [i] @ r" by (auto elim: prefixE)
    then show ?thesis using new below by (cases "r = []") simp_all
  next
    case False
    then show ?thesis using off [OF assms(2)] by auto
  qed
qed

lemma tables_ok_linked:
  assumes fl: "fresh_link free m root p t i f e'"
  shows "tables_ok (free - {f}) (linked m t i f e') root"
  unfolding tables_ok_def
proof (intro conjI allI impI)
  note fr = fresh_link_frames [OF fl] and tab = table_at_linked [OF fl]
  have ok: "tables_ok free m root" and f: "f \<noteq> 0" using fl by (auto simp: fresh_link_def)
  {
    fix q u assume "length q \<le> 3" "table_at (linked m t i f e') root q = Some u"
    then show "unat u mod 4096 = 0" "u \<noteq> 0" "u \<notin> free - {f}"
      using tab [of q] tables_okD [OF ok, of q u] fr(1) f by (auto split: if_splits)
  next
    fix q r u assume "length q \<le> 3" "length r \<le> 3" "table_at (linked m t i f e') root q = Some u"
      "table_at (linked m t i f e') root r = Some u"
    then show "q = r"
      using tab [of q] tab [of r] fr(4) tables_ok_inj [OF ok, of q u r] by (auto split: if_splits)
  }
qed

lemma leaf_linked:
  assumes fl: "fresh_link free m root p t i f e'"
  shows "leaf (linked m t i f e') root va = leaf m root va"
proof (cases "\<exists>k \<le> 2. take k (vpath va) = p \<and> vpath va ! k = i")
  case True
  then obtain k where k: "k \<le> 2" "take k (vpath va) = p" "vpath va ! k = i" by blast
  have "leaf m root va = None"
    using k fl by (intro leaf_absent [of m root k]) (auto simp: fresh_link_def)
  moreover have "take (Suc k) (vpath va) = p @ [i]"
    using k by (simp add: take_Suc_conv_app_nth)
  then have "leaf (linked m t i f e') root va = None"
    using k table_at_linked [OF fl, of "p @ [i]"] entry_linked(2) [OF fl] fl
    by (intro leaf_absent [of "linked m t i f e'" root "Suc k"]) (auto simp: fresh_link_def)
  ultimately show ?thesis by simp
next
  case False
  show ?thesis
  proof (rule leaf_cong)
    fix k u
    assume k: "k < 4" "table_at m root (take k (vpath va)) = Some u"
    have "take k (vpath va) = p" if "u = t"
      using fresh_link_frames(5) [OF fl, of "take k (vpath va)"] k that by simp
    then have "\<not> (u = t \<and> vpath va ! k = i)"
      using False vpath_prefix_short [OF _ k(1), of va p] fl unfolding fresh_link_def by blast
    then show "entry (linked m t i f e') u (vpath va ! k) = entry m u (vpath va ! k) \<or>
        k < 3 \<and> nav (entry (linked m t i f e') u (vpath va ! k)) = nav (entry m u (vpath va ! k)) \<and>
        nav (entry m u (vpath va ! k)) \<noteq> None"
      using entry_linked(1) [OF fl] fresh_link_frames(4) [OF fl k(2)] k(1) by auto
  qed
qed

text \<open>Bit 7 is reserved in the entries of the root table.\<close>

definition root_ok :: "mem \<Rightarrow> u64 \<Rightarrow> bool" where
  "root_ok m root \<longleftrightarrow> (\<forall>i. \<not> bit (entry m root i) 7)"

lemma root_ok_set:
  assumes "tables_ok free m root" and "table_at m root p = Some t" and "length p \<le> 3"
    and "root_ok m root" and "p = [] \<longrightarrow> \<not> bit e' 7"
  shows "root_ok (set_entry m t i e') root"
  unfolding root_ok_def
proof
  fix j
  have al: "unat t mod 4096 = 0" "unat root mod 4096 = 0"
    using tables_okD(1) [OF assms(1,2,3)] tables_okD(1) [OF assms(1), of "[]" root] by auto
  have "p = []" if "t = root"
    using tables_ok_inj [OF assms(1,2), of "[]"] assms(3) that by simp
  then show "\<not> bit (entry (set_entry m t i e') root j) 7"
    using entry_set_other [OF al, of i j m e'] entry_set_same [of m t i e'] assms(4,5)
    by (cases "t = root \<and> i = j") (auto simp: root_ok_def)
qed

lemma root_ok_linked:
  assumes fl: "fresh_link free m root p t i f e'" and "root_ok m root"
  shows "root_ok (linked m t i f e') root"
  unfolding root_ok_def
proof
  fix j
  have "unat root mod 4096 = 0 \<and> root \<noteq> f" using fresh_link_frames(4) [OF fl, of "[]" root] by simp
  moreover have "\<not> bit e' 7" using fl by (auto simp: fresh_link_def nav_def split: if_splits)
  ultimately show "\<not> bit (entry (linked m t i f e') root j) 7"
    using entry_linked(1) [OF fl, of root j] assms(2) by (auto simp: root_ok_def)
qed

section \<open>next_table\<close>

lemma load_slot: "load64 m (slot t (ucast i)) = entry m t i"
  by (simp add: entry_def slot_pidx)

lemma store_slot: "store64 m (slot t (ucast i)) e = set_entry m t i e"
  by (simp add: set_entry_def slot_pidx)

text \<open>
  The invariant of a tree of tables next to a frame allocator. \<open>R\<close> is a set of frames in use
  for something else, which no table may occupy; an operation must leave their contents alone.
\<close>

definition pt_ok :: "u64 set \<Rightarrow> pmm \<Rightarrow> mem \<Rightarrow> u64 \<Rightarrow> bool" where
  "pt_ok R pm m root \<longleftrightarrow> pmm_ok pm \<and> 0 \<notin> pmm_free pm \<and> R \<inter> pmm_free pm = {} \<and>
     (\<forall>f \<in> R. unat f mod 4096 = 0) \<and> tables_ok (pmm_free pm \<union> R) m root \<and> root_ok m root"

definition keeps :: "u64 set \<Rightarrow> mem \<Rightarrow> mem \<Rightarrow> bool" where
  "keeps R m m' \<longleftrightarrow> (\<forall>f \<in> R. \<forall>a. unat f \<le> unat a \<and> unat a < unat f + 4096 \<longrightarrow> m' a = m a)"

lemma keeps_refl [simp]: "keeps R m m"
  by (simp add: keeps_def)

lemma keeps_trans: "keeps R m m1 \<Longrightarrow> keeps R m1 m2 \<Longrightarrow> keeps R m m2"
  by (simp add: keeps_def)

lemma keepsI:
  assumes "unat t mod 4096 = 0" and "t \<notin> R" and "\<forall>f \<in> R. unat f mod 4096 = 0"
    and "\<And>a. m' a \<noteq> m a \<Longrightarrow> unat t \<le> unat a \<and> unat a < unat t + 4096"
  shows "keeps R m m'"
  unfolding keeps_def
proof (intro ballI allI impI)
  fix f a :: u64 assume f: "f \<in> R" and a: "unat f \<le> unat a \<and> unat a < unat f + 4096"
  then have "unat t \<noteq> unat f" using assms(2) by (metis word_unat_eq_iff)
  then have "unat t + 4096 \<le> unat f \<or> unat f + 4096 \<le> unat t"
    by (rule frames_differ [OF assms(1) bspec [OF assms(3) f]])
  then show "m' a = m a" using assms(4) [of a] a by linarith
qed

lemma store_le_outside:
  assumes "unat p + n \<le> 2 ^ 64" and "store_le m p n v a \<noteq> m a"
  shows "unat p \<le> unat a \<and> unat a < unat p + n"
proof -
  have lt: "unat (a - p) < n" using assms(2) by (auto simp: store_le_def split: if_splits)
  have "unat (p + (a - p)) = unat p + unat (a - p)" using lt assms(1) by (intro unat_add_nowrap) simp
  then show ?thesis using lt by simp
qed

lemma set_entry_bytes:
  assumes "unat t mod 4096 = 0" and "set_entry m t i e x \<noteq> m x"
  shows "unat t \<le> unat x \<and> unat x < unat t + 4096"
proof -
  have "unat (t + 8 * ucast i) \<le> unat x \<and> unat x < unat (t + 8 * ucast i) + 8"
    using unat_slot [OF assms(1), of i] pidx_bound [of i] frame_top [OF assms(1)] assms(2)
    unfolding set_entry_def by (intro store_le_outside) auto
  then show ?thesis using unat_slot [OF assms(1), of i] pidx_bound [of i] by simp
qed

lemma fill_bytes:
  assumes "unat t mod 4096 = 0" and "fill m t 4096 c x \<noteq> m x"
  shows "unat t \<le> unat x \<and> unat x < unat t + 4096"
proof -
  have lt: "unat (x - t) < 4096" using assms(2) by (auto simp: fill_def split: if_splits)
  have "unat (t + (x - t)) = unat t + unat (x - t)"
    using lt frame_top [OF assms(1)] by (intro unat_add_nowrap) simp
  then show ?thesis using lt by simp
qed

lemma keeps_set_entry:
  assumes "unat t mod 4096 = 0" and "t \<notin> R" and "\<forall>f \<in> R. unat f mod 4096 = 0"
  shows "keeps R m (set_entry m t i e)"
  by (rule keepsI [OF assms]) (rule set_entry_bytes [OF assms(1)])

lemma keeps_fill:
  assumes "unat t mod 4096 = 0" and "t \<notin> R" and "\<forall>f \<in> R. unat f mod 4096 = 0"
  shows "keeps R m (fill m t 4096 c)"
  by (rule keepsI [OF assms]) (rule fill_bytes [OF assms(1)])

lemma alloc_table_cases:
  assumes "pmm_ok pm" and "0 \<notin> pmm_free pm"
  obtains (none) "pmm_free pm = {}" and "alloc_table pm m = Some (0, pm, m)"
  | (frame) f pm' where "f \<in> pmm_free pm" and "frame_like f" and "f \<noteq> 0"
      and "alloc_table pm m = Some (f, pm', fill m f 4096 0)"
      and "pmm_ok pm'" and "pmm_free pm' = pmm_free pm - {f}" and "pmm_managed pm' = pmm_managed pm"
      and "geometry pm' = geometry pm"
proof (cases "pmm_free pm = {}")
  case True
  then show ?thesis using none pm.alloc_none [OF assms(1)] by (simp add: alloc_table_def)
next
  case False
  then obtain f pm' where f: "frame_allocate pm = Some (f, pm')" "f \<in> pmm_free pm" "pmm_ok pm'"
      "pmm_free pm' = pmm_free pm - {f}" "pmm_managed pm' = pmm_managed pm"
    using pm.alloc_some [OF assms(1)] by blast
  have "f \<in> pmm_managed pm" using f(2) pmm_free_managed by blast
  from pmm_managed_bounds [OF assms(1) this] have "frame_like f" by (simp add: frame_like_def)
  moreover have "f \<noteq> NO_FRAME" using pm.none_unmanaged [OF assms(1)] \<open>f \<in> pmm_managed pm\<close> by auto
  then have "alloc_table pm m = Some (f, pm', fill m f 4096 0)"
    using f(1) by (simp add: alloc_table_def memset_fill)
  moreover have "f \<noteq> 0" using f(2) assms(2) by auto
  moreover have "geometry pm' = geometry pm" using frame_allocate_geometry [OF assms(1) f(1)] .
  ultimately show ?thesis using frame f by blast
qed

text \<open>An operation that does no more to the allocator than taking free frames.\<close>

definition takes :: "pmm \<Rightarrow> pmm \<Rightarrow> bool" where
  "takes pm pm' \<longleftrightarrow> pmm_free pm' \<subseteq> pmm_free pm \<and> pmm_managed pm' = pmm_managed pm \<and>
     geometry pm' = geometry pm"

lemma takes_refl [simp]: "takes pm pm"
  by (simp add: takes_def)

lemma takes_trans [trans]: "takes pm pm1 \<Longrightarrow> takes pm1 pm2 \<Longrightarrow> takes pm pm2"
  by (auto simp: takes_def)

text \<open>
  The paths of the tables below the root. A call that grows the tree \<open>spends\<close> frames when every frame
  that left the free set is a table that was not there before, and the new tables are at paths in \<open>P\<close>.
\<close>

definition tabs :: "mem \<Rightarrow> u64 \<Rightarrow> pidx list set" where
  "tabs m root = {p. p \<noteq> [] \<and> length p \<le> 3 \<and> table_at m root p \<noteq> None}"

definition spends :: "pidx list set \<Rightarrow> u64 \<Rightarrow> pmm \<Rightarrow> mem \<Rightarrow> pmm \<Rightarrow> mem \<Rightarrow> bool" where
  "spends P root pm m pm' m' \<longleftrightarrow> tabs m root \<subseteq> tabs m' root \<and> tabs m' root \<subseteq> tabs m root \<union> P \<and>
     card (pmm_free pm) + card (tabs m root) = card (pmm_free pm') + card (tabs m' root)"

lemma finite_tabs [simp]: "finite (tabs m root)"
proof -
  have "finite {p :: pidx list. set p \<subseteq> UNIV \<and> length p \<le> 3}" by (rule finite_lists_length_le) simp
  then show ?thesis by (rule rev_finite_subset) (auto simp: tabs_def)
qed

lemma spends_refl [simp]: "spends P root pm m pm m"
  by (simp add: spends_def)

lemma spends_trans:
  assumes "spends P root pm m pm1 m1" and "spends Q root pm1 m1 pm2 m2" and "P \<subseteq> S" and "Q \<subseteq> S"
  shows "spends S root pm m pm2 m2"
proof -
  have "tabs m2 root \<subseteq> tabs m root \<union> S" using assms by (simp add: spends_def) blast
  then show ?thesis using assms(1,2) by (simp add: spends_def) blast
qed

lemma spends_mono: "spends P root pm m pm' m' \<Longrightarrow> P \<subseteq> Q \<Longrightarrow> spends Q root pm m pm' m'"
  by (auto simp: spends_def)

lemma spends_tabs:
  assumes "\<And>q. length q \<le> 3 \<Longrightarrow> table_at m' root q = table_at m root q"
  shows "spends P root pm m pm m'"
proof -
  have "tabs m' root = tabs m root" using assms by (auto simp: tabs_def)
  then show ?thesis by (simp add: spends_def)
qed

lemma spends_bound:
  assumes "spends P root pm m pm' m'" and "finite P"
  shows "card (pmm_free pm) \<le> card (pmm_free pm') + card P"
proof -
  have "card (tabs m' root) \<le> card (tabs m root \<union> P)" using assms by (intro card_mono) (auto simp: spends_def)
  also have "\<dots> \<le> card (tabs m root) + card P" by (rule card_Un_le)
  finally show ?thesis using assms(1) by (simp add: spends_def)
qed

lemma spends_table:
  assumes "\<And>q. length q \<le> 3 \<Longrightarrow> table_at m' root q =
      (if q = r then Some f else if prefix r q then None else table_at m root q)"
    and "r \<noteq> []" and "length r \<le> 3" and "table_at m root r = None"
    and "pmm_free pm' = pmm_free pm - {f}" and "f \<in> pmm_free pm" and "finite (pmm_free pm)"
  shows "spends {r} root pm m pm' m'"
proof -
  have below: "table_at m root q = None" if "prefix r q" for q
    using that assms(4) by (auto simp: prefix_def table_at_append)
  have "q \<in> tabs m' root \<longleftrightarrow> q = r \<or> q \<in> tabs m root" for q
    using assms(1) [of q] assms(2,3) below [of q] by (cases "q = r"; cases "prefix r q") (simp_all add: tabs_def cong: conj_cong)
  then have "tabs m' root = insert r (tabs m root)" by blast
  moreover have "r \<notin> tabs m root" using assms(4) by (simp add: tabs_def)
  moreover have "card (pmm_free pm) = Suc (card (pmm_free pm'))"
    unfolding assms(5) by (rule card.remove) (fact assms(7), fact assms(6))
  ultimately show ?thesis by (simp add: spends_def subset_insertI)
qed

text \<open>What the processor can tell about a tree of tables before and after a call.\<close>

definition same_walk :: "mem \<Rightarrow> mem \<Rightarrow> u64 \<Rightarrow> bool" where
  "same_walk m m' root \<longleftrightarrow> (\<forall>va. leaf m' root va = leaf m root va)"

text \<open>
  \<^verbatim>\<open>next_table\<close> on slot \<open>i\<close> of the table at path \<open>p\<close>: it fails without
  changing anything when the slot holds a large page or no frame is left, and otherwise returns
  the table at \<open>p @ [i]\<close>. No translation changes.
\<close>

definition next_table_post ::
  "u64 set \<Rightarrow> pmm \<Rightarrow> mem \<Rightarrow> u64 \<Rightarrow> pidx list \<Rightarrow> u64 \<Rightarrow> pidx \<Rightarrow> u64 \<times> pmm \<times> mem \<Rightarrow> bool" where
  "next_table_post R pm m root p t i res \<longleftrightarrow> (case res of (t', pm', m') \<Rightarrow>
     pt_ok R pm' m' root \<and> keeps R m m' \<and> same_walk m m' root \<and> takes pm pm' \<and>
     spends {p @ [i]} root pm m pm' m' \<and>
     (t' = 0 \<longrightarrow> pm' = pm \<and> m' = m \<and>
        (if bit (entry m t i) 0 then bit (entry m t i) 7 else pmm_free pm = {})) \<and>
     (t' \<noteq> 0 \<longrightarrow> table_at m' root (p @ [i]) = Some t' \<and>
        (bit (entry m t i) 0 \<longrightarrow> pm' = pm \<and> (\<forall>j. entry m' t' j = entry m t' j)) \<and>
        (\<not> bit (entry m t i) 0 \<longrightarrow> (\<forall>j. entry m' t' j = 0))))"

lemma next_table_link:
  assumes "pt_ok R pm m root" and "table_at m root p = Some t" and "length p \<le> 2"
    and "\<not> bit (entry m t i) 0"
  shows "\<exists>res. next_table pm m t (ucast i) flags = Some res \<and> next_table_post R pm m root p t i res"
proof -
  have ok: "pmm_ok pm" "0 \<notin> pmm_free pm" "tables_ok (pmm_free pm \<union> R) m root" "root_ok m root"
      "R \<inter> pmm_free pm = {}" "\<forall>f \<in> R. unat f mod 4096 = 0"
    using assms(1) by (auto simp: pt_ok_def)
  show ?thesis
  proof (rule alloc_table_cases [OF ok(1,2), of m])
    assume "pmm_free pm = {}" "alloc_table pm m = Some (0, pm, m)"
    then show ?thesis using assms
      by (simp add: next_table_def load_slot present_iff next_table_post_def same_walk_def)
  next
    fix f pm'
    assume f: "f \<in> pmm_free pm" "frame_like f" "f \<noteq> 0" "alloc_table pm m = Some (f, pm', fill m f 4096 0)"
      "pmm_ok pm'" "pmm_free pm' = pmm_free pm - {f}" "pmm_managed pm' = pmm_managed pm"
      "geometry pm' = geometry pm"
    define e' where "e' = f OR (PRESENT_BIT OR READ_WRITE_BIT OR (flags AND USER_SUPERVISOR_BIT))"
    have "e' AND PHYS_ADDR_MASK = f"
      unfolding e'_def by (rule entry_address [OF f(2)]) (auto simp: bit_simps)
    moreover have "bit e' 0" "\<not> bit e' 7"
      using bit_frame_like [OF f(2), of 7] by (auto simp: e'_def bit_simps)
    ultimately have "nav e' = Some f" by (simp add: nav_def)
    then have fl: "fresh_link (pmm_free pm \<union> R) m root p t i f e'"
      using assms ok f by (simp add: fresh_link_def)
    have t: "unat t mod 4096 = 0" "t \<notin> R" using tables_okD [OF ok(3) assms(2)] assms(3) by auto
    have "unat f mod 4096 = 0" "f \<notin> R" using f(1,2) ok(5) by (auto simp: frame_like_def)
    then have kp: "keeps R m (linked m t i f e')"
      unfolding linked_def by (rule keeps_trans [OF keeps_fill [OF _ _ ok(6)] keeps_set_entry [OF t ok(6)]])
    have "(pmm_free pm \<union> R) - {f} = (pmm_free pm - {f}) \<union> R" using \<open>f \<notin> R\<close> by blast
    then have to: "tables_ok ((pmm_free pm - {f}) \<union> R) (linked m t i f e') root"
      using tables_ok_linked [OF fl] by simp
    have tk: "takes pm pm'" using f(6,7,8) by (auto simp: takes_def)
    have dj: "R \<inter> (pmm_free pm - {f}) = {}" using ok(5) by auto
    have "table_at m root (p @ [i]) = None" using assms(2,4) by (simp add: table_at_snoc nav_def)
    then have sp: "spends {p @ [i]} root pm m pm' (linked m t i f e')"
      using assms(3) by (intro spends_table [OF table_at_linked [OF fl] _ _ _ f(6,1)]) simp_all
    have "next_table pm m t (ucast i) flags = Some (f, pm', linked m t i f e')"
      using assms(4) f by (simp add: next_table_def load_slot store_slot present_iff e'_def
          linked_def or.assoc)
    moreover have "next_table_post R pm m root p t i (f, pm', linked m t i f e')"
      using f ok to kp dj sp tk leaf_linked [OF fl] table_at_linked [OF fl, of "p @ [i]"]
        entry_linked(2) [OF fl] root_ok_linked [OF fl ok(4)] assms
      by (simp add: next_table_post_def pt_ok_def same_walk_def)
    ultimately show ?thesis by blast
  qed
qed

lemma next_table_follow:
  assumes "pt_ok R pm m root" and "table_at m root p = Some t" and "length p \<le> 2"
    and "bit (entry m t i) 0" and "\<not> bit (entry m t i) 7"
  shows "\<exists>res. next_table pm m t (ucast i) flags = Some res \<and> next_table_post R pm m root p t i res"
proof -
  have ok: "tables_ok (pmm_free pm \<union> R) m root" and r: "root_ok m root"
    and al_R: "\<forall>f \<in> R. unat f mod 4096 = 0"
    using assms(1) by (simp_all add: pt_ok_def)
  define e' where "e' = entry m t i OR (flags AND USER_SUPERVISOR_BIT)"
  let ?t = "entry m t i AND PHYS_ADDR_MASK" and ?m = "set_entry m t i e'"
  have nav: "nav (entry m t i) = Some ?t" using assms(4,5) by (simp add: nav_def)
  have e': "e' AND PHYS_ADDR_MASK = ?t" unfolding e'_def by (rule bit_word_eqI) (auto simp: bit_simps)
  moreover have "bit e' 0" "\<not> bit e' 7" using assms(4,5) by (auto simp: e'_def bit_simps)
  ultimately have nav': "nav e' = Some ?t" and e7: "\<not> bit e' 7" by (simp_all add: nav_def)
  have p3: "length p \<le> 3" using assms(3) by simp
  note re = set_entry_tables [OF ok assms(2) p3, of e' i] relink_leaf [OF ok assms(2,3) nav nav']
  have at: "table_at m root (p @ [i]) = Some ?t" using assms(2) nav by (simp add: table_at_snoc)
  then have nz: "?t \<noteq> 0" "unat ?t mod 4096 = 0" using tables_okD [OF ok at] assms(3) by auto
  have tt: "(t, i) \<noteq> (?t, j)" for j
    using tables_ok_inj [OF ok assms(2), of "p @ [i]"] at assms(3) by auto
  have al: "unat t mod 4096 = 0" and "t \<notin> R" using tables_okD [OF ok assms(2)] assms(3) by auto
  then have kp: "keeps R m ?m" by (rule keeps_set_entry [OF _ _ al_R])
  have sp: "spends {p @ [i]} root pm m pm ?m" using re(1) nav nav' by (intro spends_tabs) simp
  have "next_table pm m t (ucast i) flags = Some (?t, pm, ?m)"
    using assms(4,5) e' by (simp add: next_table_def load_slot store_slot present_iff large_iff
        entry_set_same e'_def)
  moreover have "next_table_post R pm m root p t i (?t, pm, ?m)"
    using assms re kp sp nav nav' at nz root_ok_set [OF ok assms(2) p3 r] e7 entry_set_other [OF al nz(2) tt]
    by (simp add: next_table_post_def pt_ok_def same_walk_def)
  ultimately show ?thesis by blast
qed

lemma next_table_spec:
  assumes "pt_ok R pm m root" and "table_at m root p = Some t" and "length p \<le> 2"
  shows "\<exists>res. next_table pm m t (ucast i) flags = Some res \<and> next_table_post R pm m root p t i res"
proof (cases "bit (entry m t i) 0")
  case True
  show ?thesis
  proof (cases "bit (entry m t i) 7")
    case large: True
    then have "next_table pm m t (ucast i) flags = Some (0, pm, m)"
      using True by (simp add: next_table_def load_slot present_iff large_iff)
    then show ?thesis using assms(1) True large
      by (simp add: next_table_post_def same_walk_def)
  qed (use next_table_follow [OF assms True] in simp)
qed (use next_table_link [OF assms] in simp)

end
