(* ===== verification/Paging_Map.thy ===== *)
theory Paging_Map
  imports Paging_Walk
begin

text \<open>
  Correctness of \<^verbatim>\<open>map_page\<close>, \<^verbatim>\<open>map_large_page\<close> and
  \<^verbatim>\<open>map_range\<close>: what the processor translates after a call, and that every other
  translation is as before.
\<close>

section \<open>Mapping one page\<close>

lemma same_walk_trans: "same_walk m m1 root \<Longrightarrow> same_walk m1 m2 root \<Longrightarrow> same_walk m m2 root"
  by (simp add: same_walk_def)

lemma same_walk_refl [simp]: "same_walk m m root"
  by (simp add: same_walk_def)

lemma next_table_postE:
  assumes "next_table_post R pm m root p t i (t', pm', m')"
  shows "pt_ok R pm' m' root" and "same_walk m m' root" and "takes pm pm'"
    and "spends {p @ [i]} root pm m pm' m'"
    and "t' \<noteq> 0 \<Longrightarrow> table_at m' root (p @ [i]) = Some t'"
    and "t' = 0 \<Longrightarrow> pm' = pm"
    and "t' = 0 \<Longrightarrow> pmm_free pm' \<noteq> {} \<Longrightarrow> bit (entry m t i) 0 \<and> bit (entry m t i) 7"
    and "keeps R m m'" and "t' = 0 \<Longrightarrow> m' = m"
  using assms by (auto simp: next_table_post_def split: if_splits)

text \<open>The tables on the first \<open>n\<close> steps of the walk of an address.\<close>

definition vtables :: "nat \<Rightarrow> u64 \<Rightarrow> pidx list set" where
  "vtables n va = (\<lambda>k. take k (vpath va)) ` {1..n}"

lemma card_vtables: "finite (vtables n va)" "card (vtables n va) \<le> n"
  using card_image_le [of "{1..n}" "\<lambda>k. take k (vpath va)"] by (simp_all add: vtables_def)

lemma vtables_mono: "k \<le> n \<Longrightarrow> vtables k va \<subseteq> vtables n va"
  by (auto simp: vtables_def)

lemma vtables_next: "k < 4 \<Longrightarrow> {take k (vpath va) @ [vpath va ! k]} \<subseteq> vtables (Suc k) va"
  by (auto simp: vtables_def simp flip: take_Suc_conv_app_nth)

lemma spends_vtables:
  "spends (vtables n va) root pm m pm' m' \<Longrightarrow> card (pmm_free pm) \<le> card (pmm_free pm') + n"
  using spends_bound [OF _ card_vtables(1)] card_vtables(2) [of n va] by (meson add_left_mono order_trans)

lemma spends_leaf: "spends (vtables 2 va) root pm m pm' m' \<Longrightarrow> spends (vtables 3 va) root pm m pm' m'"
  by (erule spends_mono) (rule vtables_mono, simp)

text \<open>
  The first two levels, shared by both mapping functions: the tables are found or created and no
  translation changes.
\<close>

definition upper_post :: "u64 set \<Rightarrow> pmm \<Rightarrow> mem \<Rightarrow> u64 \<Rightarrow> u64 \<Rightarrow> pmm \<times> mem \<Rightarrow> bool" where
  "upper_post R pm m root va res \<longleftrightarrow> (case res of (pm', m') \<Rightarrow>
     pt_ok R pm' m' root \<and> keeps R m m' \<and> same_walk m m' root \<and> takes pm pm' \<and>
     spends (vtables 2 va) root pm m pm' m')"

text \<open>The address a large page gives to \<open>va\<close>, as \<^verbatim>\<open>map_page\<close> computes it.\<close>

definition large_addr :: "u64 \<Rightarrow> u64 \<Rightarrow> u64" where
  "large_addr e va = (e AND PHYS_ADDR_MASK AND NOT (large_page_size - 1)) + (va AND (large_page_size - 1))"

text \<open>
  Why mapping \<open>va\<close> to \<open>pa\<close> may fail: no frame is left, or a large page that maps \<open>va\<close>
  elsewhere is in the way.
\<close>

definition no_way :: "pmm \<Rightarrow> mem \<Rightarrow> u64 \<Rightarrow> u64 \<Rightarrow> u64 \<Rightarrow> bool" where
  "no_way pm m root va pa \<longleftrightarrow> pmm_free pm = {} \<or>
     (\<exists>n e. leaf m root va = Some (n, e) \<and> n \<noteq> 12 \<and>
        (n = 21 \<longrightarrow> large_addr e va \<noteq> pa AND PHYS_ADDR_MASK))"

lemma vpath_levels:
  "drop 1 (zip (vpath va) level_bits) = [(vpath va ! 1, 30), (vpath va ! 2, 21), (vpath va ! 3, 12)]"
  "drop 2 (zip (vpath va) level_bits) = [(vpath va ! 2, 21), (vpath va ! 3, 12)]"
  "drop 3 (zip (vpath va) level_bits) = [(vpath va ! 3, 12)]"
  by (simp_all add: vpath_def)

lemma leaf_huge:
  assumes "table_at m root (take 1 (vpath va)) = Some pdp"
    and "bit (entry m pdp (vpath va ! 1)) 0" and "bit (entry m pdp (vpath va ! 1)) 7"
  shows "leaf m root va = Some (30, entry m pdp (vpath va ! 1))"
  using leaf_at [OF assms(1)] assms(2,3) by (simp only: vpath_levels) (simp add: Let_def)

lemma upper_tables:
  fixes pa :: u64
  assumes "pt_ok R pm m root"
  obtains (fail4) pm1 m1 where "next_table pm m root (index4 va) flags = Some (0, pm1, m1)"
      and "upper_post R pm m root va (pm1, m1)" and "no_way pm1 m root va pa"
  | (fail3) pdp pm1 m1 pm2 m2 where "next_table pm m root (index4 va) flags = Some (pdp, pm1, m1)"
      and "pdp \<noteq> 0" and "next_table pm1 m1 pdp (index3 va) flags = Some (0, pm2, m2)"
      and "upper_post R pm m root va (pm2, m2)" and "no_way pm2 m root va pa"
  | (found) pdp pd pm1 m1 pm2 m2 where "next_table pm m root (index4 va) flags = Some (pdp, pm1, m1)"
      and "pdp \<noteq> 0" and "next_table pm1 m1 pdp (index3 va) flags = Some (pd, pm2, m2)"
      and "pd \<noteq> 0" and "upper_post R pm m root va (pm2, m2)"
      and "table_at m2 root (take 2 (vpath va)) = Some pd"
proof -
  let ?i4 = "vpath va ! 0" and ?i3 = "vpath va ! 1"
  have sub: "{[] @ [?i4]} \<subseteq> vtables 2 va" "{[?i4] @ [?i3]} \<subseteq> vtables 2 va"
    using vtables_next [of 0 va] vtables_next [of 1 va] vtables_mono [of 1 2 va]
    by (auto simp: vpath_def numeral_2_eq_2)
  have take2: "take 2 (vpath va) = [?i4] @ [?i3]" by (simp add: vpath_def)
  obtain pdp pm1 m1 where 1: "next_table pm m root (index4 va) flags = Some (pdp, pm1, m1)"
      "next_table_post R pm m root [] root ?i4 (pdp, pm1, m1)"
    using next_table_spec [OF assms, of "[]" root ?i4 flags] by (auto simp: index_vpath)
  note p1 = next_table_postE [OF 1(2)]
  show ?thesis
  proof (cases "pdp = 0")
    case True
    have "\<not> bit (entry m root ?i4) 7" using assms by (simp add: pt_ok_def root_ok_def)
    then show ?thesis using True fail4 [of pm1 m1] 1(1) p1(1-3,7,8) spends_mono [OF p1(4) sub(1)]
      by (auto simp: upper_post_def no_way_def)
  next
    case False
    then have at: "table_at m1 root [?i4] = Some pdp" using p1(5) by simp
    obtain pd pm2 m2 where 2: "next_table pm1 m1 pdp (index3 va) flags = Some (pd, pm2, m2)"
        "next_table_post R pm1 m1 root [?i4] pdp ?i3 (pd, pm2, m2)"
      using next_table_spec [OF p1(1) at, of ?i3 flags] by (auto simp: index_vpath)
    note p2 = next_table_postE [OF 2(2)]
    have up: "upper_post R pm m root va (pm2, m2)"
      using p1(2,3) p2(1-3) same_walk_trans keeps_trans [OF p1(8) p2(8)] spends_trans [OF p1(4) p2(4) sub]
      by (auto simp: upper_post_def intro: takes_trans)
    show ?thesis
    proof (cases "pd = 0")
      case True
      have "table_at m1 root (take 1 (vpath va)) = Some pdp" using at by (simp add: vpath_def)
      from leaf_huge [OF this] have "no_way pm2 m root va pa"
        using p1(2) p2(7) [OF True] by (cases "pmm_free pm2 = {}") (simp_all add: no_way_def same_walk_def)
      then show ?thesis using fail3 1(1) False 2(1) up True by blast
    next
      case nz: False
      then have "table_at m2 root (take 2 (vpath va)) = Some pd" using p2(5) take2 by simp
      then show ?thesis using found 1(1) False 2(1) nz up by blast
    qed
  qed
qed

lemma leaf_large:
  assumes "table_at m root (take 2 (vpath va)) = Some pd"
    and "bit (entry m pd (vpath va ! 2)) 0" and "bit (entry m pd (vpath va ! 2)) 7"
  shows "leaf m root va = Some (21, entry m pd (vpath va ! 2))"
  using leaf_at [OF assms(1)] assms(2,3) by (simp only: vpath_levels) (simp add: Let_def)

lemma leaf_small:
  assumes "table_at m root (take 3 (vpath va)) = Some pt" and "bit (entry m pt (vpath va ! 3)) 0"
  shows "leaf m root va = Some (12, entry m pt (vpath va ! 3))"
  using leaf_at [OF assms(1)] assms(2) by (simp only: vpath_levels) (simp add: Let_def)

text \<open>
  After \<^verbatim>\<open>map_page\<close> returns \<open>r\<close>: a failed call changes no translation; a
  successful one made the page's leaf the entry asked for, or found the page inside a 2 MiB page
  that already maps it to the same frame, and no other page's translation changed.
\<close>

definition map_page_post ::
  "u64 set \<Rightarrow> pmm \<Rightarrow> mem \<Rightarrow> u64 \<Rightarrow> u64 \<Rightarrow> u64 \<Rightarrow> u64 \<Rightarrow> int \<times> pmm \<times> mem \<Rightarrow> bool" where
  "map_page_post R pm m root va pa flags res \<longleftrightarrow> (case res of (r, pm', m') \<Rightarrow>
     pt_ok R pm' m' root \<and> keeps R m m' \<and> takes pm pm' \<and>
     spends (vtables 3 va) root pm m pm' m' \<and>
     (r = - 1 \<and> same_walk m m' root \<and> no_way pm' m root va pa \<and>
        spends (vtables 2 va) root pm m pm' m' \<or>
      r = 0 \<and> same_walk m m' root \<and>
        (\<exists>e. leaf m root va = Some (21, e) \<and> large_addr e va = pa AND PHYS_ADDR_MASK) \<or>
      r = 0 \<and> (\<forall>va'. leaf m' root va' =
        (if vpath va' = vpath va then Some (12, init_pt_entry pa (flags OR PRESENT_BIT))
         else leaf m root va'))))"

lemma vpath_split: "vpath va' = vpath va \<longleftrightarrow> take 3 (vpath va') = take 3 (vpath va) \<and> vpath va' ! 3 = vpath va ! 3"
  by (auto simp: vpath_def)

lemma set_leaf_walk:
  assumes "tables_ok free m root" and "table_at m root (take 3 (vpath va)) = Some pt" and "bit e 0"
  shows "leaf (set_entry m pt (vpath va ! 3) e) root va' =
    (if vpath va' = vpath va then Some (12, e) else leaf m root va')"
proof (cases "vpath va' = vpath va")
  case True
  have "table_at (set_entry m pt (vpath va ! 3) e) root (take 3 (vpath va')) = Some pt"
    using set_entry_tables(1) [OF assms(1,2), of e "vpath va ! 3" "take 3 (vpath va)"] True assms(2)
    by simp
  then show ?thesis
    using leaf_small [of "set_entry m pt (vpath va ! 3) e" root va' pt] True assms(3)
    by (simp add: entry_set_same)
next
  case False
  then show ?thesis
    using set_entry_leaf [OF assms(1,2), of va' "vpath va ! 3" e] by (auto simp: vpath_split)
qed

lemma init_pt_entry_present: "bit (init_pt_entry pa (flags OR PRESENT_BIT)) 0"
  by (simp add: init_pt_entry_def bit_simps)

lemma take3_vpath: "take 3 (vpath va) = take 2 (vpath va) @ [vpath va ! 2]"
  by (simp add: vpath_def)

text \<open>The last level: the leaf table is found or made and its entry is set.\<close>

lemma map_page_leaf:
  assumes up: "upper_post R pm m root va (pm2, m2)" and pd: "table_at m2 root (take 2 (vpath va)) = Some pd"
    and small: "\<not> (bit (entry m2 pd (vpath va ! 2)) 0 \<and> bit (entry m2 pd (vpath va ! 2)) 7)"
  obtains pt pm3 m3 where "next_table pm2 m2 pd (index2 va) flags = Some (pt, pm3, m3)"
    and "map_page_post R pm m root va pa flags
      (if pt = 0 then (- 1, pm3, m3)
       else (0, pm3, set_entry m3 pt (vpath va ! 3) (init_pt_entry pa (flags OR PRESENT_BIT))))"
proof -
  have ok2: "pt_ok R pm2 m2 root" and sw2: "same_walk m m2 root"
    and k2: "keeps R m m2" and fr2: "takes pm pm2" "spends (vtables 2 va) root pm m pm2 m2"
    using up by (auto simp: upper_post_def)
  obtain pt pm3 m3 where 3: "next_table pm2 m2 pd (index2 va) flags = Some (pt, pm3, m3)"
      "next_table_post R pm2 m2 root (take 2 (vpath va)) pd (vpath va ! 2) (pt, pm3, m3)"
    using next_table_spec [OF ok2 pd, of "vpath va ! 2" flags] by (auto simp: index_vpath)
  note p3 = next_table_postE [OF 3(2)]
  have sp3: "spends (vtables 3 va) root pm m pm3 m3"
    using spends_trans [OF fr2(2) p3(4) vtables_mono] vtables_next [of 2 va] by simp
  have sw3: "same_walk m m3 root" using same_walk_trans [OF sw2 p3(2)] .
  have k3: "keeps R m m3" using keeps_trans [OF k2 p3(8)] .
  show ?thesis
  proof (rule that [OF 3(1)], cases "pt = 0")
    case True
    then have "no_way pm3 m root va pa" using p3(7) small by (auto simp: no_way_def)
    then show "map_page_post R pm m root va pa flags (if pt = 0 then (- 1, pm3, m3)
       else (0, pm3, set_entry m3 pt (vpath va ! 3) (init_pt_entry pa (flags OR PRESENT_BIT))))"
      using True p3(1,3,6,9) fr2 sp3 sw3 k3 by (auto simp: map_page_post_def)
  next
    case nz: False
    have at: "table_at m3 root (take 3 (vpath va)) = Some pt" using p3(5) nz by (simp add: take3_vpath)
    have ok3: "tables_ok (pmm_free pm3 \<union> R) m3 root" and al_R: "\<forall>f \<in> R. unat f mod 4096 = 0"
      using p3(1) by (simp_all add: pt_ok_def)
    have "unat pt mod 4096 = 0" "pt \<notin> R" using tables_okD [OF ok3 at] by auto
    note k4 = keeps_trans [OF k3 keeps_set_entry [OF this al_R]]
    have "spends (vtables 3 va) root pm3 m3 pm3 (set_entry m3 pt (vpath va ! 3) e)" for e
      by (rule spends_tabs, rule set_entry_tables(1) [OF ok3 at]) (simp_all add: vpath_def)
    note sp4 = spends_trans [OF sp3 this order_refl order_refl]
    show "map_page_post R pm m root va pa flags (if pt = 0 then (- 1, pm3, m3)
       else (0, pm3, set_entry m3 pt (vpath va ! 3) (init_pt_entry pa (flags OR PRESENT_BIT))))"
      using nz p3(1,3) fr2 sp4 sw3 k4 set_leaf_walk [OF ok3 at init_pt_entry_present]
        set_entry_tables(2) [OF ok3 at] root_ok_set [OF ok3 at]
      by (auto simp: map_page_post_def pt_ok_def same_walk_def vpath_def intro: takes_trans)
  qed
qed

lemma map_page_spec:
  assumes "pt_ok R pm m root"
  shows "\<exists>res. map_page pm m root va pa flags = Some res \<and> map_page_post R pm m root va pa flags res"
proof (rule upper_tables [OF assms, of va flags pa])
  fix pm1 m1
  assume "next_table pm m root (index4 va) flags = Some (0, pm1, m1)" "upper_post R pm m root va (pm1, m1)"
    "no_way pm1 m root va pa"
  then show ?thesis using spends_leaf by (auto simp: map_page_def map_page_post_def upper_post_def)
next
  fix pdp pm1 m1 pm2 m2
  assume "next_table pm m root (index4 va) flags = Some (pdp, pm1, m1)" "pdp \<noteq> 0"
    "next_table pm1 m1 pdp (index3 va) flags = Some (0, pm2, m2)" "upper_post R pm m root va (pm2, m2)"
    "no_way pm2 m root va pa"
  then show ?thesis using spends_leaf by (auto simp: map_page_def map_page_post_def upper_post_def)
next
  fix pdp pd pm1 m1 pm2 m2
  assume nt: "next_table pm m root (index4 va) flags = Some (pdp, pm1, m1)" "pdp \<noteq> 0"
      "next_table pm1 m1 pdp (index3 va) flags = Some (pd, pm2, m2)" "pd \<noteq> 0"
    and up: "upper_post R pm m root va (pm2, m2)"
    and pd: "table_at m2 root (take 2 (vpath va)) = Some pd"
  let ?e = "entry m2 pd (vpath va ! 2)"
  have ok2: "pt_ok R pm2 m2 root" and sw2: "same_walk m m2 root"
    and k2: "keeps R m m2" and fr2: "takes pm pm2" "spends (vtables 2 va) root pm m pm2 m2"
    using up by (auto simp: upper_post_def)
  have slot2: "load64 m2 (slot pd (index2 va)) = ?e" by (simp add: index_vpath load_slot)
  show ?thesis
  proof (cases "bit ?e 0 \<and> bit ?e 7")
    case True
    then have "leaf m root va = Some (21, ?e)"
      using leaf_large [OF pd] sw2 by (simp add: same_walk_def)
    moreover have "map_page pm m root va pa flags =
        Some (if large_addr ?e va = pa AND PHYS_ADDR_MASK then 0 else - 1, pm2, m2)"
      using nt True by (simp add: map_page_def slot2 present_iff large_iff large_addr_def Let_def)
    ultimately show ?thesis using ok2 sw2 k2 fr2 spends_leaf by (auto simp: map_page_post_def no_way_def)
  next
    case False
    from map_page_leaf [OF up pd False, of flags pa] obtain pt pm3 m3 where
      3: "next_table pm2 m2 pd (index2 va) flags = Some (pt, pm3, m3)"
        "map_page_post R pm m root va pa flags (if pt = 0 then (- 1, pm3, m3)
          else (0, pm3, set_entry m3 pt (vpath va ! 3) (init_pt_entry pa (flags OR PRESENT_BIT))))" by blast
    have "map_page pm m root va pa flags = Some (if pt = 0 then (- 1, pm3, m3)
        else (0, pm3, set_entry m3 pt (vpath va ! 3) (init_pt_entry pa (flags OR PRESENT_BIT))))"
      using nt False 3(1)
      by (auto simp: map_page_def slot2 present_iff large_iff Let_def index_vpath(4) store_slot)
    then show ?thesis using 3(2) by blast
  qed
qed

section \<open>Mapping one 2 MiB page\<close>

text \<open>
  \<^verbatim>\<open>map_large_page\<close> either changes no translation, or makes all addresses with the same first
  three indices use the new entry.
\<close>

definition large_entry :: "u64 \<Rightarrow> u64 \<Rightarrow> u64" where
  "large_entry pa flags = (pa AND PHYS_ADDR_MASK) OR flags OR PRESENT_BIT OR PAGE_SIZE_BIT"

definition map_large_page_post ::
  "u64 set \<Rightarrow> pmm \<Rightarrow> mem \<Rightarrow> u64 \<Rightarrow> u64 \<Rightarrow> u64 \<Rightarrow> u64 \<Rightarrow> int \<times> pmm \<times> mem \<Rightarrow> bool" where
  "map_large_page_post R pm m root va pa flags res \<longleftrightarrow> (case res of (r, pm', m') \<Rightarrow>
     pt_ok R pm' m' root \<and> keeps R m m' \<and> takes pm pm' \<and>
     spends (vtables 2 va) root pm m pm' m' \<and>
     (r = - 1 \<and> same_walk m m' root \<or>
      r = 0 \<and> (\<forall>va'. leaf m' root va' =
        (if take 3 (vpath va') = take 3 (vpath va) then Some (21, large_entry pa flags)
         else leaf m root va'))))"

lemma take3_split: "take 3 (vpath va') = take 3 (vpath va) \<longleftrightarrow>
    take 2 (vpath va') = take 2 (vpath va) \<and> vpath va' ! 2 = vpath va ! 2"
  by (auto simp: vpath_def)

lemma set_large_walk:
  assumes "tables_ok free m root" and "table_at m root (take 2 (vpath va)) = Some pd"
    and "nav (entry m pd (vpath va ! 2)) = None" and "bit e 0" and "bit e 7"
  shows "leaf (set_entry m pd (vpath va ! 2) e) root va' =
      (if take 3 (vpath va') = take 3 (vpath va) then Some (21, e) else leaf m root va')"
    and "tables_ok free (set_entry m pd (vpath va ! 2) e) root"
proof -
  have "nav e = nav (entry m pd (vpath va ! 2))" using assms(3,4,5) by (simp add: nav_def)
  then have st: "length q \<le> 3 \<Longrightarrow> table_at (set_entry m pd (vpath va ! 2) e) root q = table_at m root q"
      "tables_ok free (set_entry m pd (vpath va ! 2) e) root" for q
    using set_entry_tables [OF assms(1,2), of e "vpath va ! 2"] by simp_all
  show "tables_ok free (set_entry m pd (vpath va ! 2) e) root" by (rule st(2))
  show "leaf (set_entry m pd (vpath va ! 2) e) root va' =
      (if take 3 (vpath va') = take 3 (vpath va) then Some (21, e) else leaf m root va')"
  proof (cases "take 3 (vpath va') = take 3 (vpath va)")
    case True
    then have "table_at (set_entry m pd (vpath va ! 2) e) root (take 2 (vpath va')) = Some pd"
      using st(1) assms(2) by (simp add: take3_split)
    then show ?thesis
      using leaf_large [of "set_entry m pd (vpath va ! 2) e" root va' pd] True assms(4,5)
      by (simp add: entry_set_same take3_split)
  next
    case False
    then show ?thesis
      using set_entry_leaf [OF assms(1,2), of va' "vpath va ! 2" e] by (auto simp: take3_split)
  qed
qed

lemma map_large_page_spec:
  assumes "pt_ok R pm m root"
  shows "\<exists>res. map_large_page pm m root va pa flags = Some res \<and>
    map_large_page_post R pm m root va pa flags res"
proof (rule upper_tables [OF assms, of va flags pa])
  fix pm1 m1
  assume "next_table pm m root (index4 va) flags = Some (0, pm1, m1)" "upper_post R pm m root va (pm1, m1)"
  then show ?thesis by (auto simp: map_large_page_def map_large_page_post_def upper_post_def)
next
  fix pdp pm1 m1 pm2 m2
  assume "next_table pm m root (index4 va) flags = Some (pdp, pm1, m1)" "pdp \<noteq> 0"
    "next_table pm1 m1 pdp (index3 va) flags = Some (0, pm2, m2)" "upper_post R pm m root va (pm2, m2)"
  then show ?thesis by (auto simp: map_large_page_def map_large_page_post_def upper_post_def)
next
  fix pdp pd pm1 m1 pm2 m2
  assume nt: "next_table pm m root (index4 va) flags = Some (pdp, pm1, m1)" "pdp \<noteq> 0"
      "next_table pm1 m1 pdp (index3 va) flags = Some (pd, pm2, m2)" "pd \<noteq> 0"
    and up: "upper_post R pm m root va (pm2, m2)"
    and pd: "table_at m2 root (take 2 (vpath va)) = Some pd"
  let ?e = "entry m2 pd (vpath va ! 2)" and ?m = "set_entry m2 pd (vpath va ! 2) (large_entry pa flags)"
  have ok2: "pt_ok R pm2 m2 root" and sw2: "same_walk m m2 root"
    and k2: "keeps R m m2" and fr2: "takes pm pm2" "spends (vtables 2 va) root pm m pm2 m2"
    using up by (auto simp: upper_post_def)
  have eq: "map_large_page pm m root va pa flags =
      (if bit ?e 0 \<and> \<not> bit ?e 7 then Some (- 1, pm2, m2) else Some (0, pm2, ?m))"
    using nt by (auto simp: map_large_page_def index_vpath(3) load_slot store_slot present_iff
        large_iff Let_def large_entry_def simp flip: index_vpath(1,2))
  show ?thesis
  proof (cases "bit ?e 0 \<and> \<not> bit ?e 7")
    case True
    then show ?thesis using eq ok2 sw2 k2 fr2 by (auto simp: map_large_page_post_def)
  next
    case False
    then have nv: "nav ?e = None" by (auto simp: nav_def)
    have ok: "tables_ok (pmm_free pm2 \<union> R) m2 root" "root_ok m2 root"
      and al_R: "\<forall>f \<in> R. unat f mod 4096 = 0" using ok2 by (simp_all add: pt_ok_def)
    have "unat pd mod 4096 = 0" "pd \<notin> R" using tables_okD [OF ok(1) pd] by auto
    note k3 = keeps_trans [OF k2 keeps_set_entry [OF this al_R]]
    have b: "bit (large_entry pa flags) 0" "bit (large_entry pa flags) 7"
      by (simp_all add: large_entry_def bit_simps)
    have "take 2 (vpath va) \<noteq> []" by (simp add: vpath_def)
    then have "pt_ok R pm2 ?m root"
      using ok2 set_large_walk(2) [OF ok(1) pd nv b] root_ok_set [OF ok(1) pd _ ok(2)]
      by (simp add: pt_ok_def)
    moreover have "spends (vtables 2 va) root pm2 m2 pm2 ?m"
      by (rule spends_tabs, rule set_entry_tables(1) [OF ok(1) pd]) (use nv b in \<open>simp_all add: nav_def\<close>)
    note spends_trans [OF fr2(2) this order_refl order_refl]
    ultimately show ?thesis
      using eq False fr2(1) sw2 k3 set_large_walk(1) [OF ok(1) pd nv b]
      by (simp add: map_large_page_post_def same_walk_def)
  qed
qed

end
