(* ===== verification/Paging_Range.thy ===== *)
theory Paging_Range
  imports Paging_Map
begin

text \<open>
  Translations of whole address ranges. \<open>voff base va\<close> is the distance from \<open>base\<close> to
  \<open>va\<close> in the 48-bit virtual address space the tables describe; \<open>maps_span\<close> says that a
  call mapped the \<open>len\<close> bytes from \<open>base\<close> on to consecutive physical addresses and left
  every other translation alone. Spans compose, and the loop of \<^verbatim>\<open>map_range\<close> is the
  composition of its pages.
\<close>

section \<open>Distances\<close>

definition voff :: "u64 \<Rightarrow> u64 \<Rightarrow> nat" where
  "voff base va = nat ((uint va - uint base) mod 2 ^ 48)"

lemma voff_less: "voff base va < 2 ^ 48"
  by (simp add: voff_def nat_less_iff)

lemma voff_self [simp]: "voff va va = 0"
  by (simp add: voff_def)

lemma voff_add:
  assumes "a \<le> 2 ^ 48"
  shows "voff (base + of_nat a) va = (if a \<le> voff base va then voff base va - a else voff base va + 2 ^ 48 - a)"
proof -
  have "uint (base + of_nat a :: u64) = (uint base + int a) mod 2 ^ 64"
    by (simp add: uint_word_ariths unsigned_of_nat take_bit_eq_mod zmod_int mod_simps)
  moreover have "(x - y mod 2 ^ 64) mod 2 ^ 48 = (x - y) mod (2 ^ 48 :: int)" for x y
  proof -
    have "y mod 2 ^ 64 mod 2 ^ 48 = y mod (2 ^ 48 :: int)" by (rule mod_mod_cancel) simp
    then show ?thesis by (metis mod_diff_right_eq)
  qed
  ultimately have "(uint va - uint (base + of_nat a :: u64)) mod 2 ^ 48 = (uint va - uint base - int a) mod 2 ^ 48"
    by (simp only: diff_diff_eq)
  also have "\<dots> = (int (voff base va) - int a) mod 2 ^ 48"
    unfolding voff_def by (simp add: mod_diff_left_eq)
  finally have v: "voff (base + of_nat a) va = nat ((int (voff base va) - int a) mod 2 ^ 48)"
    by (simp add: voff_def)
  have lt: "voff base va < 281474976710656" using voff_less [of base va] by simp
  show ?thesis
  proof (cases "a \<le> voff base va")
    case True
    then show ?thesis unfolding v using lt by (subst mod_pos_pos_trivial) auto
  next
    case False
    have "(int (voff base va) - int a) mod 2 ^ 48 = (int (voff base va) - int a + 2 ^ 48) mod 2 ^ 48"
      by simp
    also have "\<dots> = int (voff base va) - int a + 2 ^ 48"
      using False assms lt by (subst mod_pos_pos_trivial) auto
    finally show ?thesis unfolding v using False assms by (simp add: nat_diff_distrib')
  qed
qed

text \<open>Addresses that agree on the bits from \<open>n\<close> to 47 are those within \<open>2 ^ n\<close> bytes.\<close>

definition same_bits :: "nat \<Rightarrow> u64 \<Rightarrow> u64 \<Rightarrow> bool" where
  "same_bits n va va' \<longleftrightarrow> (\<forall>k. n \<le> k \<and> k < 48 \<longrightarrow> bit va k = bit va' k)"

lemma same_bits_div:
  "same_bits n va va' \<longleftrightarrow> uint va mod 2 ^ 48 div 2 ^ n = uint va' mod 2 ^ 48 div 2 ^ n"
proof -
  have conv: "uint x mod 2 ^ 48 div 2 ^ n = drop_bit n (take_bit 48 (uint x))" for x :: u64
    by (simp add: take_bit_eq_mod drop_bit_eq_div)
  have "uint va mod 2 ^ 48 div 2 ^ n = uint va' mod 2 ^ 48 div 2 ^ n \<longleftrightarrow>
      (\<forall>k. bit (drop_bit n (take_bit 48 (uint va))) k = bit (drop_bit n (take_bit 48 (uint va'))) k)"
    unfolding conv
    by (simp add: bit_eq_iff [of "drop_bit n (take_bit 48 (uint va))" "drop_bit n (take_bit 48 (uint va'))"])
  also have "\<dots> \<longleftrightarrow> (\<forall>k. n + k < 48 \<longrightarrow> bit va (n + k) = bit va' (n + k))"
    unfolding bit_drop_bit_eq o_def bit_take_bit_iff bit_uint_iff by (rule iff_allI) auto
  also have "\<dots> \<longleftrightarrow> same_bits n va va'"
    by (auto simp: same_bits_def le_iff_add)
  finally show ?thesis by simp
qed

lemma block_iff:
  fixes x y M B :: int
  assumes "0 < B" and "B dvd M" and "0 \<le> x" and "x < M" and "0 \<le> y" and "y < M" and "B dvd y"
  shows "x div B = y div B \<longleftrightarrow> (x - y) mod M < B"
proof -
  obtain k where k: "y = B * k" using assms(7) by (elim dvdE)
  obtain l where l: "M = B * l" using assms(2) by (elim dvdE)
  have "k < l" using assms(1,6) k l by simp
  then have "B * (k + 1) \<le> B * l" using assms(1) by (intro mult_left_mono) auto
  then have top: "y + B \<le> M" using k l by (simp add: distrib_left)
  have x: "x div B = k \<longleftrightarrow> y \<le> x \<and> x < y + B"
    using assms(1) unfolding k by (metis div_pos_geq div_pos_pos_trivial mult.commute
        add.commute div_mult_self2 int_div_pos_eq less_add_same_cancel2 minus_mult_div_eq_mod
        pos_mod_bound pos_mod_sign diff_ge_0_iff_ge add_less_cancel_left diff_add_cancel le_add_same_cancel1)
  show ?thesis
  proof (cases "y \<le> x")
    case True
    then have "(x - y) mod M = x - y" using assms by (simp add: mod_pos_pos_trivial)
    then show ?thesis using x True assms(1) k by auto
  next
    case False
    have "(x - y) mod M = (x - y + M) mod M" by simp
    also have "\<dots> = x - y + M" using False assms by (intro mod_pos_pos_trivial) auto
    finally show ?thesis using x False assms(1,3) top k by auto
  qed
qed

lemma same_bits_voff:
  assumes "n \<le> 48" and "uint base mod 2 ^ n = 0"
  shows "same_bits n va base \<longleftrightarrow> voff base va < 2 ^ n"
proof -
  let ?x = "uint va mod 2 ^ 48" and ?y = "uint base mod 2 ^ 48"
  have d: "(2 :: int) ^ n dvd 2 ^ 48" using assms(1) by (rule le_imp_power_dvd)
  have "(2 :: int) ^ n dvd ?y" using assms(2) d by (simp add: dvd_mod mod_eq_0_iff_dvd)
  then have "same_bits n va base \<longleftrightarrow> (?x - ?y) mod 2 ^ 48 < 2 ^ n"
    unfolding same_bits_div using d by (intro block_iff) simp_all
  also have "\<dots> \<longleftrightarrow> voff base va < 2 ^ n"
    by (simp add: voff_def mod_diff_eq nat_less_iff)
  finally show ?thesis .
qed

lemma pidx_eq:
  "(ucast (drop_bit b va) :: pidx) = ucast (drop_bit b va') \<longleftrightarrow>
     (\<forall>n < 9. bit va (b + n) = bit (va' :: u64) (b + n))"
  by (auto simp: bit_eq_iff bit_simps)

lemma vpath_same_bits:
  "vpath va' = vpath va \<longleftrightarrow> same_bits 12 va' va"
  "take 3 (vpath va') = take 3 (vpath va) \<longleftrightarrow> same_bits 21 va' va"
proof -
  have split: "(\<forall>n < 9. P (b + n)) \<longleftrightarrow> (\<forall>k. b \<le> k \<and> k < b + 9 \<longrightarrow> P k)" for P and b :: nat
    by (metis add_less_cancel_left le_Suc_ex le_add1)
  have join: "(\<forall>k. b + 9 \<le> k \<and> k < c \<longrightarrow> P k) \<and> (\<forall>k. b \<le> k \<and> k < b + 9 \<longrightarrow> P k) \<longleftrightarrow>
      (\<forall>k. b \<le> k \<and> k < c \<longrightarrow> P k)" if "b + 9 \<le> c" for P and b c :: nat
    using that by (metis add_leD1 less_le_trans not_less)
  let ?P = "\<lambda>k. bit va' k = bit va k"
  have two: "(\<forall>n < 9. ?P (39 + n)) \<and> (\<forall>n < 9. ?P (30 + n)) \<and> (\<forall>n < 9. ?P (21 + n)) \<longleftrightarrow> same_bits 21 va' va"
    unfolding split [of ?P] same_bits_def using join [of 30 48 ?P] join [of 21 48 ?P]
    by (simp flip: conj_assoc)
  show "take 3 (vpath va') = take 3 (vpath va) \<longleftrightarrow> same_bits 21 va' va"
    unfolding vpath_def two [symmetric] by (simp add: pidx_eq)
  have "same_bits 21 va' va \<and> (\<forall>n < 9. ?P (12 + n)) \<longleftrightarrow> same_bits 12 va' va"
    unfolding split [of ?P] same_bits_def using join [of 12 48 ?P] by simp
  moreover have "vpath va' = vpath va \<longleftrightarrow> take 3 (vpath va') = take 3 (vpath va) \<and> (\<forall>n < 9. ?P (12 + n))"
    by (simp add: vpath_def pidx_eq)
  ultimately show "vpath va' = vpath va \<longleftrightarrow> same_bits 12 va' va"
    using \<open>take 3 (vpath va') = take 3 (vpath va) \<longleftrightarrow> same_bits 21 va' va\<close> by simp
qed

section \<open>Spans\<close>

definition maps_span :: "mem \<Rightarrow> mem \<Rightarrow> u64 \<Rightarrow> u64 \<Rightarrow> u64 \<Rightarrow> nat \<Rightarrow> bool" where
  "maps_span m m' root vaddr paddr len \<longleftrightarrow>
     (\<forall>va. if voff vaddr va < len
       then walk m' root va = Some (paddr + of_nat (voff vaddr va)) \<and> (\<exists>n e. leaf m' root va = Some (n, e) \<and> n \<le> 21)
       else leaf m' root va = leaf m root va)"

lemma maps_span_0: "same_walk m m' root \<Longrightarrow> maps_span m m' root vaddr paddr 0"
  by (simp add: maps_span_def same_walk_def)

lemma walk_cong: "leaf m' root va = leaf m root va \<Longrightarrow> walk m' root va = walk m root va"
  by (simp add: walk_def)

lemma maps_span_walk:
  assumes "maps_span m m' root vaddr paddr len"
  shows "walk m' root va =
    (if voff vaddr va < len then Some (paddr + of_nat (voff vaddr va)) else walk m root va)"
  using assms walk_cong [of m' root va m] by (auto simp: maps_span_def split: if_splits)

lemma same_walk_walk: "same_walk m m' root \<Longrightarrow> walk m' root va = walk m root va"
  by (simp add: same_walk_def walk_def)

lemma maps_span_append:
  assumes "maps_span m m1 root vaddr paddr a" and "a + b \<le> 2 ^ 48"
    and "maps_span m1 m2 root (vaddr + of_nat a) (paddr + of_nat a) b"
  shows "maps_span m m2 root vaddr paddr (a + b)"
  unfolding maps_span_def
proof
  fix va
  have off: "voff (vaddr + of_nat a) va =
      (if a \<le> voff vaddr va then voff vaddr va - a else voff vaddr va + 2 ^ 48 - a)"
    using assms(2) by (intro voff_add) simp
  note first = assms(1) [unfolded maps_span_def, rule_format, of va]
    and rest = assms(3) [unfolded maps_span_def, rule_format, of va]
  show "if voff vaddr va < a + b
      then walk m2 root va = Some (paddr + of_nat (voff vaddr va)) \<and> (\<exists>n e. leaf m2 root va = Some (n, e) \<and> n \<le> 21)
      else leaf m2 root va = leaf m root va"
  proof (cases "a \<le> voff vaddr va")
    case True
    then have "voff vaddr va < a + b \<longleftrightarrow> voff (vaddr + of_nat a) va < b" using off by auto
    then show ?thesis using True first rest off by (simp add: of_nat_diff split: if_splits)
  next
    case False
    then have "\<not> voff (vaddr + of_nat a) va < b" using off assms(2) by simp
    then have "leaf m2 root va = leaf m1 root va" using rest by simp
    from this walk_cong [OF this] show ?thesis using first False by auto
  qed
qed

text \<open>A block of \<open>2 ^ n\<close> bytes that one entry maps.\<close>

lemma block_offset:
  assumes "voff base va < 2 ^ n" and "n \<le> 48" and "uint base mod 2 ^ n = 0"
  shows "of_nat (voff base va) = va AND mask n"
proof -
  have d: "(2 :: int) ^ n dvd 2 ^ 48" using assms(2) by (rule le_imp_power_dvd)
  have "int (voff base va) = int (voff base va) mod 2 ^ n" using assms(1) by simp
  also have "\<dots> = (uint va - uint base) mod 2 ^ n"
    using mod_mod_cancel [OF d] by (simp add: voff_def)
  also have "\<dots> = uint va mod 2 ^ n" using assms(3) by (metis diff_zero mod_diff_right_eq)
  also have "\<dots> = uint (take_bit n va)" by (simp only: unsigned_take_bit_eq) (simp only: take_bit_eq_mod)
  finally have "word_of_int (int (voff base va)) = take_bit n va" by simp
  then show ?thesis by (simp add: take_bit_eq_mask)
qed

lemma block_sum:
  assumes "voff base va < 2 ^ n" and "n \<le> 48" and "uint base mod 2 ^ n = 0"
    and "\<And>k. k < n \<Longrightarrow> \<not> bit paddr k"
  shows "paddr OR (va AND mask n) = paddr + of_nat (voff base va)"
proof -
  have "paddr AND (va AND mask n) = 0"
    using assms(4) by (intro bit_word_eqI) (auto simp: bit_simps)
  then show ?thesis unfolding block_offset [OF assms(1,2,3)] by (simp add: disjunctive_add_eq_or)
qed

lemma block_span:
  assumes "\<And>va. leaf m' root va = (if same_bits n va vaddr then Some (n, e) else leaf m root va)"
    and "n \<le> 21" and "uint vaddr mod 2 ^ n = 0" and "e AND PHYS_ADDR_MASK AND NOT (mask n) = paddr"
  shows "maps_span m m' root vaddr paddr (2 ^ n)"
proof -
  have n: "n \<le> 48" using assms(2) by simp
  have low: "\<not> bit paddr k" if "k < n" for k using assms(4) that by (auto simp: bit_simps)
  have "walk m' root va = Some (paddr + of_nat (voff vaddr va))" if "voff vaddr va < 2 ^ n" for va
    using assms(1,4) same_bits_voff [OF n assms(3)] that block_sum [OF that n assms(3) low]
    by (simp add: walk_def)
  then show ?thesis
    using assms(1,2) same_bits_voff [OF n assms(3)] by (simp add: maps_span_def)
qed

section \<open>The mapping functions as spans\<close>

lemma entry_frame:
  assumes "frame_like pa" and "flags AND PHYS_ADDR_MASK = 0"
  shows "init_pt_entry pa (flags OR PRESENT_BIT) AND PHYS_ADDR_MASK = pa"
    and "large_entry pa flags AND PHYS_ADDR_MASK = pa"
    and "pa AND PHYS_ADDR_MASK = pa"
proof -
  have fl: "\<not> bit flags n" if "12 \<le> n" "n < 52" for n
  proof -
    have "\<not> bit (flags AND PHYS_ADDR_MASK) n" using assms(2) by simp
    then show ?thesis using that by (simp add: bit_simps)
  qed
  show pa: "pa AND PHYS_ADDR_MASK = pa" using entry_address [OF assms(1), of 0] by simp
  show "init_pt_entry pa (flags OR PRESENT_BIT) AND PHYS_ADDR_MASK = pa"
    unfolding init_pt_entry_def pa using fl by (intro entry_address [OF assms(1)]) (auto simp: bit_simps)
  show "large_entry pa flags AND PHYS_ADDR_MASK = pa"
    unfolding large_entry_def pa or.assoc using fl by (intro entry_address [OF assms(1)]) (auto simp: bit_simps)
qed

lemma mask_large: "large_page_size - 1 = mask 21"
  by (simp add: mask_eq_exp_minus_1)

lemma uint_low_bits:
  assumes "uint (x :: u64) mod 2 ^ n = 0" and "k < n"
  shows "\<not> bit x k"
proof -
  have "take_bit n (uint x) = 0" using assms(1) by (simp add: take_bit_eq_mod)
  then have "\<not> bit (take_bit n (uint x)) k" by simp
  then show ?thesis using assms(2) by (auto simp: bit_take_bit_iff bit_uint_iff dest: bit_imp_le_length)
qed

lemma clear_low:
  assumes "\<And>k. k < n \<Longrightarrow> \<not> bit (x :: u64) k"
  shows "x AND NOT (mask n) = x"
  using assms by (intro bit_word_eqI) (auto simp: bit_simps dest: bit_imp_le_length)

lemma covered_by_large:
  assumes "leaf m root va = Some (21, e)" and "large_addr e va = pa" and "frame_like pa"
    and "uint va mod 2 ^ 12 = 0" and "same_walk m m' root"
  shows "maps_span m m' root va pa 4096"
proof -
  have "walk m' root va' = Some (pa + of_nat (voff va va')) \<and> leaf m' root va' = Some (21, e)"
    if off: "voff va va' < 2 ^ 12" for va'
  proof -
    have sb: "same_bits 12 va' va" using same_bits_voff [OF _ assms(4)] off by simp
    then have lf: "leaf m' root va' = Some (21, e)"
      using assms(1,5) vpath_same_bits(1) [of va' va] by (simp add: same_walk_def leaf_def)
    then have w: "walk m' root va' = Some ((e AND PHYS_ADDR_MASK AND NOT (mask 21)) OR (va' AND mask 21))"
      by (simp add: walk_def)
    have "pa = (e AND PHYS_ADDR_MASK AND NOT (mask 21)) + (va AND mask 21)"
      using assms(2) unfolding large_addr_def mask_large by simp
    also have "\<dots> = (e AND PHYS_ADDR_MASK AND NOT (mask 21)) OR (va AND mask 21)"
      by (rule disjunctive_add_eq_or, rule bit_word_eqI) (auto simp: bit_simps)
    finally have pa: "pa = (e AND PHYS_ADDR_MASK AND NOT (mask 21)) OR (va AND mask 21)" .
    have "va' AND mask 21 = (va AND mask 21) OR (va' AND mask 12)"
    proof (rule bit_word_eqI)
      fix n
      have "12 \<le> n \<and> n < 21 \<Longrightarrow> bit va' n = bit va n" "n < 12 \<Longrightarrow> \<not> bit va n"
        using sb uint_low_bits [OF assms(4)] by (simp_all add: same_bits_def)
      then show "bit (va' AND mask 21) n = bit ((va AND mask 21) OR (va' AND mask 12)) n"
        by (cases "n < 12") (auto simp: bit_simps)
    qed
    then have "walk m' root va' = Some (pa OR (va' AND mask 12))"
      using w pa by (simp add: or.assoc)
    then show ?thesis
      using lf block_sum [OF off _ assms(4), of pa] bit_frame_like [OF assms(3)] by fastforce
  qed
  then show ?thesis using assms(5) by (simp add: maps_span_def same_walk_def)
qed

lemma map_page_span:
  assumes "map_page_post R pm m root va pa flags (r, pm', m')" and "r = 0"
    and "frame_like pa" and "flags AND PHYS_ADDR_MASK = 0" and "uint va mod 2 ^ 12 = 0"
  shows "maps_span m m' root va pa 4096"
proof -
  note ef = entry_frame [OF assms(3,4)]
  consider (large) e where "same_walk m m' root" "leaf m root va = Some (21, e)" "large_addr e va = pa"
    | (small) "\<And>va'. leaf m' root va' = (if vpath va' = vpath va
        then Some (12, init_pt_entry pa (flags OR PRESENT_BIT)) else leaf m root va')"
    using assms(1,2) ef(3) by (auto simp: map_page_post_def)
  then show ?thesis
  proof cases
    case large
    then show ?thesis using covered_by_large [OF _ _ assms(3,5)] by simp
  next
    case small
    have "pa AND NOT (mask 12) = pa" using bit_frame_like [OF assms(3)] by (intro clear_low) fastforce
    then have "init_pt_entry pa (flags OR PRESENT_BIT) AND PHYS_ADDR_MASK AND NOT (mask 12) = pa"
      using ef(1) by (simp only: and.assoc [symmetric])
    then have "maps_span m m' root va pa (2 ^ 12)"
      using small assms(5) unfolding vpath_same_bits(1) by (intro block_span) simp_all
    then show ?thesis by simp
  qed
qed

lemma map_large_page_span:
  assumes "map_large_page_post R pm m root va pa flags (r, pm', m')" and "r = 0"
    and "frame_like pa" and "flags AND PHYS_ADDR_MASK = 0"
    and "uint va mod 2 ^ 21 = 0" and "uint pa mod 2 ^ 21 = 0"
  shows "maps_span m m' root va pa 0x200000"
proof -
  have "pa AND NOT (mask 21) = pa" using uint_low_bits [OF assms(6)] by (intro clear_low) simp
  then have "maps_span m m' root va pa (2 ^ 21)"
    using assms entry_frame(2) [OF assms(3,4)] vpath_same_bits(2) [of _ va]
    by (intro block_span [of m' root 21 va "large_entry pa flags"]) (auto simp: map_large_page_post_def simp flip: and.assoc)
  then show ?thesis by simp
qed

section \<open>map_range\<close>

definition round_up :: "nat \<Rightarrow> nat" where
  "round_up n = (n + 4095) div 4096 * 4096"

lemma round_up_0 [simp]: "round_up 0 = 0"
  by (simp add: round_up_def)

lemma round_up_add: "round_up (4096 * a + n) = 4096 * a + round_up n"
proof -
  have "(4096 * a + n + 4095) div 4096 = (n + 4095 + a * 4096) div 4096" by (simp add: ac_simps)
  also have "\<dots> = a + (n + 4095) div 4096" by (subst div_mult_self1) simp_all
  finally show ?thesis by (simp add: round_up_def distrib_right)
qed

lemma round_up_small:
  assumes "0 < n" and "n \<le> 4096"
  shows "round_up n = 4096"
proof -
  have "(n + 4095) div 4096 = 1" by (rule div_nat_eqI) (use assms in simp_all)
  then show ?thesis by (simp add: round_up_def)
qed

lemma round_up_step:
  assumes "4096 dvd a" and "0 < n" and "a \<le> n \<or> a = 4096"
  shows "a + round_up (n - a) = round_up n"
proof (cases "a \<le> n")
  case True
  then show ?thesis using assms(1) round_up_add [of "a div 4096" "n - a"] by simp
next
  case False
  then show ?thesis using assms round_up_small [of n] by simp
qed

lemma round_up_ge: "n \<le> round_up n"
proof -
  have "(n + 4095) div 4096 * 4096 = n + 4095 - (n + 4095) mod 4096" by (simp add: minus_mod_eq_div_mult)
  moreover have "(n + 4095) mod 4096 < 4096" by simp
  ultimately show ?thesis unfolding round_up_def by linarith
qed

lemma round_up_le:
  assumes "n \<le> k" and "4096 dvd k"
  shows "round_up n \<le> k"
proof -
  obtain j where k: "k = 4096 * j" using assms(2) by (elim dvdE)
  then have "(n + 4095) div 4096 < Suc j" using assms(1) by (intro less_mult_imp_div_less) simp
  then show ?thesis by (simp add: round_up_def k)
qed

text \<open>The tables the walks of the \<open>len\<close> addresses from \<open>base\<close> on go through.\<close>

definition range_tables :: "u64 \<Rightarrow> nat \<Rightarrow> pidx list set" where
  "range_tables base len = (\<Union>va \<in> {va. voff base va < len}. vtables 3 va)"

lemma range_tables_at: "0 < len \<Longrightarrow> vtables 3 base \<subseteq> range_tables base len"
  unfolding range_tables_def by (rule UN_upper) simp

lemma range_tables_step:
  assumes "n \<le> 2 ^ 48" and "a \<le> n"
  shows "range_tables (base + of_nat a) (n - a) \<subseteq> range_tables base n"
proof -
  have "voff base va < n" if "voff (base + of_nat a) va < n - a" for va
    using that voff_add [of a base va] assms by (auto split: if_splits)
  then show ?thesis by (auto simp: range_tables_def)
qed

text \<open>
  How many tables these are: the indices above level \<open>k\<close> are constant on \<open>2 ^ (48 - 9 * k)\<close> bytes, and \<open>p\<close> consecutive
  pages meet at most so many of the blocks of \<open>2 ^ n\<close> pages.
\<close>

definition level_cost :: "nat \<Rightarrow> nat \<Rightarrow> nat" where
  "level_cost n p = (p + 2 ^ n - 2) div 2 ^ n + 1"

definition frame_cost :: "nat \<Rightarrow> nat" where
  "frame_cost len =
     (if len = 0 then 0
      else let p = round_up len div 4096 in level_cost 27 p + level_cost 18 p + level_cost 9 p)"

lemma frame_cost_bound:
  "frame_cost len \<le> round_up len div 4096 div 2 ^ 9 + round_up len div 4096 div 2 ^ 18 + round_up len div 4096 div 2 ^ 27 + 6"
proof -
  let ?p = "round_up len div 4096"
  have "level_cost n ?p \<le> ?p div 2 ^ n + 2" for n
    using div_le_mono [of "?p + 2 ^ n - 2" "?p + 2 ^ n" "2 ^ n"] div_add_self2 [of "2 ^ n" ?p] by (simp add: level_cost_def)
  from this [of 27] this [of 18] this [of 9] show ?thesis unfolding frame_cost_def Let_def by simp
qed

lemma same_bits_take:
  assumes "same_bits (48 - 9 * k) va' va" and "k \<le> 3"
  shows "take k (vpath va') = take k (vpath va)"
proof -
  consider "k = 0" | "k = 1" | "k = 2" | "k = 3" using assms(2) by linarith
  then show ?thesis using assms(1) by cases (auto simp: vpath_def pidx_eq same_bits_def)
qed

lemma same_bits_quotient:
  fixes va :: u64
  assumes "unat base mod 4096 = 0" and "12 \<le> b" and "b \<le> 48"
  defines "q \<equiv> (unat base div 4096 + voff base va div 4096) div 2 ^ (b - 12)"
  shows "same_bits b va (of_nat (q * 2 ^ b))"
proof -
  have quot: "x mod 2 ^ 48 div 2 ^ b = x div 2 ^ b mod 2 ^ (48 - b)" for x :: nat
    using drop_bit_take_bit [of b 48 x] by (simp add: drop_bit_eq_div take_bit_eq_mod)
  let ?x = "unat base + voff base va"
  have "uint va mod 2 ^ 48 = (uint base + int (voff base va)) mod 2 ^ 48"
    by (simp add: voff_def mod_simps)
  also have "\<dots> = int (?x mod 2 ^ 48)" by (simp add: zmod_int)
  finally have l: "uint va mod 2 ^ 48 div 2 ^ b = int (?x mod 2 ^ 48 div 2 ^ b)" by (simp add: zdiv_int)
  have "uint (of_nat (q * 2 ^ b) :: u64) mod 2 ^ 48 = int (q * 2 ^ b) mod 2 ^ 64 mod 2 ^ 48"
    by (simp only: unsigned_of_nat of_nat_take_bit) (simp add: take_bit_eq_mod)
  also have "\<dots> = int (q * 2 ^ b mod 2 ^ 48)" by (subst mod_mod_cancel) (simp_all add: zmod_int)
  finally have r: "uint (of_nat (q * 2 ^ b) :: u64) mod 2 ^ 48 div 2 ^ b = int (q * 2 ^ b mod 2 ^ 48 div 2 ^ b)"
    by (simp add: zdiv_int)
  have "(4096 :: nat) * 2 ^ (b - 12) = 2 ^ b"
    using assms(2) power_add [of "2 :: nat" 12 "b - 12"] by simp
  then have "?x div 2 ^ b = ?x div 4096 div 2 ^ (b - 12)" by (metis div_mult2_eq)
  moreover have "?x div 4096 = unat base div 4096 + voff base va div 4096"
    using assms(1) by (simp add: div_plus_div_distrib_dvd_left mod_eq_0_iff_dvd)
  ultimately have "?x div 2 ^ b = q" by (simp add: q_def)
  then show ?thesis unfolding same_bits_div l r quot by simp
qed

lemma card_blocks: "0 < p \<Longrightarrow> card {a div 2 ^ n..(a + p - 1) div 2 ^ n} \<le> level_cost n p"
proof -
  assume p: "0 < p"
  let ?K = "2 ^ n :: nat"
  have "a + p - 1 = a mod ?K + (p - 1) + a div ?K * ?K" using p div_mult_mod_eq [of a ?K] by linarith
  then have "(a + p - 1) div ?K = a div ?K + (a mod ?K + (p - 1)) div ?K"
    by (simp only: div_mult_self1 power_not_zero) simp
  moreover have "a mod ?K + (p - 1) \<le> p + ?K - 2" using mod_less_divisor [of ?K a] p by (simp del: mod_less_divisor)
  then have "(a mod ?K + (p - 1)) div ?K \<le> (p + ?K - 2) div ?K" by (rule div_le_mono)
  ultimately show ?thesis by (simp add: level_cost_def)
qed

lemma card_level:
  assumes "unat base mod 4096 = 0" and "0 < len" and "k \<le> 3"
  defines "T \<equiv> (\<lambda>va. take k (vpath va)) ` {va. voff base va < len}"
  shows "finite T" and "card T \<le> level_cost (36 - 9 * k) (round_up len div 4096)"
proof -
  let ?b = "48 - 9 * k" and ?p = "round_up len div 4096" and ?a = "unat base div 4096"
  let ?Q = "{?a div 2 ^ (36 - 9 * k)..(?a + ?p - 1) div 2 ^ (36 - 9 * k)}"
  let ?f = "\<lambda>q. take k (vpath (of_nat (q * 2 ^ ?b)))"
  have b: "12 \<le> ?b" "?b - 12 = 36 - 9 * k" using assms(3) by auto
  have p: "0 < ?p" using assms(2) by (simp add: round_up_def)
  have "take k (vpath va) \<in> ?f ` ?Q" if va: "voff base va < len" for va
  proof -
    have "voff base va div 4096 < ?p"
      using va round_up_ge [of len] by (simp add: round_up_def less_mult_imp_div_less)
    then have "(?a + voff base va div 4096) div 2 ^ (36 - 9 * k) \<in> ?Q"
      by (simp add: div_le_mono)
    moreover have "take k (vpath va) = ?f ((?a + voff base va div 4096) div 2 ^ (36 - 9 * k))"
      using same_bits_take [OF same_bits_quotient [OF assms(1) b(1)] assms(3)] b(2) by simp
    ultimately show ?thesis by blast
  qed
  then have T: "T \<subseteq> ?f ` ?Q" unfolding T_def by blast
  then show "finite T" by (rule finite_subset) simp
  have "card T \<le> card ?Q" by (rule order_trans [OF card_mono [OF _ T] card_image_le]) simp_all
  also have "\<dots> \<le> level_cost (36 - 9 * k) ?p" by (rule card_blocks [OF p])
  finally show "card T \<le> level_cost (36 - 9 * k) ?p" .
qed

lemma card_range_tables:
  assumes "unat base mod 4096 = 0"
  shows "finite (range_tables base len)" and "card (range_tables base len) \<le> frame_cost len"
proof -
  let ?T = "\<lambda>k. (\<lambda>va. take k (vpath va)) ` {va. voff base va < len}"
  have "{1..3 :: nat} = {1, 2, 3}" by auto
  then have U: "range_tables base len = ?T 1 \<union> ?T 2 \<union> ?T 3" by (auto simp: range_tables_def vtables_def)
  show "finite (range_tables base len)"
    unfolding U using card_level(1) [OF assms] by (cases "len = 0") simp_all
  show "card (range_tables base len) \<le> frame_cost len"
  proof (cases "len = 0")
    case False
    have "card (range_tables base len) \<le> card (?T 1) + card (?T 2) + card (?T 3)"
      unfolding U by (rule order_trans [OF card_Un_le]) (simp add: card_Un_le)
    moreover note card_level(2) [OF assms, of len 1] card_level(2) [OF assms, of len 2] card_level(2) [OF assms, of len 3]
    ultimately show ?thesis using False by (simp add: frame_cost_def Let_def)
  qed (simp add: range_tables_def)
qed

text \<open>
  What a call that is to map \<open>len\<close> bytes achieves: all pages of the range, or, when it fails, the
  first \<open>d\<close> bytes, and then no frame is left or a large page was in the way at the next address.
  The frames taken are tables of addresses in the range.
\<close>

definition map_range_post ::
  "u64 set \<Rightarrow> pmm \<Rightarrow> mem \<Rightarrow> u64 \<Rightarrow> u64 \<Rightarrow> u64 \<Rightarrow> nat \<Rightarrow> int \<times> pmm \<times> mem \<Rightarrow> bool" where
  "map_range_post R pm m root vaddr paddr len res \<longleftrightarrow> (case res of (r, pm', m') \<Rightarrow>
     pt_ok R pm' m' root \<and> keeps R m m' \<and> takes pm pm' \<and>
     spends (range_tables vaddr len) root pm m pm' m' \<and>
     (r = 0 \<and> maps_span m m' root vaddr paddr (round_up len) \<or>
      r = - 1 \<and> (\<exists>d < len. 4096 dvd d \<and> maps_span m m' root vaddr paddr d \<and>
        no_way pm' m root (vaddr + of_nat d) (paddr + of_nat d))))"

lemma voff_base_add: "x < 2 ^ 48 \<Longrightarrow> voff v (v + of_nat x) = x"
proof -
  assume x: "x < 2 ^ 48"
  have "voff (v + of_nat x) (v + of_nat x) = 0" by simp
  then show ?thesis
    using voff_add [of x v "v + of_nat x"] voff_less [of v "v + of_nat x"] x by (auto split: if_splits)
qed

lemma map_range_post_step:
  assumes "maps_span m m1 root v p a" and "takes pm pm1"
    and "map_range_post R pm1 m1 root (v + of_nat a) (p + of_nat a) (n - a) res"
    and "4096 dvd a" and "0 < n" and "a \<le> n \<or> a = 4096" and "n \<le> 2 ^ 48" and "keeps R m m1"
    and "spends (vtables 3 v) root pm m pm1 m1"
  shows "map_range_post R pm m root v p n res"
proof -
  obtain r pm' m' where res: "res = (r, pm', m')" by (cases res)
  have bound: "round_up n \<le> 2 ^ 48" using round_up_le [OF assms(7)] by simp
  note post = assms(3) [unfolded map_range_post_def res prod.case]
  then have k: "keeps R m m'" using keeps_trans [OF assms(8)] by blast
  have tk: "takes pm pm'" using post takes_trans [OF assms(2)] by blast
  have "range_tables (v + of_nat a) (n - a) \<subseteq> range_tables v n"
    using range_tables_step [OF assms(7), of a v] by (cases "a \<le> n") (simp_all add: range_tables_def)
  then have cd: "spends (range_tables v n) root pm m pm' m'"
    using post spends_trans [OF assms(9) _ range_tables_at [OF assms(5)]] by blast
  consider (full) "r = 0" "maps_span m1 m' root (v + of_nat a) (p + of_nat a) (round_up (n - a))"
    | (failed) d where "r = - 1" "d < n - a" "4096 dvd d"
        "maps_span m1 m' root (v + of_nat a) (p + of_nat a) d" "no_way pm' m1 root (v + of_nat a + of_nat d) (p + of_nat a + of_nat d)"
    using post by blast
  then show ?thesis
  proof cases
    case full
    then have "maps_span m m' root v p (round_up n)"
      using maps_span_append [OF assms(1)] round_up_step [OF assms(4-6)] bound by metis
    then show ?thesis using full post k tk cd by (auto simp: map_range_post_def res)
  next
    case failed
    have "a + d \<le> 2 ^ 48" using failed(2) assms(7) by linarith
    then have "maps_span m m' root v p (a + d)" using maps_span_append [OF assms(1) _ failed(4)] by blast
    moreover have "voff v (v + of_nat (a + d)) = a + d"
      using failed(2) assms(7) by (intro voff_base_add) linarith
    then have "leaf m1 root (v + of_nat (a + d)) = leaf m root (v + of_nat (a + d))"
      using assms(1) by (simp add: maps_span_def)
    then have "no_way pm' m root (v + of_nat (a + d)) (p + of_nat (a + d))"
      using failed(5) by (simp add: no_way_def add.assoc)
    moreover have "a + d < n" "4096 dvd a + d" using failed(2,3) assms(4) by auto
    ultimately show ?thesis using failed(1) post k tk cd by (auto simp: map_range_post_def res)
  qed
qed

lemma map_range_post_same:
  assumes "same_walk m m1 root" and "takes pm pm1" and "n \<le> 2 ^ 48" and "0 < n"
    and "keeps R m m1" and "map_range_post R pm1 m1 root v p n res"
    and "spends (vtables 3 v) root pm m pm1 m1"
  shows "map_range_post R pm m root v p n res"
  using map_range_post_step [OF maps_span_0 [OF assms(1)] assms(2), of R v p n res] assms(3-7) by simp

definition range_args :: "u64 \<Rightarrow> u64 \<Rightarrow> u64 \<Rightarrow> bool" where
  "range_args vaddr paddr stop \<longleftrightarrow> unat vaddr mod 4096 = 0 \<and> unat paddr mod 4096 = 0 \<and>
     unat paddr + (unat stop - unat vaddr) \<le> 2 ^ 52 \<and> unat stop - unat vaddr \<le> 2 ^ 48 \<and>
     unat stop \<le> 2 ^ 64 - 4096"

lemma unat_mod_uint: "unat (x :: u64) mod 2 ^ n = 0 \<longleftrightarrow> uint x mod 2 ^ n = 0"
proof -
  have "int (unat x mod 2 ^ n) = uint x mod 2 ^ n" by (simp add: zmod_int)
  then show ?thesis by linarith
qed

lemma range_args_frame:
  assumes "range_args vaddr paddr stop" and "unat vaddr < unat stop"
  shows "frame_like paddr" and "uint vaddr mod 2 ^ 12 = 0" and "unat paddr + 4096 \<le> 2 ^ 52"
proof -
  note r = assms(1) [unfolded range_args_def]
  then have "unat paddr < 2 ^ 52" using assms(2) by linarith
  then show "frame_like paddr" using r by (simp add: frame_like_def)
  show "uint vaddr mod 2 ^ 12 = 0" using r unat_mod_uint [of vaddr 12] by simp
  show "unat paddr + 4096 \<le> 2 ^ 52"
    using frames_differ [of "unat paddr" "2 ^ 52"] r \<open>unat paddr < 2 ^ 52\<close> by simp
qed

lemma range_args_step:
  assumes "range_args vaddr paddr stop" and "unat vaddr < unat stop" and "4096 dvd a"
    and "a \<le> unat stop - unat vaddr \<or> a = 4096"
  shows "range_args (vaddr + of_nat a) (paddr + of_nat a) stop"
    and "unat stop - unat (vaddr + of_nat a) = unat stop - unat vaddr - a"
proof -
  note r = assms(1) [unfolded range_args_def]
  note f = range_args_frame(3) [OF assms(1,2)]
  have v: "unat (vaddr + of_nat a) = unat vaddr + a"
    using r assms(2,4) by (intro unat_add_of_nat) auto
  have p: "unat (paddr + of_nat a) = unat paddr + a"
    using r assms(2,4) f by (intro unat_add_of_nat) auto
  show "unat stop - unat (vaddr + of_nat a) = unat stop - unat vaddr - a" using v by simp
  have "(unat vaddr + a) mod 4096 = 0" "(unat paddr + a) mod 4096 = 0"
    using r assms(3) by (auto simp: mod_eq_0_iff_dvd intro: dvd_add)
  then show "range_args (vaddr + of_nat a) (paddr + of_nat a) stop"
    using r assms(4) f unfolding range_args_def v p by auto
qed

text \<open>One round of the loop, given what the rounds after it do.\<close>

definition rest_ok :: "u64 set \<Rightarrow> u64 \<Rightarrow> u64 \<Rightarrow> u64 \<Rightarrow> u64 \<Rightarrow> u64 \<Rightarrow> nat \<Rightarrow> bool" where
  "rest_ok R root vaddr paddr stop flags a \<longleftrightarrow> (\<forall>pm m. pt_ok R pm m root \<longrightarrow>
     (\<exists>res. map_range_loop pm m root (vaddr + of_nat a) (paddr + of_nat a) stop flags = Some res \<and>
        map_range_post R pm m root (vaddr + of_nat a) (paddr + of_nat a) (unat stop - unat vaddr - a) res))"

lemma rest_okD:
  assumes "rest_ok R root vaddr paddr stop flags a" and "maps_span m m1 root vaddr paddr a"
    and "pt_ok R pm1 m1 root" and "takes pm pm1" and "4096 dvd a"
    and "a \<le> unat stop - unat vaddr \<or> a = 4096" and "unat vaddr < unat stop"
    and "range_args vaddr paddr stop" and "keeps R m m1" and "spends (vtables 3 vaddr) root pm m pm1 m1"
  shows "\<exists>res. map_range_loop pm1 m1 root (vaddr + of_nat a) (paddr + of_nat a) stop flags = Some res \<and>
    map_range_post R pm m root vaddr paddr (unat stop - unat vaddr) res"
  using assms(1,3) map_range_post_step [OF assms(2,4) _ assms(5) _ assms(6)] assms(7-10)
  unfolding rest_ok_def range_args_def by (metis zero_less_diff)

lemma page_round:
  assumes "pt_ok R pm m root" and "range_args vaddr paddr stop" and "flags AND PHYS_ADDR_MASK = 0"
    and "unat vaddr < unat stop" and "rest_ok R root vaddr paddr stop flags 4096"
  shows "\<exists>res. do {(r, pm, m) \<leftarrow> map_page pm m root vaddr paddr flags;
        if r \<noteq> 0 then Some (- 1, pm, m)
        else map_range_loop pm m root (vaddr + page_size) (paddr + page_size) stop flags} = Some res \<and>
      map_range_post R pm m root vaddr paddr (unat stop - unat vaddr) res"
proof -
  note fr = range_args_frame [OF assms(2,4)]
  obtain r pm1 m1 where mp: "map_page pm m root vaddr paddr flags = Some (r, pm1, m1)"
      "map_page_post R pm m root vaddr paddr flags (r, pm1, m1)"
    using map_page_spec [OF assms(1), of vaddr paddr flags] by auto
  then have p: "pt_ok R pm1 m1 root" "takes pm pm1" and k: "keeps R m m1"
    and c: "spends (vtables 3 vaddr) root pm m pm1 m1"
    by (auto simp: map_page_post_def)
  show ?thesis
  proof (cases "r = 0")
    case True
    show ?thesis
      using rest_okD [OF assms(5) map_page_span [OF mp(2) True fr(1) assms(3) fr(2)] p _ _ assms(4,2) k c]
        mp(1) True by simp
  next
    case False
    then have "map_range_post R pm m root vaddr paddr (unat stop - unat vaddr) (- 1, pm1, m1)"
      using mp(2) assms(4) maps_span_0 [of m m1 root vaddr paddr] spends_mono [OF c range_tables_at]
      by (auto simp: map_page_post_def map_range_post_def intro!: exI [of _ 0])
    then show ?thesis using mp(1) False by simp
  qed
qed

lemma large_aligned: "x AND (large_page_size - 1) = 0 \<longleftrightarrow> uint x mod 2 ^ 21 = 0"
proof -
  have "x AND (large_page_size - 1) = 0 \<longleftrightarrow> take_bit 21 x = 0"
    unfolding mask_large take_bit_eq_mask ..
  also have "\<dots> \<longleftrightarrow> uint (take_bit 21 x) = 0" by (simp only: unsigned_eq_0_iff)
  also have "\<dots> \<longleftrightarrow> uint x mod 2 ^ 21 = 0" by (simp only: unsigned_take_bit_eq) (simp only: take_bit_eq_mod)
  finally show ?thesis .
qed

lemma large_round:
  assumes "pt_ok R pm m root" and "range_args vaddr paddr stop" and "flags AND PHYS_ADDR_MASK = 0"
    and "unat vaddr < unat stop" and "rest_ok R root vaddr paddr stop flags 4096"
    and "vaddr AND (large_page_size - 1) = 0" and "paddr AND (large_page_size - 1) = 0"
    and "large_page_size \<le> stop - vaddr" and "rest_ok R root vaddr paddr stop flags 0x200000"
  shows "\<exists>res. map_range_loop pm m root vaddr paddr stop flags = Some res \<and>
      map_range_post R pm m root vaddr paddr (unat stop - unat vaddr) res"
proof -
  note fr = range_args_frame [OF assms(2,4)]
  have v: "vaddr < stop" using assms(4) by (simp add: word_less_nat_alt)
  have "unat (stop - vaddr) = unat stop - unat vaddr" using assms(4) by (intro unat_sub_le) simp
  then have n: "0x200000 \<le> unat stop - unat vaddr" using assms(8) by (simp add: word_le_nat_alt)
  obtain r pm1 m1 where mp: "map_large_page pm m root vaddr paddr flags = Some (r, pm1, m1)"
      "map_large_page_post R pm m root vaddr paddr flags (r, pm1, m1)"
    using map_large_page_spec [OF assms(1), of vaddr paddr flags] by auto
  then have p: "pt_ok R pm1 m1 root" "takes pm pm1" and k: "keeps R m m1"
    and c: "spends (vtables 3 vaddr) root pm m pm1 m1"
    using spends_leaf by (auto simp: map_large_page_post_def)
  show ?thesis
  proof (cases "r = 0")
    case True
    have "maps_span m m1 root vaddr paddr 0x200000"
      using map_large_page_span [OF mp(2) True fr(1) assms(3)] assms(6,7) unfolding large_aligned .
    from rest_okD [OF assms(9) this p _ _ assms(4,2) k c] n obtain res where
        "map_range_loop pm1 m1 root (vaddr + of_nat 0x200000) (paddr + of_nat 0x200000) stop flags = Some res"
        "map_range_post R pm m root vaddr paddr (unat stop - unat vaddr) res" by auto
    then show ?thesis
      using v mp(1) True assms(6-8) n
      by (subst map_range_loop.simps) auto
  next
    case False
    then have "same_walk m m1 root" using mp(2) by (auto simp: map_large_page_post_def)
    note same = map_range_post_same [OF this p(2) _ _ k _ c]
    from page_round [OF p(1) assms(2-5)] show ?thesis
      using same v mp(1) False assms(2,4,6-8) unfolding range_args_def
      by (subst map_range_loop.simps) fastforce
  qed
qed

lemma map_range_loop_spec:
  assumes "pt_ok R pm m root" and "range_args vaddr paddr stop" and "flags AND PHYS_ADDR_MASK = 0"
  shows "\<exists>res. map_range_loop pm m root vaddr paddr stop flags = Some res \<and>
    map_range_post R pm m root vaddr paddr (unat stop - unat vaddr) res"
  using assms(1,2)
proof (induction "unat stop - unat vaddr" arbitrary: pm m vaddr paddr rule: less_induct)
  case less
  show ?case
  proof (cases "vaddr < stop")
    case False
    then have "unat stop - unat vaddr = 0" by (simp add: word_less_nat_alt)
    then show ?thesis using False less.prems
      by (subst map_range_loop.simps) (simp add: map_range_post_def maps_span_0)
  next
    case True
    then have lt: "unat vaddr < unat stop" by (simp add: word_less_nat_alt)
    have rest: "rest_ok R root vaddr paddr stop flags a"
      if "4096 dvd a" "0 < a" "a \<le> unat stop - unat vaddr \<or> a = 4096" for a
    proof -
      note st = range_args_step [OF less.prems(2) lt that(1,3)]
      have "unat stop - unat (vaddr + of_nat a) < unat stop - unat vaddr" using st(2) that(2) lt by simp
      from less.hyps [OF this _ st(1)] show ?thesis unfolding rest_ok_def st(2) by blast
    qed
    show ?thesis
    proof (cases "vaddr AND (large_page_size - 1) = 0 \<and> paddr AND (large_page_size - 1) = 0 \<and>
        stop - vaddr \<ge> large_page_size")
      case False
      show ?thesis
        using False True page_round [OF less.prems assms(3) lt rest]
        by (subst map_range_loop.simps) auto
    next
      case large: True
      have "unat (stop - vaddr) = unat stop - unat vaddr" using lt by (intro unat_sub_le) simp
      then have "0x200000 \<le> unat stop - unat vaddr" using large by (simp add: word_le_nat_alt)
      then show ?thesis using large_round [OF less.prems assms(3) lt rest] large rest by simp
    qed
  qed
qed

definition page_base :: "u64 \<Rightarrow> u64" where
  "page_base x = x AND NOT (page_size - 1)"

text \<open>The bytes from the first page boundary to the end of the range.\<close>

definition span_len :: "u64 \<Rightarrow> u64 \<Rightarrow> nat" where
  "span_len vaddr len = unat vaddr mod 4096 + unat len"

lemma page_base_unat: "unat (page_base x) = unat x - unat x mod 4096"
proof -
  have m: "page_size - 1 = mask 12" by (simp add: mask_eq_exp_minus_1)
  have "x = (x AND NOT (mask 12)) + (x AND mask 12)"
    by (subst disjunctive_add_eq_or; (rule bit_word_eqI, force simp: bit_simps)?)
  then have "x AND NOT (mask 12) = x - take_bit 12 x" by (metis add_diff_cancel_right' take_bit_eq_mask)
  moreover have t: "unat (take_bit 12 x) = unat x mod 4096"
    by (simp only: unsigned_take_bit_eq) (simp add: take_bit_eq_mod)
  moreover have "unat (x - take_bit 12 x) = unat x - unat (take_bit 12 x)"
    by (rule unat_sub_le) (simp add: t)
  ultimately show ?thesis unfolding page_base_def m by simp
qed

lemma page_base_aligned: "unat (page_base x) mod 4096 = 0"
  unfolding page_base_unat by (simp add: minus_mod_eq_mult_div)

lemma spends_range:
  assumes "spends (range_tables (page_base vaddr) len) root pm m pm' m'"
  shows "card (pmm_free pm) \<le> card (pmm_free pm') + frame_cost len"
  using spends_bound [OF assms] card_range_tables [OF page_base_aligned, of vaddr len] by linarith

lemma page_base_aligned_id: "unat x mod 4096 = 0 \<Longrightarrow> page_base x = x"
  by (simp add: word_unat_eq_iff page_base_unat)

definition map_range_pre :: "u64 \<Rightarrow> u64 \<Rightarrow> u64 \<Rightarrow> u64 \<Rightarrow> bool" where
  "map_range_pre vaddr paddr len flags \<longleftrightarrow>
     unat vaddr + unat len \<le> 2 ^ 64 - 4096 \<and> span_len vaddr len \<le> 2 ^ 48 \<and>
     unat (page_base paddr) + span_len vaddr len \<le> 2 ^ 52 \<and> flags AND PHYS_ADDR_MASK = 0"

lemma map_range_spec:
  assumes "pt_ok R pm m root" and "map_range_pre vaddr paddr len flags"
  shows "\<exists>res. map_range pm m root vaddr paddr len flags = Some res \<and>
    map_range_post R pm m root (page_base vaddr) (page_base paddr) (span_len vaddr len) res"
proof -
  note pre = assms(2) [unfolded map_range_pre_def]
  have e: "unat (vaddr + len) = unat vaddr + unat len"
    using pre by (intro unat_add_nowrap) simp
  have n: "unat (vaddr + len) - unat (page_base vaddr) = span_len vaddr len"
    unfolding e page_base_unat span_len_def by (simp add: algebra_simps)
  have "range_args (page_base vaddr) (page_base paddr) (vaddr + len)"
    using pre n e unfolding range_args_def by (simp add: page_base_aligned)
  from map_range_loop_spec [OF assms(1) this, of flags] show ?thesis
    using pre unfolding map_range_def n page_base_def [symmetric] by simp
qed

end
