(* ===== verification/Physical_Props.thy ===== *)
theory Physical_Props
  imports Physical
begin

text \<open>
  What the frame allocator promises: the properties of \<^verbatim>\<open>kernel/memory/physical.c\<close>
  that its clients and its reviewers read, each with a concrete instance.
\<close>

section \<open>A concrete manager\<close>

text \<open>
  One usable block of eight frames at 1 MiB whose first frame is taken, and a block of device
  memory without a bitmap.
\<close>

definition demo_block :: pm_block where
  "demo_block = \<lparr>address = 0x100000, frames_total = 8, frames_free = 7, map_ptr = 0x8000,
     map_words = [0xFFFFFFFFFFFFFF01], btype = PM_USABLE, attributes = 0\<rparr>"

definition demo_mmio :: pm_block where
  "demo_mmio = \<lparr>address = 0xFEC00000, frames_total = 1, frames_free = 0, map_ptr = 0,
     map_words = [], btype = PM_MMIO, attributes = 0\<rparr>"

definition demo_pmm :: pmm where
  "demo_pmm = \<lparr>blocks = [demo_block, demo_mmio], block_count = 2\<rparr>"

lemma demo_free_idx: "free_idx demo_block = {1..<8}" "free_idx demo_mmio = {}"
  by code_simp+

lemma demo_high_bits: "\<forall>k \<in> {8..<64}. used_bit demo_block k"
  by code_simp

lemma demo_range: "{0..<unat (block_count demo_pmm)} = {0, 1}"
  by (auto simp: demo_pmm_def)

lemma demo_ok: "pmm_ok demo_pmm"
proof -
  have "map_ok demo_block"
    using demo_high_bits by (simp add: map_ok_def demo_block_def frame_map_size_def)
  then have "block_ok demo_block"
    by (simp add: block_ok_def demo_free_idx) (simp add: demo_block_def)
  moreover have "block_ok demo_mmio"
    by (simp add: block_ok_def demo_free_idx) (simp add: demo_mmio_def)
  moreover have "blocks_apart demo_mmio demo_block"
    by (simp add: blocks_apart_def demo_mmio_def demo_block_def)
  ultimately show ?thesis
    unfolding pmm_ok_def demo_range by (simp add: demo_pmm_def)
qed

lemma demo_free: "pmm_free demo_pmm = {0x101000, 0x102000, 0x103000, 0x104000, 0x105000, 0x106000, 0x107000}"
proof -
  have "pmm_free demo_pmm = frame_addr demo_block ` {1..<8}"
    unfolding pmm_free_def demo_range by (simp add: block_free_def demo_free_idx demo_pmm_def)
  moreover have "{1..<8 :: nat} = {1, 2, 3, 4, 5, 6, 7}" by auto
  ultimately show ?thesis by (simp add: frame_addr_def demo_block_def)
qed

lemma demo_managed: "pmm_managed demo_pmm = insert 0x100000 (pmm_free demo_pmm)"
proof -
  have "{i \<in> {0..<unat (block_count demo_pmm)}. map_ptr (blocks demo_pmm ! i) \<noteq> 0} = {0}"
    unfolding demo_range by (auto simp: demo_pmm_def demo_block_def demo_mmio_def)
  then have "pmm_managed demo_pmm = frame_addr demo_block ` {0..<8}"
    by (simp add: pmm_managed_def block_frames_def) (simp add: demo_pmm_def demo_block_def)
  moreover have "{0..<8 :: nat} = {0, 1, 2, 3, 4, 5, 6, 7}" by auto
  ultimately show ?thesis unfolding demo_free by (simp add: frame_addr_def demo_block_def)
qed

section \<open>Properties\<close>

text \<open>
  C14: On a well-formed manager \<^verbatim>\<open>frame_allocate\<close> always returns, without leaving
  the bitmaps: it hands out a free frame and removes exactly that frame from the free set, or
  returns the failure value with the manager unchanged when no frame is free. The manager stays
  well-formed.
\<close>

theorem frame_allocate_contract:
  assumes "pmm_ok pm"
  shows "\<exists>a pm'. frame_allocate pm = Some (a, pm') \<and> pmm_ok pm' \<and>
    (if pmm_free pm = {} then a = NO_FRAME \<and> pm' = pm
     else a \<in> pmm_free pm \<and> pmm_free pm' = pmm_free pm - {a})"
proof (cases "pmm_free pm = {}")
  case True
  then show ?thesis using pm.alloc_none [OF assms] assms by simp
next
  case False
  then show ?thesis using pm.alloc_some [OF assms] by auto
qed

theorem frame_allocate_contract_witness:
  "\<exists>a pm'. frame_allocate demo_pmm = Some (a, pm') \<and> pmm_ok pm' \<and>
     a \<in> pmm_free demo_pmm \<and> pmm_free pm' = pmm_free demo_pmm - {a}"
  using frame_allocate_contract [OF demo_ok] by (simp add: demo_free)

text \<open>
  C15: \<^verbatim>\<open>frame_free\<close> never faults on a well-formed manager, whatever the address: it
  adds the managed frame that contains the address to the free set and changes nothing else, so
  freeing twice, or freeing an address outside every managed block, is harmless.
\<close>

theorem frame_free_contract:
  assumes "pmm_ok pm"
  shows "\<exists>pm'. frame_free pm addr = Some pm' \<and> pmm_ok pm' \<and>
    pmm_free pm' =
      pmm_free pm \<union> {a \<in> pmm_managed pm. unat a \<le> unat addr \<and> unat addr < unat a + 4096}"
  using frame_free_any [OF assms] by (simp add: frame_has_def)

theorem frame_free_contract_witness:
  "\<exists>pm'. frame_free demo_pmm 0x100FFF = Some pm' \<and> pmm_ok pm' \<and>
     pmm_free pm' = insert 0x100000 (pmm_free demo_pmm)"
proof -
  have "{a \<in> pmm_managed demo_pmm. unat a \<le> unat (0x100FFF :: u64) \<and> unat (0x100FFF :: u64) < unat a + 4096}
      = {0x100000}"
    unfolding demo_managed demo_free by auto
  then show ?thesis using frame_free_contract [OF demo_ok, of "0x100FFF"] by simp
qed

text \<open>
  C20: Releasing the frame that was just allocated restores the manager exactly, bitmaps and
  counters included.
\<close>

theorem frame_allocate_free_roundtrip:
  assumes "pmm_ok pm" and "frame_allocate pm = Some (a, pm')" and "a \<noteq> NO_FRAME"
  shows "frame_free pm' a = Some pm"
proof -
  have "pmm_free pm \<noteq> {}" using assms frame_allocate_none by fastforce
  then obtain j k where j: "j < unat (block_count pm)" and k: "k \<in> free_idx (blocks pm ! j)"
      and "frame_allocate pm =
        Some (frame_addr (blocks pm ! j) k, upd_block pm j (take_frame (blocks pm ! j) k))"
    using frame_allocate_take [OF assms(1)] by blast
  with assms(2) have eq: "a = frame_addr (blocks pm ! j) k"
      "pm' = upd_block pm j (take_frame (blocks pm ! j) k)"
    by simp_all
  let ?b = "blocks pm ! j"
  have b': "blocks pm' ! j = take_frame ?b k" using nth_upd [OF assms(1) j] eq by simp
  have kb: "k < unat (frames_total ?b)" "map_ptr ?b \<noteq> 0"
    using k by (auto simp: free_idx_def split: if_splits)
  have "frame_free pm' (frame_addr (blocks pm' ! j) k) =
      Some (upd_block pm' j (give_frame (blocks pm' ! j) k))"
    using pmm_take_frame(1) [OF assms(1) j k] j kb b' eq by (intro frame_free_give) simp_all
  moreover have "frame_addr (blocks pm' ! j) k = a" using b' eq by (simp add: frame_addr_def)
  moreover have "upd_block pm' j (give_frame (blocks pm' ! j) k) = pm"
    using b' eq give_take_frame [OF pmm_ok_nth [OF assms(1) j] k] by (simp add: upd_block_def)
  ultimately show ?thesis by simp
qed

theorem frame_allocate_free_roundtrip_witness:
  "\<exists>pm'. frame_allocate demo_pmm = Some (0x101000, pm') \<and> frame_free pm' 0x101000 = Some demo_pmm"
proof -
  have "map_option fst (frame_allocate demo_pmm) = Some 0x101000" by code_simp
  then obtain pm' where pm': "frame_allocate demo_pmm = Some (0x101000, pm')" by auto
  show ?thesis using pm' frame_allocate_free_roundtrip [OF demo_ok pm'] by simp
qed

subsection \<open>Runs of frames\<close>

text \<open>The \<open>n\<close> frames from address \<open>a\<close> on, and whether some block has \<open>n\<close> free frames in a row.\<close>

definition run_frames :: "u64 \<Rightarrow> nat \<Rightarrow> u64 set" where
  "run_frames a n = (\<lambda>i. a + of_nat i * frame_size) ` {0..<n}"

definition has_run :: "pmm \<Rightarrow> nat \<Rightarrow> bool" where
  "has_run pm n \<longleftrightarrow> (\<exists>j < unat (block_count pm). \<exists>s. free_run (blocks pm ! j) s n)"

lemma run_frames_frame_addr: "run_frames (frame_addr b s) n = frame_addr b ` {s..<s + n}"
proof -
  have "frame_addr b ` {s..<s + n} = frame_addr b ` ((\<lambda>i. s + i) ` {0..<n})"
    by (simp add: add.commute)
  also have "\<dots> = run_frames (frame_addr b s) n"
    unfolding image_image run_frames_def frame_addr_def
    by (intro image_cong) (simp_all add: algebra_simps)
  finally show ?thesis by simp
qed

lemma frames_allocate_run:
  assumes "pmm_ok pm" and "count \<noteq> 0" and "has_run pm (unat count)"
  shows "\<exists>a pm'. frames_allocate pm count = Some (a, pm') \<and> pmm_ok pm' \<and>
    run_frames a (unat count) \<subseteq> pmm_free pm \<and>
    pmm_free pm' = pmm_free pm - run_frames a (unat count) \<and> pmm_managed pm' = pmm_managed pm"
proof -
  obtain j s where j: "j < unat (block_count pm)" "free_run (blocks pm ! j) s (unat count)"
      "frames_allocate pm count =
        Some (frame_addr (blocks pm ! j) s, upd_block pm j (take_run (blocks pm ! j) s count))"
    using assms(3) frames_allocate_take [OF assms(1,2)] unfolding has_run_def by blast
  then show ?thesis
    using pmm_take_run [OF assms(1) j(1,2) assms(2)] by (simp add: run_frames_frame_addr)
qed

interpretation pm: run_allocator pmm_ok pmm_free pmm_managed frame_allocate frame_free NO_FRAME
    frames_allocate "\<lambda>a n. run_frames a (unat n)" "\<lambda>pm n. n \<noteq> 0 \<and> has_run pm (unat n)"
proof unfold_locales
  fix pm and n :: u64
  assume ok: "pmm_ok pm"
  show "\<exists>a pm'. frames_allocate pm n = Some (a, pm') \<and> a \<in> run_frames a (unat n) \<and> run_frames a (unat n) \<subseteq> pmm_free pm \<and>
      pmm_ok pm' \<and> pmm_free pm' = pmm_free pm - run_frames a (unat n) \<and> pmm_managed pm' = pmm_managed pm"
    if p: "n \<noteq> 0 \<and> has_run pm (unat n)"
  proof -
    have "a \<in> run_frames a (unat n)" for a using p by (auto simp: run_frames_def unat_gt_0 intro!: image_eqI [of _ _ 0])
    then show ?thesis using frames_allocate_run [OF ok, of n] p by blast
  qed
  show "frames_allocate pm n = Some (NO_FRAME, pm)" if "\<not> (n \<noteq> 0 \<and> has_run pm (unat n))"
    using that frames_allocate_none [OF ok, of n] by (auto simp: has_run_def frames_allocate_def)
qed

text \<open>
  C13: \<^verbatim>\<open>frames_allocate\<close> never faults on a well-formed manager. When some block has
  \<open>count\<close> free frames in a row it returns the address of such a run, all of whose frames were
  free, and takes exactly those out of the free set; otherwise (and for \<open>count = 0\<close>) it
  returns the failure value and changes nothing.
\<close>

theorem frames_allocate_contract:
  assumes "pmm_ok pm"
  shows "\<exists>a pm'. frames_allocate pm count = Some (a, pm') \<and> pmm_ok pm' \<and>
    (if count \<noteq> 0 \<and> has_run pm (unat count)
     then run_frames a (unat count) \<subseteq> pmm_free pm \<and>
       pmm_free pm' = pmm_free pm - run_frames a (unat count)
     else a = NO_FRAME \<and> pm' = pm)"
proof (cases "count \<noteq> 0 \<and> has_run pm (unat count)")
  case True
  then show ?thesis using frames_allocate_run [OF assms, of count] by auto
next
  case False
  then show ?thesis using pm.run_none [OF assms] assms by auto
qed

lemma demo_run: "has_run demo_pmm 3"
proof -
  have "free_run (blocks demo_pmm ! 0) 1 3" 
    by (simp add: free_run_def demo_pmm_def demo_free_idx)
  then show ?thesis unfolding has_run_def by (intro exI [of _ 0]) (auto simp: demo_pmm_def)
qed

theorem frames_allocate_contract_witness:
  "\<exists>a pm'. frames_allocate demo_pmm 3 = Some (a, pm') \<and> pmm_ok pm' \<and>
     run_frames a 3 \<subseteq> pmm_free demo_pmm \<and> pmm_free pm' = pmm_free demo_pmm - run_frames a 3"
  using frames_allocate_contract [OF demo_ok, of 3] demo_run by simp

subsection \<open>Sequences of allocations and releases\<close>

text \<open>
  A client that only releases frames it holds. The state is the manager and the set of frames
  the client holds.
\<close>

inductive pm_step :: "pmm \<times> u64 set \<Rightarrow> pmm \<times> u64 set \<Rightarrow> bool" where
  alloc_frame: "frame_allocate pm = Some (a, pm') \<Longrightarrow> a \<noteq> NO_FRAME \<Longrightarrow>
    pm_step (pm, held) (pm', insert a held)"
| alloc_run: "frames_allocate pm n = Some (a, pm') \<Longrightarrow> a \<noteq> NO_FRAME \<Longrightarrow>
    pm_step (pm, held) (pm', held \<union> run_frames a (unat n))"
| free_frame: "a \<in> held \<Longrightarrow> frame_free pm a = Some pm' \<Longrightarrow> pm_step (pm, held) (pm', held - {a})"

inductive_cases pm_stepE: "pm_step (pm, held) s"

text \<open>Frames are conserved: every frame free at the start is free or held, never both.\<close>

definition pm_inv :: "u64 set \<Rightarrow> u64 set \<Rightarrow> pmm \<times> u64 set \<Rightarrow> bool" where
  "pm_inv frames mgd s \<longleftrightarrow>
     (case s of (pm, held) \<Rightarrow> pmm_ok pm \<and> pmm_managed pm = mgd \<and>
        held \<inter> pmm_free pm = {} \<and> held \<union> pmm_free pm = frames)"

lemma pm_inv_alloc:
  assumes "pm_inv F M (pm, held)" and "frame_allocate pm = Some (a, pm')" and "a \<noteq> NO_FRAME"
  shows "pm_inv F M (pm', insert a held)" and "a \<notin> held"
proof -
  have ok: "pmm_ok pm" using assms(1) by (simp add: pm_inv_def)
  obtain b q where "frame_allocate pm = Some (b, q)" "pmm_ok q" "pmm_managed q = pmm_managed pm"
      "pmm_free q = pmm_free pm - {b}" "b \<noteq> NO_FRAME \<Longrightarrow> b \<in> pmm_free pm"
    by (rule pm.alloc_total [OF ok]) blast
  with assms(2,3) have *: "pmm_ok pm'" "pmm_managed pm' = pmm_managed pm"
      "pmm_free pm' = pmm_free pm - {a}" "a \<in> pmm_free pm"
    by auto
  then show "pm_inv F M (pm', insert a held)" and "a \<notin> held"
    using assms(1) by (auto simp: pm_inv_def)
qed

lemma pm_inv_alloc_run:
  assumes "pm_inv F M (pm, held)" and "frames_allocate pm n = Some (a, pm')" and "a \<noteq> NO_FRAME"
  shows "pm_inv F M (pm', held \<union> run_frames a (unat n))"
proof -
  have ok: "pmm_ok pm" using assms(1) by (simp add: pm_inv_def)
  from pm.run_taken [OF ok assms(2,3)] assms(1) show ?thesis by (auto simp: pm_inv_def)
qed

lemma pm_inv_free:
  assumes "pm_inv F M (pm, held)" and "F \<subseteq> M" and "a \<in> held" and "frame_free pm a = Some pm'"
  shows "pm_inv F M (pm', held - {a})"
proof -
  have ok: "pmm_ok pm" and "a \<in> pmm_managed pm" using assms(1,2,3) by (auto simp: pm_inv_def)
  then obtain q where "frame_free pm a = Some q" "pmm_ok q" "pmm_free q = insert a (pmm_free pm)"
      "pmm_managed q = pmm_managed pm"
    using pm.release_ok [OF ok] by blast
  with assms show ?thesis by (auto simp: pm_inv_def)
qed

lemma pm_step_inv:
  assumes "pm_step s t" and "pm_inv F M s" and "F \<subseteq> M"
  shows "pm_inv F M t"
  using assms
proof (induction rule: pm_step.induct)
  case (alloc_frame pm a pm' held)
  then show ?case using pm_inv_alloc(1) by blast
next
  case (alloc_run pm n a pm' held)
  then show ?case using pm_inv_alloc_run by blast
next
  case (free_frame a held pm pm')
  then show ?case using pm_inv_free by blast
qed

interpretation pm_sys: kept_by_steps pm_step "\<lambda>s. pm_inv F M s \<and> F \<subseteq> M" for F M
  by unfold_locales (blast intro: pm_step_inv)

text \<open>
  C5: However a client mixes single allocations, contiguous allocations and releases of frames
  it holds, no frame is ever lost or handed out twice: the frames free at the start are at every
  moment split between the free set and the frames held, and the next frame handed out is not held.
\<close>

theorem frames_conserved:
  assumes "pmm_ok pm\<^sub>0" and "rtranclp pm_step (pm\<^sub>0, {}) (pm, held)"
  shows "pmm_ok pm \<and> held \<inter> pmm_free pm = {} \<and> held \<union> pmm_free pm = pmm_free pm\<^sub>0 \<and>
    (\<forall>a pm'. frame_allocate pm = Some (a, pm') \<and> a \<noteq> NO_FRAME \<longrightarrow> a \<notin> held)"
proof -
  have "pm_inv (pmm_free pm\<^sub>0) (pmm_managed pm\<^sub>0) (pm\<^sub>0, {})" using assms(1) by (simp add: pm_inv_def)
  then have inv: "pm_inv (pmm_free pm\<^sub>0) (pmm_managed pm\<^sub>0) (pm, held)"
    using pm_sys.reachable [OF assms(2)] pmm_free_managed by blast
  then show ?thesis using pm_inv_alloc(2) [OF inv] by (auto simp: pm_inv_def)
qed

theorem frames_conserved_witness:
  "\<exists>pm. rtranclp pm_step (demo_pmm, {}) (pm, {0x101000}) \<and> 0x101000 \<notin> pmm_free pm \<and>
     insert 0x101000 (pmm_free pm) = pmm_free demo_pmm"
proof -
  have "map_option fst (frame_allocate demo_pmm) = Some 0x101000" by code_simp
  then obtain pm' where pm': "frame_allocate demo_pmm = Some (0x101000, pm')" by auto
  then have step: "rtranclp pm_step (demo_pmm, {}) (pm', {0x101000})"
    using pm_step.alloc_frame [OF pm', of "{}"] by (simp add: r_into_rtranclp)
  then show ?thesis using frames_conserved [OF demo_ok step] by auto
qed

text \<open>
  C21: Allocating frame after frame yields as many distinct frames as were free, and not one more:
  after that many allocations the next call reports failure.
\<close>

theorem frame_allocate_exhausts:
  assumes "pmm_ok pm"
  shows "\<exists>as pm'. alloc_many frame_allocate (card (pmm_free pm)) pm = Some (as, pm') \<and>
    distinct as \<and> set as = pmm_free pm \<and> frame_allocate pm' = Some (NO_FRAME, pm')"
proof -
  obtain as pm' where as: "alloc_many frame_allocate (card (pmm_free pm)) pm = Some (as, pm')"
      "length as = card (pmm_free pm)" "distinct as" "set as \<subseteq> pmm_free pm" "pmm_ok pm'"
      "pmm_free pm' = pmm_free pm - set as"
    using pm.alloc_many_distinct [OF assms order_refl] by blast
  then have "set as = pmm_free pm"
    by (intro card_subset_eq) (simp_all add: distinct_card)
  then show ?thesis using as pm.alloc_none [of pm'] by auto
qed

theorem frame_allocate_exhausts_witness:
  "\<exists>as pm'. alloc_many frame_allocate 7 demo_pmm = Some (as, pm') \<and>
     distinct as \<and> set as = pmm_free demo_pmm \<and> frame_allocate pm' = Some (NO_FRAME, pm')"
proof -
  have "card (pmm_free demo_pmm) = 7" by (simp add: demo_free)
  then show ?thesis using frame_allocate_exhausts [OF demo_ok] by (simp only:)
qed

end
