(* ===== verification/Paging_Props.thy ===== *)
theory Paging_Props
  imports Paging_Range Physical_Props
begin

text \<open>
  What the paging code promises: the translations the processor makes after
  \<^verbatim>\<open>init_pml4\<close>, \<^verbatim>\<open>map_page\<close>, \<^verbatim>\<open>map_large_page\<close> and
  \<^verbatim>\<open>map_range\<close>, each with a concrete instance.
\<close>

section \<open>An empty tree\<close>

lemma empty_root:
  assumes "\<And>i. entry m root i = 0"
  shows "table_at m root p = (if p = [] then Some root else None)"
    and "leaf m root va = None" and "root_ok m root"
proof -
  show "table_at m root p = (if p = [] then Some root else None)"
    by (cases p) (simp_all add: assms nav_def)
  show "leaf m root va = None"
    using leaf_absent [of m root 0 va root] assms by simp
  show "root_ok m root" by (simp add: root_ok_def assms)
qed

text \<open>Frames in use for something else than tables.\<close>

definition set_aside :: "u64 set \<Rightarrow> pmm \<Rightarrow> bool" where
  "set_aside R pm \<longleftrightarrow> R \<inter> pmm_free pm = {} \<and> (\<forall>f \<in> R. unat f mod 4096 = 0)"

lemma set_aside_empty [simp]: "set_aside {} pm"
  by (simp add: set_aside_def)

lemma init_pml4_ok:
  assumes "pmm_ok pm" and "0 \<notin> pmm_free pm" and "pmm_free pm \<noteq> {}" and "set_aside R pm"
  shows "\<exists>root pm' m'. init_pml4 pm m = Some (root, pm', m') \<and> root \<in> pmm_free pm \<and> root \<noteq> 0 \<and>
    pmm_free pm' = pmm_free pm - {root} \<and> takes pm pm' \<and>
    pt_ok R pm' m' root \<and> keeps R m m' \<and> (\<forall>va. leaf m' root va = None) \<and> tabs m' root = {}"
proof (rule alloc_table_cases [OF assms(1,2), of m])
  fix f pm'
  assume f: "f \<in> pmm_free pm" "frame_like f" "f \<noteq> 0" "alloc_table pm m = Some (f, pm', fill m f 4096 0)"
      "pmm_ok pm'" "pmm_free pm' = pmm_free pm - {f}" "pmm_managed pm' = pmm_managed pm"
      "geometry pm' = geometry pm"
  have "unat f mod 4096 = 0" using f(2) by (simp add: frame_like_def)
  then have z: "\<And>i. entry (fill m f 4096 0) f i = 0" by (rule entry_fill_zero)
  note e = empty_root [of "fill m f 4096 0" f, OF z]
  have R: "f \<notin> R" "R \<inter> pmm_free pm' = {}" "\<forall>f \<in> R. unat f mod 4096 = 0"
    using assms(4) f(1,6) by (auto simp: set_aside_def)
  have "tables_ok (pmm_free pm' \<union> R) (fill m f 4096 0) f"
    using \<open>unat f mod 4096 = 0\<close> f(3,6) R(1) unfolding tables_ok_def e(1) by auto
  moreover have "tabs (fill m f 4096 0) f = {}" by (simp add: tabs_def e(1))
  moreover have "keeps R m (fill m f 4096 0)" by (rule keeps_fill [OF \<open>unat f mod 4096 = 0\<close> R(1,3)])
  ultimately show ?thesis using f e assms(2) R by (auto simp: init_pml4_def pt_ok_def takes_def)
qed (use assms(3) in simp)

section \<open>A concrete tree\<close>

text \<open>The manager of the demonstration after it gave its first frame to the root table.\<close>

definition demo_pm1 :: pmm where
  "demo_pm1 = \<lparr>blocks = [demo_block\<lparr>frames_free := 6, map_words := [0xFFFFFFFFFFFFFF03]\<rparr>, demo_mmio],
     block_count = 2\<rparr>"

definition demo_mem :: mem where
  "demo_mem = (\<lambda>_. 0)"

definition demo_root :: u64 where
  "demo_root = 0x101000"

lemma demo_allocate: "frame_allocate demo_pmm = Some (demo_root, demo_pm1)"
  by code_simp

lemma demo_fill: "fill demo_mem a n 0 = demo_mem"
  by (simp add: fill_def demo_mem_def fun_eq_iff)

lemma demo_init_pml4: "init_pml4 demo_pmm demo_mem = Some (demo_root, demo_pm1, demo_mem)"
  using demo_allocate by (simp add: init_pml4_def alloc_table_def memset_fill demo_fill)
    (simp add: demo_root_def)

lemma demo_pt_ok: "pt_ok {} demo_pm1 demo_mem demo_root"
  and demo_leaf: "leaf demo_mem demo_root va = None"
  and demo_free1: "pmm_free demo_pm1 = {0x102000, 0x103000, 0x104000, 0x105000, 0x106000, 0x107000}"
proof -
  obtain root pm' m' where *: "init_pml4 demo_pmm demo_mem = Some (root, pm', m')"
      "pmm_free pm' = pmm_free demo_pmm - {root}" "pt_ok {} pm' m' root" "\<forall>va. leaf m' root va = None"
    using init_pml4_ok [OF demo_ok, of "{}" demo_mem] by (auto simp: demo_free)
  then have eq: "root = demo_root" "pm' = demo_pm1" "m' = demo_mem"
    using demo_init_pml4 by simp_all
  show "pt_ok {} demo_pm1 demo_mem demo_root" "leaf demo_mem demo_root va = None" using * eq by simp_all
  show "pmm_free demo_pm1 = {0x102000, 0x103000, 0x104000, 0x105000, 0x106000, 0x107000}"
    using *(2) eq by (auto simp: demo_free demo_root_def)
qed

section \<open>Properties\<close>

text \<open>
  On a well-formed manager with a free frame that never hands out address 0,
  \<^verbatim>\<open>init_pml4\<close> returns a fresh frame as root table, the tree is well-formed and translates
  no address, and frames in use elsewhere keep their contents.
\<close>

theorem init_pml4_empty:
  assumes "pmm_ok pm" and "0 \<notin> pmm_free pm" and "pmm_free pm \<noteq> {}" and "set_aside R pm"
  shows "\<exists>root pm' m'. init_pml4 pm m = Some (root, pm', m') \<and> root \<in> pmm_free pm \<and>
    pmm_free pm' = pmm_free pm - {root} \<and> pt_ok R pm' m' root \<and> keeps R m m' \<and> (\<forall>va. walk m' root va = None)"
  using init_pml4_ok [OF assms, where m = m] by (fastforce simp: walk_def)

theorem init_pml4_empty_witness:
  "\<exists>root pm' m'. init_pml4 demo_pmm demo_mem = Some (root, pm', m') \<and> pt_ok {0x100000} pm' m' root \<and>
    keeps {0x100000} demo_mem m' \<and> (\<forall>va. walk m' root va = None)"
proof -
  have "0 \<notin> pmm_free demo_pmm" "pmm_free demo_pmm \<noteq> {}" "set_aside {0x100000} demo_pmm"
    by (simp_all add: demo_free set_aside_def)
  from init_pml4_empty [OF demo_ok this, where m = demo_mem] show ?thesis by blast
qed

text \<open>
  C17: \<^verbatim>\<open>map_page\<close> always returns. When it returns 0 the page of the virtual address
  translates to the physical frame, offset by offset, and every address outside the page translates
  as before; when it returns -1 no translation changed. The tree and the allocator stay well-formed,
  frames in use elsewhere keep their contents, and the call takes at most three frames, all of them
  free before.
\<close>

theorem map_page_translates:
  assumes "pt_ok R pm m root" and "unat vaddr mod 4096 = 0" and "unat paddr mod 4096 = 0"
    and "unat paddr < 2 ^ 52" and "flags AND PHYS_ADDR_MASK = 0"
  shows "\<exists>r pm' m'. map_page pm m root vaddr paddr flags = Some (r, pm', m') \<and> pt_ok R pm' m' root \<and>
    keeps R m m' \<and> pmm_free pm' \<subseteq> pmm_free pm \<and> card (pmm_free pm) \<le> card (pmm_free pm') + 3 \<and>
    (r = 0 \<and> (\<forall>va. walk m' root va =
        (if voff vaddr va < 4096 then Some (paddr + of_nat (voff vaddr va)) else walk m root va)) \<or>
     r = - 1 \<and> (\<forall>va. walk m' root va = walk m root va))"
proof -
  obtain r pm' m' where mp: "map_page pm m root vaddr paddr flags = Some (r, pm', m')"
      "map_page_post R pm m root vaddr paddr flags (r, pm', m')"
    using map_page_spec [OF assms(1), of vaddr paddr flags] by auto
  have span: "maps_span m m' root vaddr paddr 4096" if "r = 0"
    using map_page_span [OF mp(2) that _ assms(5)] assms(2-4) unat_mod_uint [of vaddr 12]
    by (simp add: frame_like_def)
  have "pt_ok R pm' m' root" "keeps R m m'" "pmm_free pm' \<subseteq> pmm_free pm" "card (pmm_free pm) \<le> card (pmm_free pm') + 3"
    and r: "r = 0 \<or> r = - 1 \<and> same_walk m m' root"
    using mp(2) spends_vtables [of 3 vaddr root pm m pm' m'] by (auto simp: map_page_post_def takes_def)
  moreover have "r = 0 \<and> (\<forall>va. walk m' root va =
        (if voff vaddr va < 4096 then Some (paddr + of_nat (voff vaddr va)) else walk m root va)) \<or>
     r = - 1 \<and> (\<forall>va. walk m' root va = walk m root va)"
    using r
  proof
    assume "r = 0"
    then show ?thesis using maps_span_walk [OF span] by blast
  qed (use same_walk_walk in blast)
  ultimately show ?thesis using mp(1) by blast
qed

theorem map_page_translates_witness:
  "\<exists>r pm' m'. map_page demo_pm1 demo_mem demo_root 0x40201000 0x7000 READ_WRITE_BIT = Some (r, pm', m') \<and>
    pt_ok {} pm' m' demo_root \<and>
    (r = 0 \<and> (\<forall>va. walk m' demo_root va =
        (if voff 0x40201000 va < 4096 then Some (0x7000 + of_nat (voff 0x40201000 va)) else walk demo_mem demo_root va)) \<or>
     r = - 1 \<and> (\<forall>va. walk m' demo_root va = walk demo_mem demo_root va))"
proof -
  have "READ_WRITE_BIT AND PHYS_ADDR_MASK = 0" by code_simp
  from map_page_translates [OF demo_pt_ok, of "0x40201000" "0x7000", OF _ _ _ this] show ?thesis by auto
qed

text \<open>
  C23: With three free frames, \<^verbatim>\<open>map_page\<close> succeeds unless the page lies inside a 2 MiB or
  1 GiB page; in particular an existing 4 KiB mapping is replaced. The page's leaf entry is then
  exactly the frame with the flags and the present bit.
\<close>

theorem map_page_succeeds:
  assumes "pt_ok R pm m root" and "3 \<le> card (pmm_free pm)"
    and "case leaf m root vaddr of None \<Rightarrow> True | Some (n, e) \<Rightarrow> n = 12"
  shows "\<exists>pm' m'. map_page pm m root vaddr paddr flags = Some (0, pm', m') \<and> pt_ok R pm' m' root \<and>
    leaf m' root vaddr = Some (12, (paddr AND PHYS_ADDR_MASK) OR flags OR PRESENT_BIT)"
proof -
  obtain r pm' m' where mp: "map_page pm m root vaddr paddr flags = Some (r, pm', m')"
      "map_page_post R pm m root vaddr paddr flags (r, pm', m')"
    using map_page_spec [OF assms(1), of vaddr paddr flags] by auto
  have "pmm_free pm' \<noteq> {}" if "r = - 1"
    using mp(2) assms(2) that spends_vtables [of 2 vaddr root pm m pm' m'] by (auto simp: map_page_post_def)
  then have "\<not> no_way pm' m root vaddr paddr" if "r = - 1"
    using assms(3) that by (auto simp: no_way_def split: option.splits)
  then show ?thesis
    using mp assms(3) by (auto simp: map_page_post_def init_pt_entry_def or.assoc split: option.splits)
qed

theorem map_page_succeeds_witness:
  "\<exists>pm' m'. map_page demo_pm1 demo_mem demo_root 0x40201000 0x7000 READ_WRITE_BIT = Some (0, pm', m') \<and>
    leaf m' demo_root 0x40201000 = Some (12, 0x7003)"
proof -
  have "(0x7000 AND PHYS_ADDR_MASK) OR READ_WRITE_BIT OR PRESENT_BIT = 0x7003" by code_simp
  then show ?thesis
    using map_page_succeeds [OF demo_pt_ok, of "0x40201000" "0x7000" READ_WRITE_BIT] demo_leaf
    by (auto simp: demo_free1)
qed

text \<open>
  C22: \<^verbatim>\<open>map_large_page\<close> always returns. When it returns 0 the 2 MiB from the virtual
  address on translate to consecutive physical addresses and every other address translates as
  before; when it returns -1 (no frame, a 1 GiB page or a page table in the way) no translation
  changed.
\<close>

theorem map_large_page_translates:
  assumes "pt_ok R pm m root" and "unat vaddr mod 0x200000 = 0" and "unat paddr mod 0x200000 = 0"
    and "unat paddr < 2 ^ 52" and "flags AND PHYS_ADDR_MASK = 0"
  shows "\<exists>r pm' m'. map_large_page pm m root vaddr paddr flags = Some (r, pm', m') \<and> pt_ok R pm' m' root \<and>
    keeps R m m' \<and> pmm_free pm' \<subseteq> pmm_free pm \<and> card (pmm_free pm) \<le> card (pmm_free pm') + 2 \<and>
    (r = 0 \<and> (\<forall>va. walk m' root va =
        (if voff vaddr va < 0x200000 then Some (paddr + of_nat (voff vaddr va)) else walk m root va)) \<or>
     r = - 1 \<and> (\<forall>va. walk m' root va = walk m root va))"
proof -
  obtain r pm' m' where mp: "map_large_page pm m root vaddr paddr flags = Some (r, pm', m')"
      "map_large_page_post R pm m root vaddr paddr flags (r, pm', m')"
    using map_large_page_spec [OF assms(1), of vaddr paddr flags] by auto
  have "4096 dvd unat paddr"
    by (rule dvd_trans [of _ "0x200000"]) (use assms(3) in \<open>simp_all add: mod_eq_0_iff_dvd\<close>)
  then have fr: "frame_like paddr" using assms(4) by (simp add: frame_like_def mod_eq_0_iff_dvd)
  have span: "maps_span m m' root vaddr paddr 0x200000" if "r = 0"
    using map_large_page_span [OF mp(2) that fr assms(5)] assms(2,3)
      unat_mod_uint [of vaddr 21] unat_mod_uint [of paddr 21] by simp
  have "pt_ok R pm' m' root" "keeps R m m'" "pmm_free pm' \<subseteq> pmm_free pm" "card (pmm_free pm) \<le> card (pmm_free pm') + 2"
    and r: "r = 0 \<or> r = - 1 \<and> same_walk m m' root"
    using mp(2) spends_vtables [of 2 vaddr root pm m pm' m'] by (auto simp: map_large_page_post_def takes_def)
  moreover have "r = 0 \<and> (\<forall>va. walk m' root va =
        (if voff vaddr va < 0x200000 then Some (paddr + of_nat (voff vaddr va)) else walk m root va)) \<or>
     r = - 1 \<and> (\<forall>va. walk m' root va = walk m root va)"
    using r
  proof
    assume "r = 0"
    then show ?thesis using maps_span_walk [OF span] by blast
  qed (use same_walk_walk in blast)
  ultimately show ?thesis using mp(1) by blast
qed

theorem map_large_page_translates_witness:
  "\<exists>r pm' m'. map_large_page demo_pm1 demo_mem demo_root 0x40200000 0x600000 READ_WRITE_BIT = Some (r, pm', m') \<and>
    pt_ok {} pm' m' demo_root \<and>
    (r = 0 \<and> (\<forall>va. walk m' demo_root va =
        (if voff 0x40200000 va < 0x200000 then Some (0x600000 + of_nat (voff 0x40200000 va))
         else walk demo_mem demo_root va)) \<or>
     r = - 1 \<and> (\<forall>va. walk m' demo_root va = walk demo_mem demo_root va))"
proof -
  have "READ_WRITE_BIT AND PHYS_ADDR_MASK = 0" by code_simp
  from map_large_page_translates [OF demo_pt_ok, of "0x40200000" "0x600000", OF _ _ _ this] show ?thesis by auto
qed

text \<open>
  C4: \<^verbatim>\<open>map_range\<close> terminates whenever the range does not reach the last page of the
  address space and fits the 48-bit virtual and 52-bit physical spaces. When it returns 0, every
  byte of the pages the range touches translates to the corresponding physical byte and all other
  addresses translate as before; when it returns -1, that holds for a proper initial part of the
  range, and no frame is left or a large page was in the way at the next page. In both cases every frame
  that was taken is now a table on the walk of an address of the range, and none is lost; a range of
  \<open>n\<close> pages takes at most about one for 512 pages.
\<close>

theorem map_range_translates:
  assumes "pt_ok R pm m root" and "unat vaddr + unat len \<le> 2 ^ 64 - 4096"
    and "span_len vaddr len \<le> 2 ^ 48" and "unat (page_base paddr) + span_len vaddr len \<le> 2 ^ 52"
    and "flags AND PHYS_ADDR_MASK = 0"
  shows "\<exists>r pm' m' d. map_range pm m root vaddr paddr len flags = Some (r, pm', m') \<and>
    pt_ok R pm' m' root \<and> keeps R m m' \<and> pmm_free pm' \<subseteq> pmm_free pm \<and>
    spends (range_tables (page_base vaddr) (span_len vaddr len)) root pm m pm' m' \<and>
    card (pmm_free pm) \<le> card (pmm_free pm') + frame_cost (span_len vaddr len) \<and>
    (\<forall>va. walk m' root va =
      (if voff (page_base vaddr) va < d then Some (page_base paddr + of_nat (voff (page_base vaddr) va))
       else walk m root va)) \<and>
    (r = 0 \<and> d = round_up (span_len vaddr len) \<or>
     r = - 1 \<and> d < span_len vaddr len \<and> no_way pm' m root (page_base vaddr + of_nat d) (page_base paddr + of_nat d))"
proof -
  have "map_range_pre vaddr paddr len flags" using assms by (simp add: map_range_pre_def)
  then obtain r pm' m' where mr: "map_range pm m root vaddr paddr len flags = Some (r, pm', m')"
      "map_range_post R pm m root (page_base vaddr) (page_base paddr) (span_len vaddr len) (r, pm', m')"
    using map_range_spec [OF assms(1)] by (metis prod_cases3)
  then obtain d where "maps_span m m' root (page_base vaddr) (page_base paddr) d"
      "r = 0 \<and> d = round_up (span_len vaddr len) \<or>
       r = - 1 \<and> d < span_len vaddr len \<and> no_way pm' m root (page_base vaddr + of_nat d) (page_base paddr + of_nat d)"
    by (auto simp: map_range_post_def)
  then show ?thesis using mr maps_span_walk spends_range by (auto simp: map_range_post_def takes_def)
qed

theorem map_range_translates_witness:
  "\<exists>r pm' m' d. map_range demo_pm1 demo_mem demo_root 0x1FF800 0x1FF000 0x201000 READ_WRITE_BIT = Some (r, pm', m') \<and>
    pt_ok {} pm' m' demo_root \<and>
    (\<forall>va. walk m' demo_root va =
      (if voff 0x1FF000 va < d then Some (0x1FF000 + of_nat (voff 0x1FF000 va)) else walk demo_mem demo_root va)) \<and>
    (r = 0 \<and> d = 0x202000 \<or> r = - 1 \<and> d < 0x201800)"
proof -
  have f: "READ_WRITE_BIT AND PHYS_ADDR_MASK = 0" by code_simp
  have b: "page_base 0x1FF800 = 0x1FF000" "page_base 0x1FF000 = 0x1FF000" by code_simp+
  have l: "span_len 0x1FF800 0x201000 = 0x201800" "round_up 0x201800 = 0x202000"
    by (simp_all add: span_len_def round_up_def)
  from map_range_translates [OF demo_pt_ok, of "0x1FF800" "0x201000" "0x1FF000", OF _ _ _ f]
  show ?thesis unfolding b l by auto
qed

text \<open>
  C25: \<^verbatim>\<open>map_range\<close> succeeds when more frames are free than the range can need tables (three for
  one page, about one for 512 pages of a long range) and no 2 MiB or 1 GiB page covers a part of it.
\<close>

theorem map_range_succeeds:
  assumes "pt_ok R pm m root" and "map_range_pre vaddr paddr len flags"
    and "frame_cost (span_len vaddr len) < card (pmm_free pm)"
    and "\<forall>d < span_len vaddr len. case leaf m root (page_base vaddr + of_nat d) of None \<Rightarrow> True | Some (n, e) \<Rightarrow> n = 12"
  shows "\<exists>pm' m'. map_range pm m root vaddr paddr len flags = Some (0, pm', m') \<and> pt_ok R pm' m' root \<and>
    (\<forall>va. walk m' root va =
      (if voff (page_base vaddr) va < round_up (span_len vaddr len)
       then Some (page_base paddr + of_nat (voff (page_base vaddr) va)) else walk m root va))"
proof -
  obtain r pm' m' where mr: "map_range pm m root vaddr paddr len flags = Some (r, pm', m')"
      "map_range_post R pm m root (page_base vaddr) (page_base paddr) (span_len vaddr len) (r, pm', m')"
    using map_range_spec [OF assms(1,2)] by (metis prod_cases3)
  note post = mr(2) [unfolded map_range_post_def prod.case]
  then have "card (pmm_free pm) \<le> card (pmm_free pm') + frame_cost (span_len vaddr len)"
    using spends_range by blast
  then have "pmm_free pm' \<noteq> {}" using assms(3) by auto
  then have "\<not> no_way pm' m root (page_base vaddr + of_nat d) q" if "d < span_len vaddr len" for d q
    using assms(4) that by (auto simp: no_way_def split: option.splits)
  then have "r = 0 \<and> maps_span m m' root (page_base vaddr) (page_base paddr) (round_up (span_len vaddr len))"
    using post by blast
  then show ?thesis using mr(1) post maps_span_walk by auto
qed

theorem map_range_succeeds_witness:
  "\<exists>pm' m'. map_range demo_pm1 demo_mem demo_root 0x40201000 0x7000 0x1000 READ_WRITE_BIT = Some (0, pm', m') \<and>
    walk m' demo_root 0x40201123 = Some 0x7123"
proof -
  have b: "page_base 0x40201000 = 0x40201000" "page_base 0x7000 = 0x7000" by code_simp+
  have l: "span_len 0x40201000 0x1000 = 4096" "round_up 4096 = 4096" "frame_cost 4096 = 3"
    by (simp_all add: span_len_def round_up_def frame_cost_def level_cost_def)
  have "map_range_pre 0x40201000 0x7000 0x1000 READ_WRITE_BIT"
    unfolding map_range_pre_def l b by (simp, code_simp)
  moreover have "voff 0x40201000 0x40201123 = 0x123" by (simp add: voff_def)
  ultimately show ?thesis
    using map_range_succeeds [OF demo_pt_ok, of "0x40201000" "0x7000" "0x1000" READ_WRITE_BIT] demo_leaf
    unfolding l b by (auto simp: demo_free1)
qed



end
