(* ===== verification/Heap.thy ===== *)
theory Heap
  imports Paging_Props
begin

text \<open>
  The heap, \<^verbatim>\<open>kernel/memory/heap.c\<close>: a range of virtual addresses is backed by a run of
  contiguous frames. The client of both the frame allocator and the paging code.
\<close>

section \<open>Operations\<close>

text \<open>The loop that gives the frames back after a failed mapping.\<close>

function free_frames :: "pmm \<Rightarrow> u64 \<Rightarrow> u64 \<Rightarrow> nat \<Rightarrow> pmm option" where
  "free_frames pm paddr pages i =
     (if i < unat pages
      then do {
        pm' \<leftarrow> frame_free pm (paddr + of_nat i * page_size);
        free_frames pm' paddr pages (Suc i)
      }
      else Some pm)"
  by pat_completeness auto
termination
  by (relation "measure (\<lambda>(pm, paddr, pages, i). unat pages - i)") auto

definition get_heap :: "pmm \<Rightarrow> mem \<Rightarrow> u64 \<Rightarrow> u64 \<Rightarrow> u64 \<Rightarrow> (int \<times> pmm \<times> mem) option" where
  "get_heap pm m pml4 vaddr len = do {
     let pages = len div page_size;
     let pages = (if pages * page_size < len then pages + 1 else pages);
     let len = pages * page_size;
     (paddr, pm) \<leftarrow> frames_allocate pm pages;
     if paddr = 0xFFFFFFFFFFFFFFFF then Some (- 1, pm, m)
     else do {
       (r, pm, m) \<leftarrow> map_range pm m pml4 vaddr paddr len READ_WRITE_BIT;
       if r \<noteq> 0 then do {
         pm \<leftarrow> free_frames pm paddr pages 0;
         Some (- 1, pm, m)
       }
       else Some (0, pm, m)
     }
   }"

declare free_frames.simps [simp del]

section \<open>Releasing a run\<close>

lemma run_frames_Suc: "run_frames a (Suc n) = insert a (run_frames (a + page_size) n)"
proof -
  have "{0..<Suc n} = insert 0 (Suc ` {0..<n})" by (simp add: atLeast0_lessThan_Suc_eq_insert_0)
  then have "run_frames a (Suc n) = insert a ((\<lambda>i. a + of_nat (Suc i) * page_size) ` {0..<n})"
    unfolding run_frames_def by (simp only: image_insert image_image) simp
  also have "(\<lambda>i. a + of_nat (Suc i) * page_size) ` {0..<n} = run_frames (a + page_size) n"
    unfolding run_frames_def by (intro image_cong) (simp_all add: algebra_simps)
  finally show ?thesis .
qed

lemma free_frames_release:
  assumes "pmm_ok pm" and "i \<le> unat pages" and "run_frames (paddr + of_nat i * page_size) (unat pages - i) \<subseteq> pmm_managed pm"
  shows "\<exists>pm'. free_frames pm paddr pages i = Some pm' \<and> pmm_ok pm' \<and>
    pmm_free pm' = pmm_free pm \<union> run_frames (paddr + of_nat i * page_size) (unat pages - i) \<and>
    pmm_managed pm' = pmm_managed pm"
  using assms
proof (induction pm paddr pages i rule: free_frames.induct)
  case (1 pm paddr pages i)
  let ?a = "paddr + of_nat i * page_size"
  show ?case
  proof (cases "i < unat pages")
    case True
    then obtain k where k: "unat pages - i = Suc k" "unat pages - Suc i = k" by (cases "unat pages - i") auto
    have run: "run_frames ?a (Suc k) = insert ?a (run_frames (paddr + of_nat (Suc i) * page_size) k)"
      unfolding run_frames_Suc by (simp add: algebra_simps)
    then have "?a \<in> pmm_managed pm" using "1.prems"(3) k by auto
    then obtain pm1 where pm1: "frame_free pm ?a = Some pm1" "pmm_ok pm1"
        "pmm_free pm1 = insert ?a (pmm_free pm)" "pmm_managed pm1 = pmm_managed pm"
      using pm.release_ok [OF "1.prems"(1)] by blast
    have "\<exists>pm'. free_frames pm1 paddr pages (Suc i) = Some pm' \<and> pmm_ok pm' \<and>
        pmm_free pm' = pmm_free pm1 \<union> run_frames (paddr + of_nat (Suc i) * page_size) (unat pages - Suc i) \<and>
        pmm_managed pm' = pmm_managed pm1"
      using "1.prems"(3) True run k pm1 by (intro "1.IH") auto
    then show ?thesis
      using True pm1 k run by (subst free_frames.simps) auto
  next
    case False
    then show ?thesis using "1.prems" by (subst free_frames.simps) (simp add: run_frames_def)
  qed
qed

lemma run_bounds:
  assumes "pmm_ok pm" and "run_frames a n \<subseteq> pmm_managed pm" and "0 < n"
  shows "unat a mod 4096 = 0" and "unat a + n * 4096 \<le> 2 ^ 52"
proof -
  have in_run: "a + of_nat i * page_size \<in> pmm_managed pm" if "i < n" for i
    using assms(2) that by (auto simp: run_frames_def)
  have at: "unat (a + of_nat i * page_size) = unat a + i * 4096" if "i < n" for i
    using that
  proof (induction i)
    case (Suc i)
    have "unat (a + of_nat i * page_size) < 2 ^ 52"
      using pmm_managed_bounds [OF assms(1) in_run [of i]] Suc.prems by simp
    then have "unat (a + of_nat i * page_size + of_nat 4096) = unat (a + of_nat i * page_size) + 4096"
      by (intro unat_add_of_nat) simp
    then show ?case using Suc by (simp add: algebra_simps)
  qed simp
  show al: "unat a mod 4096 = 0" using pmm_managed_bounds [OF assms(1) in_run [OF assms(3)]] by simp
  have last: "unat a + (n - 1) * 4096 < 2 ^ 52"
    using pmm_managed_bounds [OF assms(1) in_run [of "n - 1"]] at [of "n - 1"] assms(3) by simp
  obtain k where k: "unat a = 4096 * k" using al by (auto simp: mod_eq_0_iff_dvd elim: dvdE)
  have "(2 :: nat) ^ 52 = 4096 * 2 ^ 40" by simp
  then have "k + (n - 1) < 2 ^ 40" using last unfolding k by simp
  then show "unat a + n * 4096 \<le> 2 ^ 52" using assms(3) unfolding k by simp
qed

section \<open>get_heap\<close>

text \<open>The number of pages that \<open>len\<close> bytes need.\<close>

definition heap_pages :: "u64 \<Rightarrow> nat" where
  "heap_pages len = (unat len + 4095) div 4096"

lemma heap_pages_round_up: "heap_pages len * 4096 = round_up (unat len)"
  by (simp add: heap_pages_def round_up_def)

lemma ceil_div: "(n + 4095) div 4096 = (if n div 4096 * 4096 < n then Suc (n div 4096) else n div 4096)" for n :: nat
proof -
  have n: "n = n div 4096 * 4096 + n mod 4096" by simp
  have "(n + 4095) div 4096 = n div 4096 + (n mod 4096 + 4095) div 4096"
    by (subst (1) n) (simp only: add.assoc div_mult_self3 div_mult_self1 add.commute [of "_ * 4096"])
  also have "(n mod 4096 + 4095) div 4096 = (if n mod 4096 = 0 then 0 else 1)"
    by (auto intro!: div_nat_eqI simp: less_Suc_eq_le)
  finally show ?thesis using n by (auto split: if_splits)
qed

lemma get_heap_pages:
  assumes "round_up (unat len) < 2 ^ 64"
  shows "(if len div page_size * page_size < len then len div page_size + 1 else len div page_size) =
      of_nat (heap_pages len)" (is "?p = _")
    and "unat (of_nat (heap_pages len) :: u64) = heap_pages len"
    and "unat (of_nat (heap_pages len) * page_size :: u64) = heap_pages len * 4096"
proof -
  have lt: "heap_pages len * 4096 < 2 ^ 64" using assms by (simp add: heap_pages_round_up)
  then show u: "unat (of_nat (heap_pages len) :: u64) = heap_pages len" by (intro unat_of_nat_u64) simp
  show "unat (of_nat (heap_pages len) * page_size :: u64) = heap_pages len * 4096"
    using lt u by (subst unat_mult_nowrap) simp_all
  have d: "unat (len div page_size) = unat len div 4096" by (simp add: unat_div)
  have m: "unat (len div page_size * page_size) = unat len div 4096 * 4096"
  proof -
    have "unat len div 4096 < 4503599627370496"
      by (rule less_mult_imp_div_less) (use unat_lt_u64 [of len] in simp)
    then show ?thesis by (subst unat_mult_nowrap) (simp_all add: d)
  qed
  have "len div page_size * page_size < len \<longleftrightarrow> unat len div 4096 * 4096 < unat len"
    by (simp only: word_less_nat_alt m)
  moreover have "len div page_size = of_nat (unat len div 4096)"
    by (simp flip: d)
  ultimately show "?p = of_nat (heap_pages len)"
    unfolding heap_pages_def ceil_div by simp
qed

text \<open>Frames that were free can be set aside; frames set aside can be given back.\<close>

lemma pt_ok_set_aside:
  assumes "pt_ok R pm m root" and "pmm_ok pm1" and "F \<subseteq> pmm_free pm" and "pmm_free pm1 = pmm_free pm - F"
  shows "pt_ok (R \<union> F) pm1 m root"
proof -
  note p = assms(1) [unfolded pt_ok_def]
  have "\<forall>f \<in> pmm_free pm. unat f mod 4096 = 0"
    using pmm_managed_bounds pmm_free_managed p by blast
  moreover have "pmm_free pm1 \<union> (R \<union> F) = pmm_free pm \<union> R" using assms(3,4) by auto
  ultimately show ?thesis using p assms(2,3,4) by (auto simp: pt_ok_def)
qed

lemma pt_ok_give_back:
  assumes "pt_ok (R \<union> F) pm m root" and "pmm_ok pm1" and "pmm_free pm1 = pmm_free pm \<union> F"
    and "R \<inter> F = {}" and "0 \<notin> F"
  shows "pt_ok R pm1 m root"
proof -
  note p = assms(1) [unfolded pt_ok_def]
  have "pmm_free pm1 \<union> R = pmm_free pm \<union> (R \<union> F)" using assms(3) by auto
  then show ?thesis using p assms(2-5) by (auto simp: pt_ok_def)
qed

lemma keeps_mono: "keeps R m m' \<Longrightarrow> S \<subseteq> R \<Longrightarrow> keeps S m m'"
  by (auto simp: keeps_def)

lemma heap_flags: "READ_WRITE_BIT AND PHYS_ADDR_MASK = 0"
  by code_simp

text \<open>Mapping a run of frames that has just been allocated.\<close>

lemma map_run:
  assumes "pt_ok R pm m root" and "unat vaddr mod 4096 = 0" and "0 < heap_pages len"
    and "unat vaddr + round_up (unat len) \<le> 2 ^ 64 - 4096" and "round_up (unat len) \<le> 2 ^ 48"
    and "run_frames a (heap_pages len) \<subseteq> pmm_free pm" and "pmm_ok pm1"
    and "pmm_free pm1 = pmm_free pm - run_frames a (heap_pages len)"
  shows "\<exists>res. map_range pm1 m root vaddr a (of_nat (heap_pages len) * page_size) READ_WRITE_BIT = Some res \<and>
    map_range_post (R \<union> run_frames a (heap_pages len)) pm1 m root vaddr a (heap_pages len * 4096) res"
proof -
  have gp: "unat (of_nat (heap_pages len) * page_size :: u64) = heap_pages len * 4096"
    using assms(5) by (intro get_heap_pages(3)) simp
  have "pmm_ok pm" using assms(1) by (simp add: pt_ok_def)
  then have a: "unat a mod 4096 = 0" "unat a + heap_pages len * 4096 \<le> 2 ^ 52"
    using run_bounds [of pm a "heap_pages len"] assms(3,6) pmm_free_managed by blast+
  note base = page_base_aligned_id [OF a(1)] page_base_aligned_id [OF assms(2)]
  have sp: "span_len vaddr (of_nat (heap_pages len) * page_size) = heap_pages len * 4096"
    using assms(2) gp by (simp add: span_len_def)
  have "map_range_pre vaddr a (of_nat (heap_pages len) * page_size) READ_WRITE_BIT"
    using assms(4,5) a gp unfolding map_range_pre_def sp base by (simp add: heap_pages_round_up heap_flags)
  from map_range_spec [OF pt_ok_set_aside [OF assms(1,7,6,8)] this] show ?thesis
    unfolding sp base .
qed

text \<open>
  The account of all frames: apart from \<open>n\<close> frames that are held, every frame that left the free set is a new table at a
  path in \<open>P\<close>, so that no frame is lost.
\<close>

definition spends_and_holds :: "pidx list set \<Rightarrow> u64 \<Rightarrow> pmm \<Rightarrow> mem \<Rightarrow> pmm \<Rightarrow> mem \<Rightarrow> nat \<Rightarrow> bool" where
  "spends_and_holds P root pm m pm' m' n \<longleftrightarrow> tabs m root \<subseteq> tabs m' root \<and> tabs m' root \<subseteq> tabs m root \<union> P \<and>
     card (pmm_free pm) + card (tabs m root) = card (pmm_free pm') + card (tabs m' root) + n"

lemma card_run_frames:
  assumes "pmm_ok pm" and "run_frames a n \<subseteq> pmm_managed pm"
  shows "card (run_frames a n) = n"
proof (cases "n = 0")
  case False
  then have b: "unat a + n * 4096 \<le> 2 ^ 52" using run_bounds(2) [OF assms] by simp
  have "unat (a + of_nat i * page_size) = unat a + i * 4096" if "i < n" for i
  proof -
    have "unat (a + of_nat (i * 4096)) = unat a + i * 4096" using that b by (intro unat_add_of_nat) simp
    then show ?thesis by simp
  qed
  then have "inj_on (\<lambda>i. a + of_nat i * page_size) {0..<n}"
    by (intro inj_onI) (metis add_left_imp_eq atLeastLessThan_iff mult_cancel2 zero_neq_numeral)
  then show ?thesis unfolding run_frames_def by (simp add: card_image)
qed (simp add: run_frames_def)

text \<open>What a call of \<^verbatim>\<open>get_heap\<close> leaves behind.\<close>

definition heap_post :: "u64 set \<Rightarrow> pmm \<Rightarrow> mem \<Rightarrow> u64 \<Rightarrow> u64 \<Rightarrow> u64 \<Rightarrow> int \<times> pmm \<times> mem \<Rightarrow> bool" where
  "heap_post R pm m root vaddr len res \<longleftrightarrow> (case res of (r, pm', m') \<Rightarrow>
     keeps R m m' \<and> pmm_free pm' \<subseteq> pmm_free pm \<and> pmm_managed pm' = pmm_managed pm \<and>
     spends_and_holds (range_tables vaddr (round_up (unat len))) root pm m pm' m' (if r = 0 then heap_pages len else 0) \<and>
     (\<exists>a d. (\<forall>va. walk m' root va =
        (if voff vaddr va < d then Some (a + of_nat (voff vaddr va)) else walk m root va)) \<and>
      (r = 0 \<and> d = round_up (unat len) \<and> run_frames a (heap_pages len) \<subseteq> pmm_free pm \<and>
         pt_ok (R \<union> run_frames a (heap_pages len)) pm' m' root \<and> keeps (run_frames a (heap_pages len)) m m' \<or>
       r = - 1 \<and> d < round_up (unat len) \<and> pt_ok R pm' m' root \<and>
         (if has_run pm (heap_pages len)
          then run_frames a (heap_pages len) \<subseteq> pmm_free pm \<and> run_frames a (heap_pages len) \<subseteq> pmm_free pm'
          else pm' = pm \<and> m' = m \<and> d = 0))))"

lemma heap_mapped:
  assumes "map_range_post (R \<union> run_frames a (heap_pages len)) pm1 m root vaddr a (heap_pages len * 4096) (0, pm2, m2)"
    and "run_frames a (heap_pages len) \<subseteq> pmm_free pm" and free: "pmm_free pm1 = pmm_free pm - run_frames a (heap_pages len)"
    and "pmm_managed pm1 = pmm_managed pm" and "pmm_ok pm"
  shows "heap_post R pm m root vaddr len (0, pm2, m2)"
proof -
  have "card (pmm_free pm) = card (pmm_free pm1) + card (run_frames a (heap_pages len))"
    unfolding free using assms(2) by (subst card_Diff_subset) (auto intro: finite_subset simp: card_mono)
  then have cost: "card (pmm_free pm) = card (pmm_free pm1) + heap_pages len"
    using card_run_frames [OF assms(5)] assms(2) pmm_free_managed by (metis subset_trans)
  note post = assms(1) [unfolded map_range_post_def prod.case]
  have "round_up (heap_pages len * 4096) = round_up (unat len)"
    using round_up_add [of "heap_pages len" 0] heap_pages_round_up [of len] by (simp add: mult.commute)
  then have "maps_span m m2 root vaddr a (round_up (unat len))" using post by auto
  note walk = maps_span_walk [OF this]
  have "keeps R m m2" "keeps (run_frames a (heap_pages len)) m m2"
    using post keeps_mono by blast+
  moreover have "pmm_free pm2 \<subseteq> pmm_free pm" "pmm_managed pm2 = pmm_managed pm"
    using post free assms(4) by (auto simp: takes_def)
  moreover have "spends_and_holds (range_tables vaddr (round_up (unat len))) root pm m pm2 m2 (heap_pages len)"
    using post cost by (simp add: spends_def spends_and_holds_def heap_pages_round_up)
  ultimately show ?thesis
    unfolding heap_post_def prod.case if_P [OF refl] using post assms(2) walk by blast
qed

lemma heap_failed:
  assumes "map_range_post (R \<union> run_frames a (heap_pages len)) pm1 m root vaddr a (heap_pages len * 4096) (r, pm2, m2)"
    and "run_frames a (heap_pages len) \<subseteq> pmm_free pm" and free: "pmm_free pm1 = pmm_free pm - run_frames a (heap_pages len)"
    and "pmm_managed pm1 = pmm_managed pm" and "r \<noteq> 0" and "R \<inter> pmm_free pm = {}" and "0 \<notin> pmm_free pm"
    and "unat (of_nat (heap_pages len) :: u64) = heap_pages len" and run: "has_run pm (heap_pages len)"
  shows "\<exists>pm3. free_frames pm2 a (of_nat (heap_pages len)) 0 = Some pm3 \<and>
    heap_post R pm m root vaddr len (- 1, pm3, m2)"
proof -
  let ?run = "run_frames a (heap_pages len)"
  note post = assms(1) [unfolded map_range_post_def prod.case]
  then have ok: "pmm_ok pm2" and tk: "takes pm1 pm2" and pt: "pt_ok (R \<union> ?run) pm2 m2 root"
    and "keeps (R \<union> ?run) m m2" by (auto simp: pt_ok_def)
  then have k: "keeps R m m2" using keeps_mono by blast
  have "?run \<subseteq> pmm_managed pm2" using assms(2,4) tk pmm_free_managed by (fastforce simp: takes_def)
  then obtain pm3 where pm3: "free_frames pm2 a (of_nat (heap_pages len)) 0 = Some pm3" "pmm_ok pm3"
      "pmm_free pm3 = pmm_free pm2 \<union> ?run" "pmm_managed pm3 = pmm_managed pm2"
    using free_frames_release [OF ok, of 0 "of_nat (heap_pages len)" a] assms(8) by auto
  have pt3: "pt_ok R pm3 m2 root"
    using pt_ok_give_back [OF pt pm3(2,3)] assms(2,6,7) by blast
  obtain d where d: "d < heap_pages len * 4096" "maps_span m m2 root vaddr a d" using post assms(5) by auto
  have "d < round_up (unat len)" using d(1) heap_pages_round_up by simp
  moreover have "pmm_free pm3 \<subseteq> pmm_free pm" "pmm_managed pm3 = pmm_managed pm"
    using pm3(3,4) tk assms(2,4) free by (auto simp: takes_def)
  moreover have "spends_and_holds (range_tables vaddr (round_up (unat len))) root pm m pm3 m2 0"
  proof -
    have "card (pmm_free pm) = card (pmm_free pm1) + card ?run"
      unfolding free using assms(2) by (subst card_Diff_subset) (auto intro: finite_subset simp: card_mono)
    moreover have "card (pmm_free pm3) = card (pmm_free pm2) + card ?run"
      unfolding pm3(3) using free tk finite_subset [OF assms(2)] by (intro card_Un_disjoint) (auto simp: takes_def)
    ultimately show ?thesis using post by (simp add: spends_def spends_and_holds_def heap_pages_round_up)
  qed
  moreover have "?run \<subseteq> pmm_free pm3" using pm3(3) by blast
  ultimately have "heap_post R pm m root vaddr len (- 1, pm3, m2)"
    unfolding heap_post_def prod.case if_P [OF run] using k pt3 maps_span_walk [OF d(2)] assms(2) by auto
  then show ?thesis using pm3(1) by blast
qed

lemma get_heap_spec:
  assumes "pt_ok R pm m root" and "unat vaddr mod 4096 = 0" and "len \<noteq> 0"
    and "unat vaddr + round_up (unat len) \<le> 2 ^ 64 - 4096" and "round_up (unat len) \<le> 2 ^ 48"
  shows "\<exists>res. get_heap pm m root vaddr len = Some res \<and> heap_post R pm m root vaddr len res"
proof -
  let ?n = "heap_pages len" and ?run = "\<lambda>a. run_frames a (heap_pages len)"
  have "0 < unat len" using assms(3) by (simp add: unat_gt_0)
  then have n: "0 < ?n" "0 < round_up (unat len)"
    using heap_pages_round_up [of len] by (simp_all add: heap_pages_def div_greater_zero_iff)
  have ok: "pmm_ok pm" "0 \<notin> pmm_free pm" "R \<inter> pmm_free pm = {}" using assms(1) by (simp_all add: pt_ok_def)
  have "round_up (unat len) < 2 ^ 64" using assms(5) by simp
  note gp = get_heap_pages [OF this]
  show ?thesis
  proof (cases "has_run pm ?n")
    case False
    then have "frames_allocate pm (of_nat ?n) = Some (NO_FRAME, pm)" using pm.run_none [OF ok(1)] gp(2) by simp
    then have "get_heap pm m root vaddr len = Some (- 1, pm, m)"
      unfolding get_heap_def Let_def gp(1) by simp
    moreover have "heap_post R pm m root vaddr len (- 1, pm, m)"
      unfolding heap_post_def prod.case using assms(1) n(2) False by (auto simp: spends_and_holds_def intro!: exI [of _ 0])
    ultimately show ?thesis by blast
  next
    case True
    have "of_nat ?n \<noteq> (0 :: u64)" using n(1) gp(2) by (metis less_irrefl unsigned_0)
    with pm.run_some [OF ok(1), of "of_nat ?n"] True gp(2) obtain a pm1 where
      a: "frames_allocate pm (of_nat ?n) = Some (a, pm1)" "pmm_ok pm1" "?run a \<subseteq> pmm_free pm"
        "pmm_free pm1 = pmm_free pm - ?run a" "pmm_managed pm1 = pmm_managed pm" by auto
    have "a \<in> pmm_managed pm" using a(3) n(1) pmm_free_managed by (fastforce simp: run_frames_def)
    then have nn: "a \<noteq> NO_FRAME" using pm.none_unmanaged [OF ok(1)] by auto
    obtain r pm2 m2 where mr: "map_range pm1 m root vaddr a (of_nat ?n * page_size) READ_WRITE_BIT = Some (r, pm2, m2)"
        and post: "map_range_post (R \<union> ?run a) pm1 m root vaddr a (?n * 4096) (r, pm2, m2)"
      using map_run [OF assms(1,2) n(1) assms(4,5) a(3,2,4)] by (metis prod_cases3)
    note has = True
    show ?thesis
    proof (cases "r = 0")
      case True
      then have "get_heap pm m root vaddr len = Some (0, pm2, m2)"
        using a(1) nn mr unfolding get_heap_def Let_def gp(1) by simp
      then show ?thesis using heap_mapped [OF post [unfolded True] a(3,4,5) ok(1)] by blast
    next
      case False
      from heap_failed [OF post a(3,4,5) False ok(3,2) gp(2) has] show ?thesis
        using a(1) nn mr False unfolding get_heap_def Let_def gp(1) by auto
    qed
  qed
qed

section \<open>Properties\<close>

text \<open>
  C11: \<^verbatim>\<open>get_heap\<close> on a page boundary always returns. On success the range is backed by
  contiguous frames that were free, are no longer free, hold no page table and keep their contents,
  and every address outside the range translates as before. It fails without a change when no block has a run of so many
  free frames; otherwise the frames of the run are free again after a failure, though a part of the range may stay mapped to
  them. No frame is lost: apart from the heap's own frames on success, every frame that is no longer free is a new table on
  the walk of an address of the range.
\<close>

theorem get_heap_backs:
  assumes "pt_ok R pm m root" and "unat vaddr mod 4096 = 0" and "len \<noteq> 0"
    and "unat vaddr + round_up (unat len) \<le> 2 ^ 64 - 4096" and "round_up (unat len) \<le> 2 ^ 48"
  shows "\<exists>r pm' m' a d. get_heap pm m root vaddr len = Some (r, pm', m') \<and> keeps R m m' \<and>
    pmm_free pm' \<subseteq> pmm_free pm \<and>
    spends_and_holds (range_tables vaddr (round_up (unat len))) root pm m pm' m' (if r = 0 then heap_pages len else 0) \<and>
    (\<forall>va. walk m' root va =
      (if voff vaddr va < d then Some (a + of_nat (voff vaddr va)) else walk m root va)) \<and>
    (r = 0 \<and> d = round_up (unat len) \<and> run_frames a (heap_pages len) \<subseteq> pmm_free pm \<and>
       pt_ok (R \<union> run_frames a (heap_pages len)) pm' m' root \<and> keeps (run_frames a (heap_pages len)) m m' \<or>
     r = - 1 \<and> d < round_up (unat len) \<and> pt_ok R pm' m' root \<and>
       (if has_run pm (heap_pages len)
        then run_frames a (heap_pages len) \<subseteq> pmm_free pm \<and> run_frames a (heap_pages len) \<subseteq> pmm_free pm'
        else pm' = pm \<and> m' = m \<and> d = 0))"
proof -
  obtain r pm' m' where "get_heap pm m root vaddr len = Some (r, pm', m')"
      "heap_post R pm m root vaddr len (r, pm', m')"
    using get_heap_spec [OF assms] by (metis prod_cases3)
  then show ?thesis unfolding heap_post_def prod.case by blast
qed

theorem get_heap_backs_witness:
  "\<exists>r pm' m' a d. get_heap demo_pm1 demo_mem demo_root 0x40000000 0x1001 = Some (r, pm', m') \<and>
    (\<forall>va. walk m' demo_root va =
      (if voff 0x40000000 va < d then Some (a + of_nat (voff 0x40000000 va)) else walk demo_mem demo_root va)) \<and>
    (r = 0 \<and> d = 0x2000 \<and> run_frames a 2 \<subseteq> pmm_free demo_pm1 \<or> r = - 1 \<and> d < 0x2000)"
proof -
  have r: "round_up (unat (0x1001 :: u64)) = 0x2000" "heap_pages 0x1001 = 2"
    by (simp_all add: round_up_def heap_pages_def)
  have "unat (0x40000000 :: u64) mod 4096 = 0" "(0x1001 :: u64) \<noteq> 0"
      "unat (0x40000000 :: u64) + round_up (unat (0x1001 :: u64)) \<le> 2 ^ 64 - 4096"
      "round_up (unat (0x1001 :: u64)) \<le> 2 ^ 48"
    by (simp_all add: round_up_def)
  from get_heap_backs [OF demo_pt_ok this] show ?thesis unfolding r by blast
qed

end
