(* ===== verification/Gdt.thy ===== *)
theory Gdt
  imports Echos_Prelude
begin

text \<open>
  The global descriptor table, \<^verbatim>\<open>kernel/gdt.h\<close> and \<^verbatim>\<open>kernel/gdt.c\<close>: building a
  64-bit segment descriptor and storing it in the table a descriptor register image points to. The
  reference is the field layout of the processor: \<open>seg_base\<close>, \<open>seg_limit\<close>,
  \<open>seg_access\<close> and \<open>seg_flags\<close> read a descriptor back.
\<close>

section \<open>Data\<close>

text \<open>A packed structure: the limit at offset 0, the base at offset 2.\<close>

record gdt_desc =
  gdt_limit :: u16
  gdt_base :: u64

definition load_gdt_desc :: "mem \<Rightarrow> u64 \<Rightarrow> gdt_desc" where
  "load_gdt_desc m p = \<lparr>gdt_limit = load16 m p, gdt_base = load64 m (p + 2)\<rparr>"

section \<open>Operations\<close>

text \<open>\<^verbatim>\<open>sgdt\<close> stores the register of the processor.\<close>

definition gdt_get :: "gdt_desc \<Rightarrow> gdt_desc" where
  "gdt_get gdtr = gdtr"

definition gdt_entry_create :: "u32 \<Rightarrow> u32 \<Rightarrow> u8 \<Rightarrow> u8 \<Rightarrow> u64" where
  "gdt_entry_create base limit access flags =
     (let base1 = ucast (drop_bit 24 base);
          base2 = ucast (drop_bit 16 base AND 0xFF);
          base3 = ucast (base AND 0xFFFF);
          limit1 = ucast (drop_bit 16 limit AND 0xF);
          limit2 = ucast (limit AND 0xFFFF);
          entry = push_bit 56 base1;
          entry = entry OR push_bit 52 (ucast flags AND 0xF);
          entry = entry OR push_bit 48 limit1;
          entry = entry OR push_bit 40 (ucast access);
          entry = entry OR push_bit 32 base2;
          entry = entry OR push_bit 16 base3;
          entry = entry OR limit2
      in entry)"

definition gdt_entry_add :: "mem \<Rightarrow> u64 \<Rightarrow> u8 \<Rightarrow> u64 \<Rightarrow> mem" where
  "gdt_entry_add m desc index entry =
     (let ptr = gdt_base (load_gdt_desc m desc) in store64 m (ptr + 8 * ucast index) entry)"

section \<open>The processor's reading of a descriptor\<close>

definition seg_base :: "u64 \<Rightarrow> u32" where
  "seg_base e = ucast (drop_bit 16 e AND mask 24) OR push_bit 24 (ucast (drop_bit 56 e))"

definition seg_limit :: "u64 \<Rightarrow> u32" where
  "seg_limit e = ucast (e AND mask 16) OR push_bit 16 (ucast (drop_bit 48 e AND mask 4))"

definition seg_access :: "u64 \<Rightarrow> u8" where
  "seg_access e = ucast (drop_bit 40 e)"

definition seg_flags :: "u64 \<Rightarrow> u8" where
  "seg_flags e = ucast (drop_bit 52 e AND mask 4)"

lemma field_masks:
  "(0xFF :: u32) = mask 8" "(0xFFFF :: u32) = mask 16" "(0xF :: u32) = mask 4" "(0xF :: u64) = mask 4"
  by (simp_all add: mask_eq_exp_minus_1)

lemma field_ranges:
  obtains (r0) "(n :: nat) < 16" | (r16) "16 \<le> n" "n < 32" | (r32) "32 \<le> n" "n < 40"
  | (r40) "40 \<le> n" "n < 48" | (r48) "48 \<le> n" "n < 52" | (r52) "52 \<le> n" "n < 56"
  | (r56) "56 \<le> n" "n < 64" | (r64) "64 \<le> n"
  by linarith

lemma bit_gdt_entry_create:
  "bit (gdt_entry_create b l a f) n \<longleftrightarrow>
     (n < 16 \<and> bit l n) \<or> (16 \<le> n \<and> n < 40 \<and> bit b (n - 16)) \<or> (40 \<le> n \<and> n < 48 \<and> bit a (n - 40)) \<or>
     (48 \<le> n \<and> n < 52 \<and> bit l (n - 32)) \<or> (52 \<le> n \<and> n < 56 \<and> bit f (n - 52)) \<or>
     (56 \<le> n \<and> n < 64 \<and> bit b (n - 32))"
proof -
  have out: "\<not> bit a (n - 40)" "\<not> bit b (n - 16)" if "48 \<le> n"
    using that bit_imp_le_length [of a "n - 40"] bit_imp_le_length [of b "n - 16"] by auto
  show ?thesis
    unfolding gdt_entry_create_def Let_def field_masks
    by (rule field_ranges [of n]) (simp_all add: bit_simps out less_diff_conv2)
qed

section \<open>Properties\<close>

text \<open>
  C26: A descriptor built by \<^verbatim>\<open>gdt_entry_create\<close> has the base, the low 20 bits of the
  limit, the access byte and the low four flag bits it was built from, where the processor looks
  for them.
\<close>

theorem gdt_entry_create_fields:
  "seg_base (gdt_entry_create b l a f) = b \<and> seg_limit (gdt_entry_create b l a f) = take_bit 20 l \<and>
   seg_access (gdt_entry_create b l a f) = a \<and> seg_flags (gdt_entry_create b l a f) = take_bit 4 f"
proof (intro conjI)
  show "seg_base (gdt_entry_create b l a f) = b"
    by (rule bit_word_eqI) (auto simp: seg_base_def bit_simps bit_gdt_entry_create)
  show "seg_limit (gdt_entry_create b l a f) = take_bit 20 l"
    by (rule bit_word_eqI) (auto simp: seg_limit_def bit_simps bit_gdt_entry_create)
  show "seg_access (gdt_entry_create b l a f) = a"
    by (rule bit_word_eqI) (auto simp: seg_access_def bit_simps bit_gdt_entry_create)
  show "seg_flags (gdt_entry_create b l a f) = take_bit 4 f"
    by (rule bit_word_eqI) (auto simp: seg_flags_def bit_simps bit_gdt_entry_create)
qed

text \<open>
  \<^verbatim>\<open>gdt_entry_create\<close> rebuilds every 64-bit descriptor from its fields, so it reaches all
  of them.
\<close>

theorem gdt_entry_create_complete:
  "gdt_entry_create (seg_base e) (seg_limit e) (seg_access e) (seg_flags e) = e"
proof (rule bit_word_eqI)
  fix n
  show "bit (gdt_entry_create (seg_base e) (seg_limit e) (seg_access e) (seg_flags e)) n = bit e n"
    unfolding bit_gdt_entry_create seg_base_def seg_limit_def seg_access_def seg_flags_def
    by (rule field_ranges [of n])
      (auto simp: bit_simps less_diff_conv2 le_diff_conv2 dest: bit_imp_le_length)
qed

text \<open>The entry the processor finds at an index of the table.\<close>

definition gdt_entry_at :: "mem \<Rightarrow> u64 \<Rightarrow> u8 \<Rightarrow> u64" where
  "gdt_entry_at m desc index = load64 m (gdt_base (load_gdt_desc m desc) + 8 * ucast index)"

text \<open>A table of 256 entries that lies below the top of memory and apart from its descriptor.\<close>

definition gdt_room :: "mem \<Rightarrow> u64 \<Rightarrow> bool" where
  "gdt_room m desc \<longleftrightarrow>
     (let b = unat (gdt_base (load_gdt_desc m desc)) in
      b + 2048 \<le> 2 ^ 64 \<and> unat desc + 10 \<le> 2 ^ 64 \<and> (b + 2048 \<le> unat desc \<or> unat desc + 10 \<le> b))"

lemma gdt_slot:
  assumes "unat (b :: u64) + 2048 \<le> 2 ^ 64"
  shows "unat (b + 8 * ucast (i :: u8)) = unat b + 8 * unat i" and "8 * unat i + 8 \<le> 2048"
proof -
  have i: "unat i < 256" using unsigned_less [of i, where 'a = nat] by simp
  then show "8 * unat i + 8 \<le> 2048" by simp
  have "unat (ucast i :: u64) = unat i" by (simp add: unsigned_ucast_eq take_bit_nat_eq_self less_trans [OF i])
  then have "unat (8 * ucast i :: u64) = 8 * unat i" using i by (subst unat_mult_nowrap) auto
  then show "unat (b + 8 * ucast i) = unat b + 8 * unat i" using assms i by (subst unat_add_nowrap) auto
qed

lemma gdt_entry_add_desc:
  assumes "gdt_room m desc"
  shows "load_gdt_desc (gdt_entry_add m desc i e) desc = load_gdt_desc m desc"
proof -
  let ?b = "gdt_base (load_gdt_desc m desc)"
  have r: "unat ?b + 2048 \<le> 2 ^ 64" "unat desc + 10 \<le> 2 ^ 64"
      "unat ?b + 2048 \<le> unat desc \<or> unat desc + 10 \<le> unat ?b"
    using assms by (simp_all add: gdt_room_def Let_def)
  note s = gdt_slot [OF r(1), of i]
  have d2: "unat (desc + 2) = unat desc + 2" using r(2) by (subst unat_add_nowrap) simp_all
  have "apart (?b + 8 * ucast i) 8 desc 2" "apart (?b + 8 * ucast i) 8 (desc + 2) 8"
    using r s d2 by (intro apartI; linarith)+
  then show ?thesis by (simp add: load_gdt_desc_def gdt_entry_add_def Let_def load_store_other)
qed

lemma gdt_entry_add_at:
  assumes "gdt_room m desc"
  shows "gdt_entry_at (gdt_entry_add m desc i e) desc j = (if j = i then e else gdt_entry_at m desc j)"
proof -
  let ?b = "gdt_base (load_gdt_desc m desc)"
  have b: "unat ?b + 2048 \<le> 2 ^ 64" using assms by (simp add: gdt_room_def Let_def)
  note s = gdt_slot [OF b]
  have "load64 (store64 m (?b + 8 * ucast i) e) (?b + 8 * ucast j) = load64 m (?b + 8 * ucast j)" if "j \<noteq> i"
  proof (rule load_store_other, rule apartI)
    have "unat i \<noteq> unat j" using that by (simp add: word_unat_eq_iff)
    then show "unat (?b + 8 * ucast i) + 8 \<le> unat (?b + 8 * ucast j) \<or>
        unat (?b + 8 * ucast j) + 8 \<le> unat (?b + 8 * ucast i)"
      unfolding s by linarith
    show "unat (?b + 8 * ucast i) + 8 \<le> 2 ^ 64" "unat (?b + 8 * ucast j) + 8 \<le> 2 ^ 64"
      unfolding s(1) using b s(2) [of i] s(2) [of j] by linarith+
  qed
  then show ?thesis
    using gdt_entry_add_desc [OF assms, of i e]
    by (auto simp: gdt_entry_at_def gdt_entry_add_def Let_def load_store_same)
qed

text \<open>
  C27: After \<^verbatim>\<open>gdt_entry_add\<close> the table holds the new entry at the index, every other entry is
  as before, and the descriptor still points to the same table.
\<close>

theorem gdt_entry_add_updates:
  assumes "gdt_room m desc"
  shows "gdt_entry_at (gdt_entry_add m desc i e) desc j = (if j = i then e else gdt_entry_at m desc j) \<and>
    load_gdt_desc (gdt_entry_add m desc i e) desc = load_gdt_desc m desc"
  using gdt_entry_add_at [OF assms] gdt_entry_add_desc [OF assms] by blast

theorem gdt_entry_add_updates_witness:
  "gdt_entry_at (gdt_entry_add (\<lambda>_. 0) 0x5000 3 0xAF9A000000FFFF) 0x5000 3 = 0xAF9A000000FFFF"
proof -
  have "load_gdt_desc (\<lambda>_. 0) 0x5000 = \<lparr>gdt_limit = 0, gdt_base = 0\<rparr>" by code_simp
  then have "gdt_room (\<lambda>_. 0) 0x5000" by (simp add: gdt_room_def)
  from gdt_entry_add_updates [OF this, of 3 "0xAF9A000000FFFF" 3] show ?thesis by simp
qed

end
