(* ===== verification/Cstring_Props.thy ===== *)
theory Cstring_Props
  imports Cstring
begin

text \<open>
  What the string routines compute: NUL-terminated strings in memory as lists of bytes, and each
  routine as the corresponding operation on lists, with its effect on the rest of memory.
\<close>

section \<open>Strings in memory\<close>

definition cstr :: "mem \<Rightarrow> u64 \<Rightarrow> u8 list \<Rightarrow> bool" where
  "cstr m p xs \<longleftrightarrow> bytes m p (length xs) = xs \<and> m (p + of_nat (length xs)) = 0 \<and> 0 \<notin> set xs \<and>
     length xs < 2 ^ 64 - 1"

text \<open>Memory with the bytes \<open>xs\<close> written at \<open>p\<close>.\<close>

definition put :: "mem \<Rightarrow> u64 \<Rightarrow> u8 list \<Rightarrow> mem" where
  "put m p xs = (\<lambda>x. if unat (x - p) < length xs then xs ! unat (x - p) else m x)"

lemma put_Nil [simp]: "put m p [] = m"
  by (simp add: put_def)

lemma put_byte:
  assumes "i < length xs" and "i < 2 ^ 64"
  shows "put m p xs (p + of_nat i) = xs ! i"
  using assms unat_of_nat_u64 [OF assms(2)] by (simp add: put_def)

lemma put_far: "length xs \<le> unat (x - p) \<Longrightarrow> put m p xs x = m x"
  by (simp add: put_def)

lemma put_Cons:
  assumes "length xs < 2 ^ 64 - 1"
  shows "put m p (x # xs) = put (m(p := x)) (p + 1) xs"
proof
  fix y
  show "put m p (x # xs) y = put (m(p := x)) (p + 1) xs y"
  proof (cases "y = p")
    case True
    have "p - (p + 1) = - 1" by simp
    moreover have "unat (- 1 :: u64) = 2 ^ 64 - 1" by (subst unsigned_minus_1_eq_mask) (simp add: mask_eq_exp_minus_1)
    ultimately have "unat (p - (p + 1)) = 2 ^ 64 - 1" by (simp only:)
    then show ?thesis using True assms by (simp add: put_def)
  next
    case False
    then have "y - p \<noteq> 0" by simp
    then have nz: "0 < unat (y - p)" by (metis neq0_conv unsigned_eq_0_iff)
    have "unat (y - p - 1) = unat (y - p) - 1" using nz by (subst unat_sub_le) simp_all
    then have e: "unat (y - (p + 1)) = unat (y - p) - 1" by (simp only: diff_diff_eq)
    show ?thesis using False nz by (cases "unat (y - p)") (simp_all add: put_def e)
  qed
qed

lemma put_append:
  assumes "length xs + length ys < 2 ^ 64"
  shows "put m p (xs @ ys) = put (put m p xs) (p + of_nat (length xs)) ys"
  using assms
proof (induction xs arbitrary: m p)
  case (Cons x xs)
  have "put m p (x # xs @ ys) = put (m(p := x)) (p + 1) (xs @ ys)" using Cons.prems by (intro put_Cons) simp
  also have "\<dots> = put (put (m(p := x)) (p + 1) xs) (p + 1 + of_nat (length xs)) ys"
    using Cons.prems by (intro Cons.IH) simp
  also have "put (m(p := x)) (p + 1) xs = put m p (x # xs)" using Cons.prems by (intro put_Cons [symmetric]) simp
  finally show ?case by (simp add: add.assoc)
qed simp

lemma bytes_put:
  assumes "length xs < 2 ^ 64"
  shows "bytes (put m p xs) p (length xs) = xs"
  using assms by (intro nth_equalityI) (simp_all add: put_byte)

lemma bytes_put_far:
  assumes "apart p (length xs) q n"
  shows "bytes (put m p xs) q n = bytes m q n"
  using assms by (intro nth_equalityI) (simp_all add: apart_def put_far)

lemma cstr_byte:
  assumes "cstr m p xs" and "i < length xs"
  shows "m (p + of_nat i) = xs ! i"
proof -
  have "bytes m p (length xs) ! i = xs ! i" using assms(1) by (simp add: cstr_def)
  then show ?thesis using assms(2) by simp
qed

lemma cstr_put:
  assumes "0 \<notin> set xs" and "length xs < 2 ^ 64 - 1"
  shows "cstr (put m p (xs @ [0])) p xs"
proof -
  have "put m p (xs @ [0]) = put (put m p xs) (p + of_nat (length xs)) [0]"
    using assms(2) by (intro put_append) simp
  moreover have "apart (p + of_nat (length xs)) (length [0 :: u8]) p (length xs)"
    unfolding apart_def
  proof (intro allI impI)
    fix i assume i: "i < length xs"
    have "unat (of_nat i :: u64) = i" "unat (of_nat (length xs) :: u64) = length xs"
      using i assms(2) by (intro unat_of_nat_u64; simp)+
    then have "(of_nat i :: u64) \<noteq> of_nat (length xs)" using i by (metis less_irrefl)
    then have "p + of_nat i - (p + of_nat (length xs)) \<noteq> 0" by simp
    then show "length [0 :: u8] \<le> unat (p + of_nat i - (p + of_nat (length xs)))"
      by (simp add: Suc_le_eq unat_gt_0)
  qed
  ultimately show ?thesis
    using assms put_byte [of "length xs" "xs @ [0]" m p]
    by (simp add: cstr_def bytes_put_far bytes_put)
qed

section \<open>strlen\<close>

lemma strlen_loop_cstr:
  assumes "cstr m p xs" and "k \<le> length xs"
  shows "strlen_loop m p (of_nat k) = Some (of_nat (length xs))"
  using assms(2)
proof (induction "length xs - k" arbitrary: k)
  case 0
  then have "k = length xs" by simp
  then show ?case using assms(1) by (subst strlen_loop.simps) (simp add: cstr_def)
next
  case (Suc n)
  then have k: "k < length xs" by simp
  then have "m (p + of_nat k) \<noteq> 0"
    using cstr_byte [OF assms(1) k] assms(1) by (metis cstr_def nth_mem)
  moreover have "strlen_loop m p (of_nat (Suc k)) = Some (of_nat (length xs))"
    using Suc by (intro Suc.hyps) simp_all
  ultimately show ?case by (subst strlen_loop.simps) (simp add: add.commute)
qed

lemma strlen_cstr: "cstr m p xs \<Longrightarrow> strlen m p = Some (of_nat (length xs))"
  using strlen_loop_cstr [of m p xs 0] by (simp add: strlen_def)

section \<open>memcpy and strcpy\<close>

lemma memcpy_loop_apart:
  assumes "k \<le> unat n" and "apart d (unat n) s (unat n)"
  shows "memcpy_loop m d s n k =
    (\<lambda>x. if k \<le> unat (x - d) \<and> unat (x - d) < unat n then m (s + (x - d)) else m x)"
  using assms
proof (induction m d s n k rule: memcpy_loop.induct)
  case (1 m d s n k)
  show ?case
  proof (cases "k < unat n")
    case True
    let ?m = "m(d + of_nat k := m (s + of_nat k))"
    have k: "unat (of_nat k :: u64) = k" using less_unat_u64 [OF True] by (rule unat_of_nat_u64)
    have at: "x = d + of_nat k \<longleftrightarrow> unat (x - d) = k" for x
    proof -
      have "x = d + of_nat k \<longleftrightarrow> x - d = of_nat k" by (auto simp: algebra_simps)
      then show ?thesis using k by (simp add: word_unat_eq_iff)
    qed
    have src: "?m (s + y) = m (s + y)" if "unat y < unat n" for y
    proof -
      have "unat n \<le> unat (s + of_nat (unat y) - d)" using "1.prems"(2) that by (auto simp: apart_def)
      then show ?thesis using at [of "s + y"] True by auto
    qed
    have "memcpy_loop m d s n k = memcpy_loop ?m d s n (Suc k)" using True by (subst memcpy_loop.simps) simp
    also have "\<dots> = (\<lambda>x. if Suc k \<le> unat (x - d) \<and> unat (x - d) < unat n then ?m (s + (x - d)) else ?m x)"
      using "1.IH" [OF True] True "1.prems"(2) by (simp add: fun_upd_def)
    also have "\<dots> = (\<lambda>x. if k \<le> unat (x - d) \<and> unat (x - d) < unat n then m (s + (x - d)) else m x)"
    proof
      fix x
      show "(if Suc k \<le> unat (x - d) \<and> unat (x - d) < unat n then ?m (s + (x - d)) else ?m x) =
          (if k \<le> unat (x - d) \<and> unat (x - d) < unat n then m (s + (x - d)) else m x)"
        using src [of "x - d"] at [of x] True by auto
    qed
    finally show ?thesis .
  next
    case False
    then show ?thesis by (subst memcpy_loop.simps) (auto simp: fun_eq_iff)
  qed
qed

lemma memcpy_put:
  assumes "apart d (unat n) s (unat n)"
  shows "memcpy m d s n = (d, put m d (bytes m s (unat n)))"
proof (cases "d = s")
  case True
  have "unat n = 0" using assms True by (auto simp: apart_def dest: spec [of _ 0])
  then show ?thesis using True by (simp add: memcpy_def bytes_def)
next
  case False
  have "memcpy_loop m d s n 0 = put m d (bytes m s (unat n))"
    using memcpy_loop_apart [OF _ assms, of 0] by (auto simp: put_def fun_eq_iff)
  then show ?thesis using False by (simp add: memcpy_def)
qed

lemma bytes_cstr:
  assumes "cstr m p xs"
  shows "bytes m p (Suc (length xs)) = xs @ [0]"
  using assms by (simp add: cstr_def bytes_def)

lemma strcpy_put:
  assumes "cstr m s xs" and "apart d (Suc (length xs)) s (Suc (length xs))"
  shows "strcpy m d s = Some (d, put m d (xs @ [0]))"
proof -
  have "unat (of_nat (length xs) + 1 :: u64) = Suc (length xs)"
    using assms(1) unat_of_nat_u64 [of "Suc (length xs)"] by (simp add: cstr_def add.commute)
  then show ?thesis
    using strlen_cstr [OF assms(1)] memcpy_put [of d "of_nat (length xs) + 1" s m] assms
    by (simp add: strcpy_def bytes_cstr)
qed

section \<open>strcmp\<close>

lemma cmp_bytes_snoc: "length xs = length ys \<Longrightarrow> cmp_bytes (xs @ [0]) (ys @ [0]) = cmp_bytes xs ys"
  by (induction xs ys rule: list_induct2) simp_all

lemma cmp_bytes_short:
  assumes "length xs < length ys" and "0 \<notin> set ys"
  shows "cmp_bytes (xs @ 0 # zs) ys = cmp_bytes (xs @ [0]) (ys @ [0])"
    and "cmp_bytes ys (xs @ 0 # zs) = cmp_bytes (ys @ [0]) (xs @ [0])"
  using assms
proof (induction xs arbitrary: ys)
  case Nil
  { case 1 then show ?case by (cases ys) auto next case 2 then show ?case by (cases ys) auto }
next
  case (Cons x xs)
  { case 1 then show ?case using Cons.IH by (cases ys) auto next case 2 then show ?case using Cons.IH by (cases ys) auto }
qed

lemma cmp_bytes_cstr:
  assumes "0 \<notin> set xs" and "0 \<notin> set ys"
  shows "cmp_bytes (xs @ [0]) (ys @ [0]) = 0 \<longleftrightarrow> xs = ys"
  using assms
proof (induction xs ys rule: list_induct2')
  case (2 x xs)
  then show ?case by (cases xs) auto
next
  case (3 y ys)
  then show ?case by (cases ys) auto
qed auto

lemma bytes_cstr_long:
  assumes "cstr m p xs" and "length xs < n"
  shows "\<exists>zs. bytes m p n = xs @ 0 # zs"
proof -
  have "bytes m p n = take (Suc (length xs)) (bytes m p n) @ drop (Suc (length xs)) (bytes m p n)" by simp
  also have "take (Suc (length xs)) (bytes m p n) = bytes m p (Suc (length xs))"
    using assms(2) by (intro nth_equalityI) simp_all
  finally have "bytes m p n = xs @ 0 # drop (Suc (length xs)) (bytes m p n)"
    unfolding bytes_cstr [OF assms(1)] append.assoc append_Cons append_Nil .
  then show ?thesis by (rule exI)
qed

lemma unat_length_cstr: "cstr m p xs \<Longrightarrow> unat (of_nat (length xs) :: u64) = length xs"
  by (intro unat_of_nat_u64) (simp add: cstr_def)

lemma strcmp_cstr:
  assumes "cstr m s1 xs" and "cstr m s2 ys"
  shows "strcmp m s1 s2 = Some (cmp_bytes (xs @ [0]) (ys @ [0]))"
proof -
  have b: "bytes m s1 (length xs) = xs" "bytes m s2 (length ys) = ys" "0 \<notin> set xs" "0 \<notin> set ys"
    using assms by (simp_all add: cstr_def)
  have gt: "(of_nat (length ys) :: u64) > of_nat (length xs) \<longleftrightarrow> length xs < length ys"
    by (simp only: word_less_nat_alt unat_length_cstr [OF assms(1)] unat_length_cstr [OF assms(2)])
  have r: "strcmp m s1 s2 = Some (memcmp_loop m s1 s2 (of_nat (max (length xs) (length ys))) 0)"
    by (simp add: strcmp_def strlen_cstr [OF assms(1)] strlen_cstr [OF assms(2)] gt max_def not_less)
  have u: "unat (of_nat (max (length xs) (length ys)) :: u64) = max (length xs) (length ys)"
    using unat_length_cstr [OF assms(1)] unat_length_cstr [OF assms(2)] by (simp add: max_def)
  have "memcmp_loop m s1 s2 (of_nat (max (length xs) (length ys))) 0 =
      cmp_bytes (bytes m s1 (max (length xs) (length ys))) (bytes m s2 (max (length xs) (length ys)))"
    by (simp add: memcmp_loop_bytes u)
  also have "\<dots> = cmp_bytes (xs @ [0]) (ys @ [0])"
  proof (cases "length xs" "length ys" rule: linorder_cases)
    case less
    then show ?thesis using bytes_cstr_long [OF assms(1) less] cmp_bytes_short(1) [OF less b(4)] b
      by (auto simp: max_def)
  next
    case equal
    then show ?thesis using cmp_bytes_snoc [OF equal] b by (simp add: max_def)
  next
    case greater
    then show ?thesis using bytes_cstr_long [OF assms(2) greater] cmp_bytes_short(2) [OF greater b(3)] b
      by (auto simp: max_def)
  qed
  finally show ?thesis using r by simp
qed

section \<open>reverse\_string\<close>

lemma put_snoc:
  assumes "length xs < 2 ^ 64 - 1"
  shows "put m p (xs @ [x]) = (put m p xs)(p + of_nat (length xs) := x)"
  using assms put_append [of xs "[x]" m p] by (simp add: put_Cons)

lemma reverse_loop_put:
  assumes "n = length xs" and "xs \<noteq> []" and "n < 2 ^ 64 - 1" and "apart s n t n" and "bytes m t n = xs"
    and "k \<le> n"
  shows "reverse_loop (put m s (take k (rev xs))) s t (of_nat k) (of_nat (n - 1) - of_nat k) (of_nat (n - 1)) =
    Some (put m s (rev xs))"
  using assms(6)
proof (induction "n - k" arbitrary: k)
  case 0
  then have "k = n" by simp
  moreover have "unat (of_nat n :: u64) = n" "unat (of_nat (n - 1) :: u64) = n - 1"
    using assms(3) by (intro unat_of_nat_u64; simp)+
  moreover have "0 < n" using assms(1,2) by simp
  ultimately have "\<not> (of_nat k :: u64) \<le> of_nat (n - 1)" by (simp add: word_le_nat_alt)
  then show ?case using \<open>k = n\<close> assms(1) by (subst reverse_loop.simps) simp
next
  case (Suc d)
  then have k: "k < n" by simp
  let ?m = "put m s (take k (rev xs))"
  have "unat (of_nat k :: u64) = k" "unat (of_nat (n - 1) :: u64) = n - 1"
    using assms(3) k by (intro unat_of_nat_u64; simp)+
  then have le: "(of_nat k :: u64) \<le> of_nat (n - 1)" using k by (simp add: word_le_nat_alt)
  have c2: "(of_nat (n - 1) - of_nat k :: u64) = of_nat (n - 1 - k)" using k by (simp add: of_nat_diff)
  have far: "n \<le> unat (t + of_nat (n - 1 - k) - s)"
    using assms(4) [unfolded apart_def, THEN spec, of "n - 1 - k"] k by linarith
  have "length (take k (rev xs)) \<le> n" using k by simp
  then have "?m (t + (of_nat (n - 1) - of_nat k)) = m (t + of_nat (n - 1 - k))"
    unfolding c2 using far by (intro put_far) (rule le_trans)
  also have "\<dots> = bytes m t n ! (n - 1 - k)" using k by simp
  also have "\<dots> = rev xs ! k" using assms(1,5) k by (simp add: rev_nth)
  finally have "?m(s + of_nat k := ?m (t + (of_nat (n - 1) - of_nat k))) = put m s (take k (rev xs) @ [rev xs ! k])"
    using assms(1,3) k by (subst put_snoc) simp_all
  also have "take k (rev xs) @ [rev xs ! k] = take (Suc k) (rev xs)"
    using assms(1) k by (simp add: take_Suc_conv_app_nth)
  finally have upd: "?m(s + of_nat k := ?m (t + (of_nat (n - 1) - of_nat k))) = put m s (take (Suc k) (rev xs))" .
  have c: "(of_nat k + 1 :: u64) = of_nat (Suc k)"
    "(of_nat (n - 1) - of_nat k - 1 :: u64) = of_nat (n - 1) - of_nat (Suc k)" by simp_all
  have "reverse_loop ?m s t (of_nat k) (of_nat (n - 1) - of_nat k) (of_nat (n - 1)) =
      reverse_loop (put m s (take (Suc k) (rev xs))) s t (of_nat (Suc k)) (of_nat (n - 1) - of_nat (Suc k)) (of_nat (n - 1))"
    by (subst reverse_loop.simps) (simp only: le if_True upd c)
  also have "\<dots> = Some (put m s (rev xs))" using Suc by (intro Suc.hyps) simp_all
  finally show ?case .
qed

lemma apart_mono: "apart a n b k \<Longrightarrow> n' \<le> n \<Longrightarrow> k' \<le> k \<Longrightarrow> apart a n' b k'"
  unfolding apart_def using le_trans less_le_trans by blast

lemma reverse_string_put:
  assumes "cstr m s xs" and "xs \<noteq> []" and "apart t (Suc (length xs)) s (Suc (length xs))"
    and "apart s (Suc (length xs)) t (Suc (length xs))"
  shows "reverse_string t m s = Some (put (put m t (xs @ [0])) s (rev xs))"
proof -
  let ?m = "put m t (xs @ [0])"
  have n: "length xs < 2 ^ 64 - 1" using assms(1) by (simp add: cstr_def)
  have len: "(of_nat (length xs) - 1 :: u64) = of_nat (length xs - 1)"
    using assms(2) by (simp add: of_nat_diff Suc_le_eq)
  have "cstr ?m t xs" using assms(1) n by (intro cstr_put) (simp_all add: cstr_def)
  then have "bytes ?m t (length xs) = xs" by (simp add: cstr_def)
  then have "reverse_loop ?m s t 0 (of_nat (length xs - 1)) (of_nat (length xs - 1)) = Some (put ?m s (rev xs))"
    using reverse_loop_put [of "length xs" xs s t ?m 0] assms(2) n apart_mono [OF assms(4)] by simp
  then show ?thesis
    unfolding reverse_string_def strlen_cstr [OF assms(1)] strcpy_put [OF assms(1,3)] by (simp add: len)
qed

text \<open>
  On the empty string \<^verbatim>\<open>length\<close> is the greatest \<^verbatim>\<open>size_t\<close> and the loop never ends.
\<close>

lemma reverse_loop_diverges: "reverse_loop m s t c1 c2 (- 1) = None"
proof -
  have "len = - 1 \<longrightarrow> False" if "reverse_loop m s t c1 c2 len = Some r" for m s t c1 c2 len r
    using that
    by (induction rule: reverse_loop.raw_induct [rotated, consumes 1]) (auto split: if_splits)
  then show ?thesis by (metis not_None_eq)
qed

lemma reverse_string_empty: "m s = 0 \<Longrightarrow> reverse_string t m s = None"
  by (simp add: reverse_string_def strlen_def strlen_loop.simps [of m s 0] reverse_loop_diverges strcpy_def split_beta)

section \<open>itoa\<close>

text \<open>The digits of a number, the highest first, and the number a list of digits stands for.\<close>

fun digits :: "nat \<Rightarrow> nat \<Rightarrow> nat list" where
  "digits b n = (if n = 0 \<or> b < 2 then [] else digits b (n div b) @ [n mod b])"

declare digits.simps [simp del]

definition digits_value :: "nat \<Rightarrow> nat list \<Rightarrow> nat" where
  "digits_value b = foldl (\<lambda>v d. v * b + d) 0"

definition digit_char :: "nat \<Rightarrow> u8" where
  "digit_char d = of_nat (d + 48)"

lemma digits_value_digits: "2 \<le> b \<Longrightarrow> digits_value b (digits b n) = n"
proof (induction b n rule: digits.induct)
  case (1 b n)
  then show ?case by (subst digits.simps) (auto simp: digits_value_def)
qed

lemma digits_less: "d \<in> set (digits b n) \<Longrightarrow> d < b"
proof (induction b n rule: digits.induct)
  case (1 b n)
  then show ?case by (subst (asm) digits.simps) (auto split: if_splits)
qed

lemma length_digits: "n < b ^ k \<Longrightarrow> length (digits b n) \<le> k"
proof (induction k arbitrary: n)
  case 0
  then show ?case by (simp add: digits.simps)
next
  case (Suc k)
  then have "n div b < b ^ k" by (metis less_mult_imp_div_less power_Suc2)
  from Suc.IH [OF this] show ?case by (subst digits.simps) simp
qed

lemma digits_nonempty: "2 \<le> b \<Longrightarrow> 0 < n \<Longrightarrow> digits b n \<noteq> []"
  by (subst digits.simps) simp

lemma unat_digit_char: "d < 208 \<Longrightarrow> unat (digit_char d) = d + 48"
  by (simp add: digit_char_def unsigned_of_nat take_bit_nat_eq_self del: of_nat_add)

lemma itoa_loop_digits:
  assumes "2 \<le> b" and "length acc + length (digits b n) < 2 ^ 64 - 1"
  shows "itoa_loop (put m s acc) s (int n) (int b) (length acc) =
    Some (length acc + length (digits b n), put m s (acc @ rev (map digit_char (digits b n))))"
  using assms
proof (induction b n arbitrary: acc rule: digits.induct)
  case (1 b n)
  show ?case
  proof (cases "n = 0")
    case True
    then show ?thesis by (subst itoa_loop.simps) (simp add: digits.simps)
  next
    case False
    let ?acc = "acc @ [digit_char (n mod b)]"
    have d: "digits b n = digits b (n div b) @ [n mod b]" using False "1.prems"(1) by (subst digits.simps) simp
    have "int n smod int b = int (n mod b)" "int n sdiv int b = int (n div b)"
      using False "1.prems"(1) by (simp_all add: signed_modulo_int_def signed_divide_int_def zdiv_int zmod_int)
    moreover have "(put m s acc)(s + of_nat (length acc) := word_of_int (int (n mod b) + 48)) = put m s ?acc"
      using "1.prems" by (subst put_snoc) (simp_all add: digit_char_def)
    ultimately have "itoa_loop (put m s acc) s (int n) (int b) (length acc) =
        itoa_loop (put m s ?acc) s (int (n div b)) (int b) (length ?acc)"
      using False "1.prems"(1) by (subst itoa_loop.simps) (simp add: fun_upd_def)
    also have "\<dots> = Some (length ?acc + length (digits b (n div b)),
        put m s (?acc @ rev (map digit_char (digits b (n div b)))))"
      using False "1.prems" d by (intro "1.IH") simp_all
    finally show ?thesis using d by simp
  qed
qed

text \<open>The text of an integer in base \<open>b\<close>, and the integer a text stands for.\<close>

definition int_chars :: "nat \<Rightarrow> int \<Rightarrow> u8 list" where
  "int_chars b num = (if num = 0 then [48]
     else (if num < 0 then [45] else []) @ map digit_char (digits b (nat \<bar>num\<bar>)))"

definition chars_value :: "nat \<Rightarrow> u8 list \<Rightarrow> int" where
  "chars_value b cs =
     (if cs \<noteq> [] \<and> hd cs = 45 then - int (digits_value b (map (\<lambda>c. unat c - 48) (tl cs)))
      else int (digits_value b (map (\<lambda>c. unat c - 48) cs)))"

lemma digit_char_neq:
  assumes "d < 10"
  shows "digit_char d \<noteq> 0" and "digit_char d \<noteq> 45"
proof -
  have "unat (digit_char d) = d + 48" using assms by (intro unat_digit_char) simp
  moreover have "unat (0 :: u8) = 0" "unat (45 :: u8) = 45" by simp_all
  ultimately show "digit_char d \<noteq> 0" "digit_char d \<noteq> 45" using assms by auto
qed

lemma digit_chars_inv:
  assumes "\<forall>d \<in> set ds. d < 10"
  shows "map (\<lambda>c. unat c - 48) (map digit_char ds) = ds"
  unfolding map_map
proof (rule map_idI)
  fix d assume "d \<in> set ds"
  then have "d < 208" using assms by fastforce
  then show "((\<lambda>c. unat c - 48) \<circ> digit_char) d = d" by (simp add: unat_digit_char)
qed

lemma chars_value_int_chars:
  assumes "2 \<le> b" and "b \<le> 10"
  shows "chars_value b (int_chars b num) = num"
proof -
  let ?ds = "digits b (nat \<bar>num\<bar>)"
  have lt: "\<forall>d \<in> set ?ds. d < 10" using digits_less assms(2) by fastforce
  have inv: "digits_value b (map (\<lambda>c. unat c - 48) (map digit_char ?ds)) = nat \<bar>num\<bar>"
    by (simp only: digit_chars_inv [OF lt] digits_value_digits [OF assms(1)])
  have hd: "hd (map digit_char ?ds) \<noteq> 45" if "num \<noteq> 0"
    using that digits_nonempty [OF assms(1), of "nat \<bar>num\<bar>"] lt digit_char_neq(2) by (simp add: hd_map)
  show ?thesis using hd inv
    by (cases "num = 0") (auto simp: chars_value_def int_chars_def digits_value_def simp del: list.map_comp map_map)
qed

lemma int_chars_no_nul: "b \<le> 10 \<Longrightarrow> 0 \<notin> set (int_chars b num)"
proof -
  assume "b \<le> 10"
  then have "digit_char d \<noteq> 0" if "d \<in> set (digits b n)" for d n
    using digits_less [OF that] by (intro digit_char_neq) simp
  then show ?thesis by (auto simp: int_chars_def)
qed

lemma length_int_chars:
  assumes "2 \<le> b" and "\<bar>num\<bar> < 2 ^ 31" and "0 \<le> num \<or> b = 10"
  shows "length (int_chars b num) \<le> 31" and "b = 10 \<Longrightarrow> length (int_chars b num) \<le> 11"
proof -
  have "nat \<bar>num\<bar> < 2 ^ 31" using assms(2) by simp
  also have "(2 :: nat) ^ 31 \<le> b ^ 31" using assms(1) by (intro power_mono) simp_all
  finally have a: "length (digits b (nat \<bar>num\<bar>)) \<le> 31" by (rule length_digits)
  have "nat \<bar>num\<bar> < 10 ^ 10" using assms(2) by simp
  from length_digits [OF this] have ten: "length (digits 10 (nat \<bar>num\<bar>)) \<le> 10" .
  show "b = 10 \<Longrightarrow> length (int_chars b num) \<le> 11" 
    using ten by (cases "num < 0") (simp_all add: int_chars_def)
  then show "length (int_chars b num) \<le> 31" using a assms(3) by (auto simp: int_chars_def)
qed

text \<open>Memory after \<^verbatim>\<open>itoa\<close>: the reversed text in the scratch copy, the text in the buffer.\<close>

definition itoa_mem :: "u64 \<Rightarrow> mem \<Rightarrow> u64 \<Rightarrow> u8 list \<Rightarrow> mem" where
  "itoa_mem t m str xs =
     (if xs = [48] then put m str [48, 0] else put (put (put m str (rev xs @ [0])) t (rev xs @ [0])) str xs)"

lemma cstr_itoa_mem:
  assumes "0 \<notin> set xs" and "length xs < 32" and "apart t 32 str 32"
  shows "cstr (itoa_mem t m str xs) str xs"
proof (cases "xs = [48]")
  case True
  then show ?thesis using cstr_put [of "[48]" m str] by (simp add: itoa_mem_def)
next
  case False
  let ?p = "str + of_nat (length xs)"
  have u: "unat (of_nat (length xs) :: u64) = length xs" using assms(2) by (intro unat_of_nat_u64) simp
  have "32 \<le> unat (?p - t)" using assms(2,3) by (simp add: apart_def)
  then have "itoa_mem t m str xs ?p = put m str (rev xs @ [0]) ?p"
    using False assms(2) u by (simp add: itoa_mem_def put_far)
  also have "\<dots> = (rev xs @ [0]) ! length xs" using assms(2) by (intro put_byte) simp_all
  also have "\<dots> = 0" by (simp add: nth_append)
  finally have nul: "itoa_mem t m str xs ?p = 0" .
  have "bytes (itoa_mem t m str xs) str (length xs) = xs"
    using False assms(2) by (simp add: itoa_mem_def bytes_put)
  then show ?thesis using nul assms by (simp add: cstr_def)
qed

lemma itoa_mem_far:
  assumes "length xs < 32" and "32 \<le> unat (x - str)" and "32 \<le> unat (x - t)"
  shows "itoa_mem t m str xs x = m x"
  using assms by (simp add: itoa_mem_def put_far)

lemma itoa_int_chars:
  assumes "2 \<le> b" and "b \<le> 10" and "\<bar>num\<bar> < 2 ^ 31" and "0 \<le> num \<or> b = 10"
    and "apart t 32 str 32" and "apart str 32 t 32"
  shows "itoa t m num str (int b) = Some (str, itoa_mem t m str (int_chars b num))"
proof (cases "num = 0")
  case True
  then show ?thesis by (simp add: itoa_def itoa_mem_def int_chars_def put_Cons)
next
  case False
  define n where "n = nat \<bar>num\<bar>"
  let ?xs = "int_chars b num"
  let ?ds = "rev (map digit_char (digits b n))"
  have n: "0 < n" using False by (simp add: n_def)
  have xs: "?xs = (if num < 0 then [45] else []) @ map digit_char (digits b n)"
    unfolding int_chars_def n_def using False by (simp only: if_False)
  have len: "length ?xs < 32" using length_int_chars(1) [OF assms(1,3,4)] by simp
  then have dl: "length (digits b n) < 32" by (auto simp: xs split: if_splits)
  have rx: "rev ?xs = ?ds @ (if num < 0 then [45] else [])" by (simp add: xs)
  have ne: "?xs \<noteq> []" "?xs \<noteq> [48]"
  proof -
    show "?xs \<noteq> []" using digits_nonempty [OF assms(1) n] by (simp add: xs)
    show "?xs \<noteq> [48]"
      using chars_value_int_chars [OF assms(1,2), of num] False by (auto simp: chars_value_def digits_value_def)
  qed
  have neg: "(if num < 0 \<and> int b = 10 then signed_take_bit 31 (- num) else num) = int n"
  proof (cases "num < 0")
    case True
    then have "signed_take_bit 31 (- num) = - num" using assms(3) by (intro signed_take_bit_int_eq_self) simp_all
    then show ?thesis using True assms(4) by (simp add: n_def)
  qed (simp add: n_def)
  have loop: "itoa_loop m str (int n) (int b) 0 = Some (length ?ds, put m str ?ds)"
    using itoa_loop_digits [OF assms(1), of "[]" n m str] dl by simp
  let ?m = "put m str (rev ?xs @ [0])"
  have "cstr ?m str (rev ?xs)" using int_chars_no_nul [OF assms(2)] len by (intro cstr_put) simp_all
  then have rev: "reverse_string t ?m str = Some (put (put ?m t (rev ?xs @ [0])) str ?xs)"
    using reverse_string_put [of ?m str "rev ?xs" t] ne len apart_mono [OF assms(5)] apart_mono [OF assms(6)] by simp
  have m2: "?m = (if num < 0 then (put m str ?ds)(str + of_nat (length ?ds) := 45, str + of_nat (Suc (length ?ds)) := 0)
      else (put m str ?ds)(str + of_nat (length ?ds) := 0))"
    using dl put_snoc [of ?ds m str] put_snoc [of "?ds @ [45]" m str 0] by (simp add: rx)
  show ?thesis
  proof (cases "num < 0")
    case True
    then show ?thesis using rev loop assms(4) ne neg m2 by (simp add: itoa_def itoa_mem_def)
  next
    case nonneg: False
    then have "num = int n" by (simp add: n_def)
    then show ?thesis using rev loop ne nonneg False m2 by (simp add: itoa_def itoa_mem_def)
  qed
qed

section \<open>Properties\<close>

text \<open>A memory with a few strings, for the witnesses.\<close>

definition demo_text :: mem where
  "demo_text = put (put (\<lambda>x. 0) 0x1000 [97, 98, 99]) 0x2000 [97, 98, 100]"

lemma demo_text_cstr: "cstr demo_text 0x1000 [97, 98, 99]" "cstr demo_text 0x2000 [97, 98, 100]"
  by (simp_all add: cstr_def demo_text_def put_def bytes_def)

text \<open>
  Strcpy of a NUL-terminated string to a buffer apart from it returns the buffer, leaves there
  the same string, of the length strlen then computes, and writes nothing outside the buffer.
\<close>
theorem strcpy_copies:
  assumes "cstr m src xs" and "apart dest (Suc (length xs)) src (Suc (length xs))"
  shows "\<exists>m'. strcpy m dest src = Some (dest, m') \<and> cstr m' dest xs \<and> cstr m' src xs \<and>
    strlen m' dest = Some (of_nat (length xs)) \<and>
    (\<forall>x. m' x = m x \<or> unat (x - dest) \<le> length xs)"
proof -
  let ?m = "put m dest (xs @ [0])"
  have c: "cstr ?m dest xs" using assms(1) by (intro cstr_put) (simp_all add: cstr_def)
  have "bytes ?m src (Suc (length xs)) = xs @ [0]"
    using bytes_put_far [of dest "xs @ [0]" src "Suc (length xs)" m] assms(2) bytes_cstr [OF assms(1)] by simp
  then have "cstr ?m src xs" using assms(1) by (simp add: cstr_def bytes_def)
  then show ?thesis
    using strcpy_put [OF assms] c strlen_cstr [OF c] put_far [of "xs @ [0]" _ dest m]
    by (intro exI [of _ ?m]) (auto simp: not_le)
qed

theorem strcpy_copies_witness:
  "\<exists>m'. strcpy demo_text 0x3000 0x1000 = Some (0x3000, m') \<and> cstr m' 0x3000 [97, 98, 99] \<and>
     cstr m' 0x1000 [97, 98, 99] \<and> strlen m' 0x3000 = Some 3 \<and>
     (\<forall>x. m' x = demo_text x \<or> unat (x - 0x3000) \<le> 3)"
proof -
  have "apart 0x3000 (Suc (length [97, 98, 99 :: u8])) 0x1000 (Suc (length [97, 98, 99 :: u8]))"
    by (rule apartI) simp_all
  from strcpy_copies [OF demo_text_cstr(1) this] show ?thesis by (simp add: numeral_3_eq_3)
qed

text \<open>
  C36: strcmp of two NUL-terminated strings ends, and returns 0 exactly when the strings are equal;
  otherwise it returns -1 or 1 by the first difference, read as signed characters with the
  terminator as 0.
\<close>
theorem strcmp_orders:
  assumes "cstr m s1 xs" and "cstr m s2 ys"
  shows "\<exists>r. strcmp m s1 s2 = Some r \<and> r = cmp_bytes (xs @ [0]) (ys @ [0]) \<and> (r = 0 \<longleftrightarrow> xs = ys)"
  using strcmp_cstr [OF assms] cmp_bytes_cstr [of xs ys] assms by (simp add: cstr_def)

theorem strcmp_orders_witness: "strcmp demo_text 0x1000 0x2000 = Some (- 1)"
  using strcmp_orders [OF demo_text_cstr] by simp

text \<open>
  C35: itoa in a base from 2 to 10 writes a text of at most 31 characters and a NUL whose value in that
  base is the given number, for every int but the least one (and only in base 10 for a negative
  one), and writes nothing outside the buffer and the scratch copy of reverse_string.
\<close>
theorem itoa_roundtrip:
  assumes "2 \<le> b" and "b \<le> 10" and "\<bar>num\<bar> < 2 ^ 31" and "0 \<le> num \<or> b = 10"
    and "apart t 32 str 32" and "apart str 32 t 32"
  shows "\<exists>m' xs. itoa t m num str (int b) = Some (str, m') \<and> cstr m' str xs \<and> chars_value b xs = num \<and>
    length xs \<le> 31 \<and> (\<forall>x. m' x = m x \<or> unat (x - str) < 32 \<or> unat (x - t) < 32)"
proof -
  let ?xs = "int_chars b num"
  have len: "length ?xs \<le> 31" using length_int_chars(1) [OF assms(1,3,4)] .
  then have "cstr (itoa_mem t m str ?xs) str ?xs"
    using int_chars_no_nul [OF assms(2)] assms(5) by (intro cstr_itoa_mem) simp_all
  moreover have "itoa_mem t m str ?xs x = m x \<or> unat (x - str) < 32 \<or> unat (x - t) < 32" for x
    using itoa_mem_far [of ?xs x str t m] len by linarith
  ultimately show ?thesis
    using itoa_int_chars [OF assms] chars_value_int_chars [OF assms(1,2)] len by blast
qed

theorem itoa_roundtrip_witness:
  "\<exists>m' xs. itoa 0x4000 demo_text (- 42) 0x3000 10 = Some (0x3000, m') \<and> cstr m' 0x3000 xs \<and>
     chars_value 10 xs = - 42 \<and> length xs \<le> 31"
  using itoa_roundtrip [of 10 "- 42" "0x4000" "0x3000" demo_text] apartI [of "0x4000" 32 "0x3000" 32]
    apartI [of "0x3000" 32 "0x4000" 32] by auto

text \<open>
  reverse_string on the empty string never returns: the length minus one wraps around to the
  greatest size_t, which the loop counter can never exceed.
\<close>
theorem reverse_string_empty_diverges:
  assumes "cstr m s []"
  shows "reverse_string t m s = None"
  using assms by (intro reverse_string_empty) (simp add: cstr_def)

theorem reverse_string_empty_diverges_witness: "reverse_string 0x4000 demo_text 0x1003 = None"
  by (rule reverse_string_empty_diverges) (simp add: cstr_def demo_text_def put_def bytes_def)

end
