(* ===== verification/Vsprintf.thy ===== *)
theory Vsprintf
  imports Cstring_Props
begin

text \<open>
  Formatted output, \<^verbatim>\<open>lib/stdio/vsprintf.c\<close>, on byte-addressed memory. The argument list
  is a list of 64-bit slots; taking an argument that is not there has no result. The local array
  \<^verbatim>\<open>temp\<close> and the local copy of \<^verbatim>\<open>reverse_string\<close> are at addresses that are parameters.
  The count of written characters stays below the range of \<^verbatim>\<open>int\<close>.
\<close>

section \<open>Hexadecimal numbers\<close>

definition hex_chars :: "u8 list" where
  "hex_chars = [48, 49, 50, 51, 52, 53, 54, 55, 56, 57, 65, 66, 67, 68, 69, 70]"

text \<open>
  The loops count the shift down in steps of 4, from a multiple of 4. The functions have no
  \<^verbatim>\<open>return\<close>; their callers ignore the result, and the model returns the memory.
\<close>

function x32toa_loop :: "mem \<Rightarrow> u32 \<Rightarrow> u64 \<Rightarrow> nat \<Rightarrow> nat \<Rightarrow> nat \<times> mem" where
  "x32toa_loop m num str pos i =
     (if i > 0
      then x32toa_loop (m(str + of_nat pos := hex_chars ! unat (drop_bit i num AND 0xF))) num str (Suc pos) (i - 4)
      else (pos, m))"
  by pat_completeness auto
termination
  by (relation "measure (\<lambda>(m, num, str, pos, i). i)") auto

definition x32toa :: "mem \<Rightarrow> u32 \<Rightarrow> u64 \<Rightarrow> mem" where
  "x32toa m num str =
     (let (pos, m) = x32toa_loop m num str 0 28
      in m(str + of_nat pos := hex_chars ! unat (num AND 0xF)))"

function x64toa_loop :: "mem \<Rightarrow> u64 \<Rightarrow> u64 \<Rightarrow> nat \<Rightarrow> nat \<Rightarrow> nat \<times> mem" where
  "x64toa_loop m num str pos i =
     (if i > 0
      then x64toa_loop (m(str + of_nat pos := hex_chars ! unat (drop_bit i num AND 0xF))) num str (Suc pos) (i - 4)
      else (pos, m))"
  by pat_completeness auto
termination
  by (relation "measure (\<lambda>(m, num, str, pos, i). i)") auto

definition x64toa :: "mem \<Rightarrow> u64 \<Rightarrow> u64 \<Rightarrow> mem" where
  "x64toa m num str =
     (let (pos, m) = x64toa_loop m num str 0 60
      in m(str + of_nat pos := hex_chars ! unat (num AND 0xF)))"

declare x32toa_loop.simps [simp del] x64toa_loop.simps [simp del]

section \<open>vsprintf\<close>

text \<open>The loops that append a NUL-terminated string to the output.\<close>

partial_function (option) append_loop :: "mem \<Rightarrow> u64 \<Rightarrow> nat \<Rightarrow> u64 \<Rightarrow> u64 \<Rightarrow> (nat \<times> mem) option" where
  "append_loop m str written src counter =
     Option.bind (strlen m src) (\<lambda>n.
       if counter < n
       then append_loop (m(str + of_nat written := m (src + counter))) str (Suc written) src (counter + 1)
       else Some (written, m))"

definition va_arg :: "u64 list \<Rightarrow> (u64 \<times> u64 list) option" where
  "va_arg arg = (case arg of [] \<Rightarrow> None | v # vs \<Rightarrow> Some (v, vs))"

text \<open>
  The conversion after a \<^verbatim>\<open>%\<close>, with \<open>i\<close> at the character behind it: the new memory, count,
  arguments and index.
\<close>

definition vsprintf_conv ::
  "u64 \<Rightarrow> u64 \<Rightarrow> u64 \<Rightarrow> u64 \<Rightarrow> mem \<Rightarrow> nat \<Rightarrow> u64 list \<Rightarrow> u64 \<Rightarrow> (mem \<times> nat \<times> u64 list \<times> u64) option" where
  "vsprintf_conv temp scratch str format m written arg i =
     (let c = m (format + i) in
      if c = 99 then do {
        (v, arg) \<leftarrow> va_arg arg;
        Some (m(str + of_nat written := ucast v), Suc written, arg, i + 1)
      }
      else if c = 100 then do {
        (v, arg) \<leftarrow> va_arg arg;
        (_, m) \<leftarrow> itoa scratch m (sint (ucast v :: u32)) temp 10;
        (written, m) \<leftarrow> append_loop m str written temp 0;
        Some (m, written, arg, i + 1)
      }
      else if c = 120 then do {
        (v, arg) \<leftarrow> va_arg arg;
        let m = x32toa m (ucast v) temp;
        (written, m) \<leftarrow> append_loop m str written temp 0;
        Some (m, written, arg, i + 1)
      }
      else if c = 108 then
        (let i = i + 1 in
         if m (format + i) = 108 then
           (let i = i + 1 in
            if m (format + i) = 120 then do {
              (v, arg) \<leftarrow> va_arg arg;
              let m = x64toa m v temp;
              (written, m) \<leftarrow> append_loop m str written temp 0;
              Some (m, written, arg, i + 1)
            }
            else Some (m, written, arg, i))
         else Some (m, written, arg, i))
      else if c = 115 then do {
        (v, arg) \<leftarrow> va_arg arg;
        (written, m) \<leftarrow> append_loop m str written v 0;
        Some (m, written, arg, i + 1)
      }
      else Some (m, written, arg, i))"

partial_function (option) vsprintf_loop ::
  "u64 \<Rightarrow> u64 \<Rightarrow> u64 \<Rightarrow> u64 \<Rightarrow> mem \<Rightarrow> nat \<Rightarrow> u64 list \<Rightarrow> u64 \<Rightarrow> (nat \<times> mem) option" where
  "vsprintf_loop temp scratch str format m written arg i =
     Option.bind (strlen m format) (\<lambda>n.
       if i < n
       then Option.bind
         (if m (format + i) = 37 then vsprintf_conv temp scratch str format m written arg (i + 1)
          else Some (m, written, arg, i))
         (\<lambda>(m, written, arg, i).
            vsprintf_loop temp scratch str format (m(str + of_nat written := m (format + i))) (Suc written) arg (i + 1))
       else Some (written, m))"

definition vsprintf :: "u64 \<Rightarrow> u64 \<Rightarrow> mem \<Rightarrow> u64 \<Rightarrow> u64 \<Rightarrow> u64 list \<Rightarrow> (nat \<times> mem) option" where
  "vsprintf temp scratch m str format arg =
     vsprintf_loop temp scratch str format (fill m temp 32 0) 0 arg 0"

section \<open>Hexadecimal digits\<close>

text \<open>The \<open>k\<close> lowest hexadecimal digits of a number, the highest first.\<close>

definition hex_digits :: "nat \<Rightarrow> nat \<Rightarrow> u8 list" where
  "hex_digits k v = map (\<lambda>j. hex_chars ! (v div 16 ^ (k - 1 - j) mod 16)) [0..<k]"

lemma length_hex_digits [simp]: "length (hex_digits k v) = k"
  by (simp add: hex_digits_def)

lemma nth_hex_digits: "j < k \<Longrightarrow> hex_digits k v ! j = hex_chars ! (v div 16 ^ (k - 1 - j) mod 16)"
  by (simp add: hex_digits_def)

lemma hex_nibble: "unat (drop_bit (4 * k) (w :: 'a::len word) AND 0xF) = unat w div 16 ^ k mod 16"
proof -
  have "(0xF :: 'a word) = mask 4" by (simp add: mask_eq_exp_minus_1)
  then have "drop_bit (4 * k) w AND 0xF = take_bit 4 (drop_bit (4 * k) w)" by (simp add: take_bit_eq_mask)
  then have "unat (drop_bit (4 * k) w AND 0xF) = take_bit 4 (drop_bit (4 * k) (unat w))"
    by (simp add: unsigned_take_bit_eq unsigned_drop_bit_eq take_bit_nat_eq_self)
  also have "\<dots> = unat w div 16 ^ k mod 16"
    by (simp add: take_bit_eq_mod drop_bit_eq_div power_mult)
  finally show ?thesis .
qed

lemma x32toa_loop_put:
  assumes "pos + k = 7"
  shows "x32toa_loop (put m str (take pos (hex_digits 8 (unat num)))) num str pos (4 * k) =
    (7, put m str (take 7 (hex_digits 8 (unat num))))"
  using assms
proof (induction k arbitrary: pos)
  case 0
  then show ?case by (subst x32toa_loop.simps) (simp add: fun_upd_def)
next
  case (Suc k)
  let ?h = "hex_digits 8 (unat num)"
  have e: "7 - pos = Suc k" using Suc.prems by simp
  have "put m str (take (Suc pos) ?h) = (put m str (take pos ?h))(str + of_nat pos := ?h ! pos)"
    using Suc.prems by (simp add: take_Suc_conv_app_nth put_snoc)
  moreover have "?h ! pos = hex_chars ! unat (drop_bit (4 * Suc k) num AND 0xF)"
    unfolding hex_nibble using Suc.prems e by (subst nth_hex_digits) simp_all
  ultimately show ?case using Suc.IH [of "Suc pos"] Suc.prems by (subst x32toa_loop.simps) (simp add: fun_upd_def)
qed

lemma x64toa_loop_put:
  assumes "pos + k = 15"
  shows "x64toa_loop (put m str (take pos (hex_digits 16 (unat num)))) num str pos (4 * k) =
    (15, put m str (take 15 (hex_digits 16 (unat num))))"
  using assms
proof (induction k arbitrary: pos)
  case 0
  then show ?case by (subst x64toa_loop.simps) (simp add: fun_upd_def)
next
  case (Suc k)
  let ?h = "hex_digits 16 (unat num)"
  have e: "15 - pos = Suc k" using Suc.prems by simp
  have "put m str (take (Suc pos) ?h) = (put m str (take pos ?h))(str + of_nat pos := ?h ! pos)"
    using Suc.prems by (simp add: take_Suc_conv_app_nth put_snoc)
  moreover have "?h ! pos = hex_chars ! unat (drop_bit (4 * Suc k) num AND 0xF)"
    unfolding hex_nibble using Suc.prems e by (subst nth_hex_digits) simp_all
  ultimately show ?case using Suc.IH [of "Suc pos"] Suc.prems by (subst x64toa_loop.simps) (simp add: fun_upd_def)
qed

lemma x32toa_put: "x32toa m num str = put m str (hex_digits 8 (unat num))"
proof -
  let ?h = "hex_digits 8 (unat num)"
  have "put m str ?h = (put m str (take 7 ?h))(str + of_nat 7 := ?h ! 7)"
    using put_snoc [of "take 7 ?h" m str "?h ! 7"] take_Suc_conv_app_nth [of 7 ?h] by simp
  moreover have "?h ! 7 = hex_chars ! unat (num AND 0xF)"
    using hex_nibble [of 0 num] by (simp add: nth_hex_digits)
  ultimately show ?thesis using x32toa_loop_put [of 0 7 m str num] by (simp add: x32toa_def)
qed

lemma x64toa_put: "x64toa m num str = put m str (hex_digits 16 (unat num))"
proof -
  let ?h = "hex_digits 16 (unat num)"
  have "put m str ?h = (put m str (take 15 ?h))(str + of_nat 15 := ?h ! 15)"
    using put_snoc [of "take 15 ?h" m str "?h ! 15"] take_Suc_conv_app_nth [of 15 ?h] by simp
  moreover have "?h ! 15 = hex_chars ! unat (num AND 0xF)"
    using hex_nibble [of 0 num] by (simp add: nth_hex_digits)
  ultimately show ?thesis using x64toa_loop_put [of 0 15 m str num] by (simp add: x64toa_def)
qed

end
