(* ===== verification/Vsprintf_Props.thy ===== *)
theory Vsprintf_Props
  imports Vsprintf
begin

text \<open>
  \<^verbatim>\<open>vsprintf\<close> against a reference on lists of bytes: the output as a function of the format,
  the arguments and the contents of the local array \<^verbatim>\<open>temp\<close>, which conversions leave behind
  for later ones.
\<close>

section \<open>The reference\<close>

text \<open>
  The text a conversion emits, the contents it leaves in \<^verbatim>\<open>temp\<close>, the format after it and the remaining
  arguments. \<open>S\<close> gives the strings behind the pointers that \<^verbatim>\<open>%s\<close> may meet. There is no result for a
  missing argument, an unknown pointer and the least \<^verbatim>\<open>int\<close>.
\<close>

definition ctext :: "u8 list \<Rightarrow> u8 list" where
  "ctext T = takeWhile (\<lambda>c. c \<noteq> 0) T"

definition over :: "u8 list \<Rightarrow> u8 list \<Rightarrow> u8 list" where
  "over xs T = xs @ drop (length xs) T"

definition conv_out :: "(u64 \<Rightarrow> u8 list option) \<Rightarrow> u8 list \<Rightarrow> u8 list \<Rightarrow> u64 list \<Rightarrow>
    (u8 list \<times> u8 list \<times> u8 list \<times> u64 list) option" where
  "conv_out S T f args =
     (case f of
        [] \<Rightarrow> Some ([], T, [], args)
      | c # g \<Rightarrow>
          if c = 99 then do { (v, vs) \<leftarrow> va_arg args; Some ([ucast v], T, g, vs) }
          else if c = 100 then do {
            (v, vs) \<leftarrow> va_arg args;
            let num = sint (ucast v :: u32);
            let T' = over (int_chars 10 num @ [0]) T;
            if num = - (2 ^ 31) then None else Some (ctext T', T', g, vs)
          }
          else if c = 120 then do {
            (v, vs) \<leftarrow> va_arg args;
            let T' = over (hex_digits 8 (unat (ucast v :: u32))) T;
            Some (ctext T', T', g, vs)
          }
          else if c = 108 then
            if g \<noteq> [] \<and> hd g = 108 then
              if tl g \<noteq> [] \<and> hd (tl g) = 120 then do {
                (v, vs) \<leftarrow> va_arg args;
                let T' = over (hex_digits 16 (unat v)) T;
                Some (ctext T', T', tl (tl g), vs)
              }
              else Some ([], T, tl g, args)
            else Some ([], T, g, args)
          else if c = 115 then do {
            (v, vs) \<leftarrow> va_arg args;
            xs \<leftarrow> S v;
            Some (xs, T, g, vs)
          }
          else Some ([], T, f, args))"

text \<open>Conversions that take an argument.\<close>

lemma conv_out_d:
  assumes "conv_out S T (100 # g) args = Some (t, T', f', vs)"
  shows "\<exists>v. args = v # vs \<and> sint (ucast v :: u32) \<noteq> - (2 ^ 31) \<and> f' = g \<and> t = ctext T' \<and>
    T' = over (int_chars 10 (sint (ucast v :: u32)) @ [0]) T"
  using assms by (cases args) (auto simp: conv_out_def va_arg_def Let_def split: if_splits)

lemma conv_out_x:
  assumes "conv_out S T (120 # g) args = Some (t, T', f', vs)"
  shows "\<exists>v. args = v # vs \<and> f' = g \<and> t = ctext T' \<and> T' = over (hex_digits 8 (unat (ucast v :: u32))) T"
  using assms by (cases args) (auto simp: conv_out_def va_arg_def Let_def)

lemma conv_out_llx:
  assumes "conv_out S T (108 # 108 # 120 # g) args = Some (t, T', f', vs)"
  shows "\<exists>v. args = v # vs \<and> f' = g \<and> t = ctext T' \<and> T' = over (hex_digits 16 (unat v)) T"
  using assms by (cases args) (auto simp: conv_out_def va_arg_def Let_def)

lemma conv_out_shorter: "conv_out S T f args = Some (t, T', f', vs) \<Longrightarrow> length f' \<le> length f"
  by (auto simp: conv_out_def Let_def split: list.splits if_splits bind_splits)

text \<open>
  The whole output. The character after a conversion is copied whatever it is; at the end of the
  format that is the terminating NUL.
\<close>

function vs_out :: "(u64 \<Rightarrow> u8 list option) \<Rightarrow> u8 list \<Rightarrow> u8 list \<Rightarrow> u64 list \<Rightarrow> u8 list option" where
  "vs_out S T [] args = Some []"
| "vs_out S T (c # f) args =
     (if c = 37 then
        (case conv_out S T f args of
           None \<Rightarrow> None
         | Some (t, T', f', vs) \<Rightarrow>
             (case f' of
                [] \<Rightarrow> Some (t @ [0])
              | d # f'' \<Rightarrow> map_option (\<lambda>r. t @ d # r) (vs_out S T' f'' vs)))
      else map_option (\<lambda>r. c # r) (vs_out S T f args))"
  by pat_completeness auto
termination
  by (relation "measure (\<lambda>(S, T, f, args). length f)") (auto dest: conv_out_shorter)

section \<open>Layout of the buffers\<close>

text \<open>The addresses that lie in none of the buffers that are written.\<close>

definition outside :: "u64 \<Rightarrow> u64 \<Rightarrow> u64 \<Rightarrow> nat \<Rightarrow> u64 \<Rightarrow> bool" where
  "outside temp scratch str N x \<longleftrightarrow>
     N \<le> unat (x - str) \<and> 32 \<le> unat (x - temp) \<and> 32 \<le> unat (x - scratch)"

definition layout :: "(u64 \<Rightarrow> u8 list option) \<Rightarrow> u64 \<Rightarrow> u64 \<Rightarrow> u64 \<Rightarrow> nat \<Rightarrow> u64 \<Rightarrow> u8 list \<Rightarrow> mem \<Rightarrow> bool" where
  "layout S temp scratch str N fmt F m \<longleftrightarrow>
     N \<le> 2 ^ 31 \<and> apart str N temp 32 \<and> apart temp 32 str N \<and> apart scratch 32 str N \<and>
     apart temp 32 scratch 32 \<and> apart scratch 32 temp 32 \<and>
     cstr m fmt F \<and> (\<forall>i \<le> length F. outside temp scratch str N (fmt + of_nat i)) \<and>
     (\<forall>p xs. S p = Some xs \<longrightarrow> cstr m p xs \<and> (\<forall>i \<le> length xs. outside temp scratch str N (p + of_nat i)))"

text \<open>
  The state between two steps: what has been written so far, the contents of \<^verbatim>\<open>temp\<close>, and that
  nothing outside the buffers has changed since \<open>m0\<close>.
\<close>

definition vs_inv :: "u64 \<Rightarrow> u64 \<Rightarrow> u64 \<Rightarrow> nat \<Rightarrow> mem \<Rightarrow> mem \<Rightarrow> u8 list \<Rightarrow> u8 list \<Rightarrow> bool" where
  "vs_inv temp scratch str N m0 m out T \<longleftrightarrow>
     length out \<le> N \<and> bytes m str (length out) = out \<and> bytes m temp 32 = T \<and> T ! 31 = 0 \<and>
     (\<forall>x. outside temp scratch str N x \<longrightarrow> m x = m0 x)"

section \<open>Writing to the buffers\<close>

lemma apart_sub:
  assumes "apart a n b k" and "i + j \<le> k"
  shows "apart a n (b + of_nat i) j"
  unfolding apart_def
proof (intro allI impI)
  fix l assume "l < j"
  then have "n \<le> unat (b + of_nat (i + l) - a)" using assms unfolding apart_def by (metis add_strict_left_mono less_le_trans)
  then show "n \<le> unat (b + of_nat i + of_nat l - a)" by (simp add: add.assoc)
qed

text \<open>A part of a region is apart from what the whole region is apart from.\<close>

lemma offset_in_region:
  fixes x b :: u64
  assumes "unat (x - (b + of_nat i)) < j" and "i + j \<le> 2 ^ 64"
  shows "unat (x - b) = i + unat (x - (b + of_nat i))"
proof -
  have "x - b = (x - (b + of_nat i)) + of_nat i" by (simp add: algebra_simps)
  moreover have "unat ((x - (b + of_nat i)) + of_nat i) = unat (x - (b + of_nat i)) + i"
    using assms by (intro unat_add_of_nat) linarith
  ultimately show ?thesis by simp
qed

lemma put_sub_far:
  assumes "k \<le> unat (x - b)" and "i + length xs \<le> k" and "k \<le> 2 ^ 64"
  shows "put m (b + of_nat i) xs x = m x"
proof -
  have "\<not> unat (x - (b + of_nat i)) < length xs"
    using offset_in_region [of x b i "length xs"] assms by linarith
  then show ?thesis by (simp add: put_def)
qed

lemma bytes_put_sub:
  assumes "i + length xs < 2 ^ 64"
  shows "bytes (put m p xs) p (length xs) = xs" and "bytes (put m (p + of_nat i) xs) p i = bytes m p i"
proof -
  show "bytes (put m p xs) p (length xs) = xs" using assms by (intro bytes_put) simp
  show "bytes (put m (p + of_nat i) xs) p i = bytes m p i"
  proof (intro nth_equalityI)
    fix j assume "j < length (bytes (put m (p + of_nat i) xs) p i)"
    then have j: "j < i" by simp
    have "\<not> unat (p + of_nat j - (p + of_nat i)) < length xs"
    proof
      assume "unat (p + of_nat j - (p + of_nat i)) < length xs"
      then have "unat (p + of_nat j - p) = i + unat (p + of_nat j - (p + of_nat i))"
        using assms by (intro offset_in_region less_imp_le)
      moreover have "unat (of_nat j :: u64) = j" using j assms by (intro unat_of_nat_u64) simp
      ultimately show False using j by simp
    qed
    then show "bytes (put m (p + of_nat i) xs) p i ! j = bytes m p i ! j" using j by (simp add: put_def)
  qed simp
qed

lemma bytes_append: "bytes m p (i + j) = bytes m p i @ bytes m (p + of_nat i) j"
  by (induction j) (simp_all add: bytes_def add.assoc)

lemma vs_inv_out:
  assumes inv: "vs_inv temp scratch str N m0 m out T" and lay: "layout S temp scratch str N fmt F m0"
    and len: "length out + length xs \<le> N"
  shows "vs_inv temp scratch str N m0 (put m (str + of_nat (length out)) xs) (out @ xs) T"
proof -
  let ?p = "str + of_nat (length out)"
  have N: "N \<le> 2 ^ 31" and at: "apart str N temp 32" using lay by (simp_all add: layout_def)
  have "bytes (put m ?p xs) str (length out + length xs) = out @ xs"
    unfolding bytes_append using len N inv bytes_put_sub(2) [of "length out" xs m str] bytes_put [of xs m ?p]
    by (simp add: vs_inv_def)
  moreover have "bytes (put m ?p xs) temp 32 = bytes m temp 32"
    using at len N by (intro nth_equalityI) (simp_all add: apart_def put_sub_far [of N])
  moreover have "put m ?p xs x = m0 x" if "outside temp scratch str N x" for x
  proof -
    have "put m ?p xs x = m x" using that len N by (intro put_sub_far [of N]) (simp_all add: outside_def)
    then show ?thesis using that inv by (simp add: vs_inv_def)
  qed
  ultimately show ?thesis using inv len by (simp add: vs_inv_def)
qed

lemma length_over [simp]: "length xs \<le> length T \<Longrightarrow> length (over xs T) = length T"
  by (simp add: over_def)

lemma vs_inv_temp:
  assumes inv: "vs_inv temp scratch str N m0 m out T" and lay: "layout S temp scratch str N fmt F m0"
    and len: "length xs < 32"
  shows "vs_inv temp scratch str N m0 (put m temp xs) out (over xs T)"
proof -
  have T: "bytes m temp 32 = T" "length T = 32" "T ! 31 = 0" using inv by (auto simp: vs_inv_def)
  have "bytes (put m temp xs) temp 32 = over xs T"
  proof (intro nth_equalityI)
    fix i assume "i < length (bytes (put m temp xs) temp 32)"
    then have i: "i < 32" by simp
    then have u: "unat (of_nat i :: u64) = i" by (intro unat_of_nat_u64) simp
    have "m (temp + of_nat i) = T ! i" using T(1) i by (metis nth_bytes)
    then show "bytes (put m temp xs) temp 32 ! i = over xs T ! i"
      using i u len T by (simp add: put_def over_def nth_append)
  qed (use len T in simp)
  moreover have "bytes (put m temp xs) str (length out) = bytes m str (length out)"
    using lay inv len by (intro bytes_put_far) (auto simp: layout_def vs_inv_def intro: apart_mono)
  moreover have "over xs T ! 31 = 0" using T len by (simp add: over_def nth_append)
  ultimately show ?thesis using inv len by (auto simp: vs_inv_def outside_def put_far)
qed

lemma vs_inv_scratch:
  assumes inv: "vs_inv temp scratch str N m0 m out T" and lay: "layout S temp scratch str N fmt F m0"
    and len: "length xs \<le> 32"
  shows "vs_inv temp scratch str N m0 (put m scratch xs) out T"
proof -
  have "bytes (put m scratch xs) temp 32 = bytes m temp 32"
    using lay len by (intro bytes_put_far) (auto simp: layout_def intro: apart_mono)
  moreover have "bytes (put m scratch xs) str (length out) = bytes m str (length out)"
    using lay inv len by (intro bytes_put_far) (auto simp: layout_def vs_inv_def intro: apart_mono)
  ultimately show ?thesis using inv len by (auto simp: vs_inv_def outside_def put_far)
qed

section \<open>Appending a string\<close>

lemma cstr_cong:
  assumes "cstr m p xs" and "\<And>i. i \<le> length xs \<Longrightarrow> m' (p + of_nat i) = m (p + of_nat i)"
  shows "cstr m' p xs"
proof -
  have "bytes m' p (length xs) = bytes m p (length xs)" using assms(2) by (intro nth_equalityI) simp_all
  then show ?thesis using assms by (simp add: cstr_def)
qed

lemma append_loop_put:
  assumes "cstr m src (ys @ xs)" and "\<forall>i \<le> length (ys @ xs). N \<le> unat (src + of_nat i - str)"
    and "w + length xs \<le> N" and "N \<le> 2 ^ 31"
  shows "append_loop m str w src (of_nat (length ys)) = Some (w + length xs, put m (str + of_nat w) xs)"
  using assms
proof (induction xs arbitrary: m w ys)
  case Nil
  then show ?case using strlen_cstr [OF Nil(1)] by (subst append_loop.simps) simp
next
  case (Cons x xs)
  let ?n = "length (ys @ x # xs)" and ?m = "m(str + of_nat w := x)"
  have u: "unat (of_nat (length ys) :: u64) = length ys" "unat (of_nat ?n :: u64) = ?n"
    using Cons.prems(1) by (intro unat_of_nat_u64; simp add: cstr_def)+
  have lt: "(of_nat (length ys) :: u64) < of_nat ?n" unfolding word_less_nat_alt u by simp
  have x: "m (src + of_nat (length ys)) = x" using cstr_byte [OF Cons.prems(1), of "length ys"] by simp
  have m: "?m = put m (str + of_nat w) [x]" by (simp add: put_Cons)
  have "cstr ?m src (ys @ x # xs)"
  proof (rule cstr_cong [OF Cons.prems(1)])
    fix i assume "i \<le> ?n"
    then have "N \<le> unat (src + of_nat i - str)" using Cons.prems(2) by simp
    then show "?m (src + of_nat i) = m (src + of_nat i)"
      unfolding m using Cons.prems(3,4) by (intro put_sub_far [of N]) simp_all
  qed
  then have "append_loop ?m str (Suc w) src (of_nat (length (ys @ [x]))) =
      Some (Suc w + length xs, put ?m (str + of_nat (Suc w)) xs)"
    using Cons.prems by (intro Cons.IH) (simp_all add: fun_upd_def)
  moreover have "put m (str + of_nat w) (x # xs) = put ?m (str + of_nat (Suc w)) xs"
    using Cons.prems(3,4) by (subst put_Cons) (simp_all add: ac_simps)
  ultimately show ?case
    using lt x strlen_cstr [OF Cons.prems(1)] by (subst append_loop.simps) (simp add: add.commute)
qed

lemma vs_append:
  assumes "vs_inv temp scratch str N m0 m out T" and "layout S temp scratch str N fmt F m0"
    and "cstr m src xs" and "\<forall>i \<le> length xs. N \<le> unat (src + of_nat i - str)"
    and "length out + length xs \<le> N"
  obtains m' where "append_loop m str (length out) src 0 = Some (length out + length xs, m')"
    and "vs_inv temp scratch str N m0 m' (out @ xs) T"
proof
  show "append_loop m str (length out) src 0 =
      Some (length out + length xs, put m (str + of_nat (length out)) xs)"
    using append_loop_put [of m src "[]" xs N str "length out"] assms by (simp add: layout_def)
qed (rule vs_inv_out [OF assms(1,2,5)])

text \<open>The text in \<^verbatim>\<open>temp\<close>.\<close>

lemma takeWhile_cstr:
  assumes "bytes m p n = T" and "0 \<in> set T" and "n < 2 ^ 64"
  shows "cstr m p (ctext T)" and "length (ctext T) < n"
proof -
  have n: "length T = n" using assms(1) by auto
  have "ctext T \<noteq> T" using assms(2) by (metis ctext_def set_takeWhileD)
  then have lt: "length (ctext T) < length T"
    using length_takeWhile_le [of "\<lambda>c. c \<noteq> 0" T] takeWhile_eq_take [of "\<lambda>c. c \<noteq> 0" T]
    by (metis ctext_def le_neq_implies_less take_all_iff)
  then show "length (ctext T) < n" using n by simp
  have at: "m (p + of_nat i) = T ! i" if "i < n" for i using assms(1) that by (metis nth_bytes)
  have "bytes m p (length (ctext T)) = ctext T"
    using at lt n by (intro nth_equalityI) (simp_all add: ctext_def takeWhile_nth)
  moreover have "T ! length (ctext T) = 0" using lt nth_length_takeWhile by (fastforce simp: ctext_def)
  ultimately show "cstr m p (ctext T)"
    using lt n at assms(3) by (auto simp: cstr_def ctext_def dest: set_takeWhileD)
qed

lemma vs_append_temp:
  assumes "vs_inv temp scratch str N m0 m out T" and "layout S temp scratch str N fmt F m0"
    and "length out + length (ctext T) \<le> N"
  obtains m' where "append_loop m str (length out) temp 0 = Some (length out + length (ctext T), m')"
    and "vs_inv temp scratch str N m0 m' (out @ ctext T) T"
proof -
  have T: "bytes m temp 32 = T" "T ! 31 = 0" using assms(1) by (simp_all add: vs_inv_def)
  then have "length T = 32" by auto
  then have "0 \<in> set T" using T(2) nth_mem [of 31 T] by simp
  moreover have "(32 :: nat) < 2 ^ 64" by simp
  ultimately have tw: "cstr m temp (ctext T)" "length (ctext T) < 32" using takeWhile_cstr [OF T(1)] by blast+
  have "\<forall>i \<le> length (ctext T). N \<le> unat (temp + of_nat i - str)"
    using assms(2) tw(2) by (auto simp: layout_def apart_def)
  from vs_append [OF assms(1,2) tw(1) this assms(3)] that show thesis by blast
qed

section \<open>Conversions\<close>

lemma over_over: "over xs (over (rev xs @ [0]) T) = over (xs @ [0]) T"
  by (simp add: over_def)

lemma vs_itoa:
  assumes "vs_inv temp scratch str N m0 m out T" and "layout S temp scratch str N fmt F m0"
    and "\<bar>num\<bar> < 2 ^ 31"
  obtains m' where "itoa scratch m num temp 10 = Some (temp, m')"
    and "vs_inv temp scratch str N m0 m' out (over (int_chars 10 num @ [0]) T)"
proof -
  let ?xs = "int_chars 10 num"
  have len: "length ?xs \<le> 11" using length_int_chars(2) [of 10 num] assms(3) by simp
  have it: "itoa scratch m num temp 10 = Some (temp, itoa_mem scratch m temp ?xs)"
    using itoa_int_chars [of 10 num scratch temp m] assms(2,3) by (simp add: layout_def)
  have "vs_inv temp scratch str N m0 (itoa_mem scratch m temp ?xs) out (over (?xs @ [0]) T)"
  proof (cases "?xs = [48]")
    case True
    then show ?thesis using vs_inv_temp [OF assms(1,2), of "[48, 0]"] by (simp add: itoa_mem_def)
  next
    case False
    have "vs_inv temp scratch str N m0 (put m temp (rev ?xs @ [0])) out (over (rev ?xs @ [0]) T)"
      using len by (intro vs_inv_temp [OF assms(1,2)]) simp
    then have "vs_inv temp scratch str N m0 (put (put m temp (rev ?xs @ [0])) scratch (rev ?xs @ [0])) out
        (over (rev ?xs @ [0]) T)"
      using len by (intro vs_inv_scratch [OF _ assms(2)]) simp_all
    then have "vs_inv temp scratch str N m0 (put (put (put m temp (rev ?xs @ [0])) scratch (rev ?xs @ [0])) temp ?xs) out
        (over ?xs (over (rev ?xs @ [0]) T))"
      using len by (intro vs_inv_temp [OF _ assms(2)]) simp_all
    then show ?thesis using False by (simp add: itoa_mem_def over_over)
  qed
  with it that show thesis by blast
qed

lemma vs_format:
  assumes "vs_inv temp scratch str N m0 m out T" and "layout S temp scratch str N fmt (pre @ f) m0"
  shows "m (fmt + of_nat (length pre)) = (case f of [] \<Rightarrow> 0 | c # g \<Rightarrow> c)"
proof -
  have c: "cstr m0 fmt (pre @ f)" and o: "outside temp scratch str N (fmt + of_nat (length pre))"
    using assms(2) by (simp_all add: layout_def)
  have "m (fmt + of_nat (length pre)) = m0 (fmt + of_nat (length pre))" using assms(1) o by (simp add: vs_inv_def)
  also have "\<dots> = (case f of [] \<Rightarrow> 0 | c # g \<Rightarrow> c)"
    using c cstr_byte [OF c, of "length pre"] by (cases f) (simp_all add: cstr_def)
  finally show ?thesis .
qed

lemma vs_cstr:
  assumes "vs_inv temp scratch str N m0 m out T" and "layout S temp scratch str N fmt F m0"
  shows "cstr m fmt F" and "S p = Some xs \<Longrightarrow> cstr m p xs"
    and "S p = Some xs \<Longrightarrow> \<forall>i \<le> length xs. N \<le> unat (p + of_nat i - str)"
proof -
  have same: "m x = m0 x" if "outside temp scratch str N x" for x using assms(1) that unfolding vs_inv_def by blast
  have "cstr m0 fmt F" and "\<forall>i \<le> length F. outside temp scratch str N (fmt + of_nat i)"
    using assms(2) unfolding layout_def by blast+
  then show "cstr m fmt F" by (elim cstr_cong) (simp add: same)
  assume S: "S p = Some xs"
  then have "cstr m0 p xs" and o: "\<forall>i \<le> length xs. outside temp scratch str N (p + of_nat i)"
    using assms(2) unfolding layout_def by blast+
  then show "cstr m p xs" by (elim cstr_cong) (simp add: same)
  show "\<forall>i \<le> length xs. N \<le> unat (p + of_nat i - str)" using o by (simp add: outside_def)
qed

lemma sint_u32_bound: "sint (v :: u32) \<noteq> - (2 ^ 31) \<Longrightarrow> \<bar>sint v\<bar> < 2 ^ 31"
  using sint_greater_eq [of v] sint_less [of v] by simp

text \<open>The result of a conversion, as the reference gives it.\<close>

definition conv_post where
  "conv_post temp scratch str N fmt F m0 out res t T' f' vs \<longleftrightarrow>
     (\<exists>m' pre'. res = Some (m', length out + length t, vs, of_nat (length pre')) \<and> F = pre' @ f' \<and>
        vs_inv temp scratch str N m0 m' (out @ t) T')"

lemma index_snoc: "of_nat (length pre) + 1 = (of_nat (length (pre @ [c])) :: u64)"
  by simp

lemma index_snoc2: "of_nat (length pre) + 1 + 1 = (of_nat (length (pre @ [c, d])) :: u64)"
  by simp

lemma index_snoc3: "of_nat (length pre) + 1 + 1 + 1 = (of_nat (length (pre @ [c, d, e])) :: u64)"
  by simp

lemma conv_postI:
  assumes "res = Some (m', length out + length t, vs, i)" and "i = of_nat (length pre')" and "F = pre' @ f'"
    and "vs_inv temp scratch str N m0 m' (out @ t) T'"
  shows "conv_post temp scratch str N fmt F m0 out res t T' f' vs"
  using assms unfolding conv_post_def by blast

text \<open>The conversions that begin with \<^verbatim>\<open>l\<close>.\<close>

lemma vs_conv_long:
  assumes inv: "vs_inv temp scratch str N m0 m out T" and lay: "layout S temp scratch str N fmt (pre @ 108 # g) m0"
    and conv: "conv_out S T (108 # g) args = Some (t, T', f', vs)" and len: "length out + length t \<le> N"
  shows "conv_post temp scratch str N fmt (pre @ 108 # g) m0 out
    (vsprintf_conv temp scratch str fmt m (length out) args (of_nat (length pre))) t T' f' vs"
proof -
  have c: "m (fmt + of_nat (length pre)) = 108" using vs_format [OF inv lay] by simp
  have d: "m (fmt + (of_nat (length pre) + 1)) = (case g of [] \<Rightarrow> 0 | d # h \<Rightarrow> d)"
    unfolding index_snoc [of _ 108] using lay by (intro vs_format [OF inv]) simp
  show ?thesis
  proof (cases "g \<noteq> [] \<and> hd g = 108")
    case False
    then have "m (fmt + (of_nat (length pre) + 1)) \<noteq> 108" using d by (cases g) auto
    then show ?thesis using False conv inv c
      by (intro conv_postI [of _ m _ _ _ "of_nat (length pre) + 1" "pre @ [108]", OF _ index_snoc])
        (auto simp: conv_out_def vsprintf_conv_def)
  next
    case True
    then obtain h where g: "g = 108 # h" by (cases g) auto
    have e: "m (fmt + (of_nat (length pre) + 1 + 1)) = (case h of [] \<Rightarrow> 0 | d # h \<Rightarrow> d)"
      unfolding index_snoc2 [of _ 108 108] using lay g by (intro vs_format [OF inv]) simp
    show ?thesis
    proof (cases "h \<noteq> [] \<and> hd h = 120")
      case False
      then have "m (fmt + (of_nat (length pre) + 1 + 1)) \<noteq> 120" using e by (cases h) auto
      then show ?thesis using False conv inv c d g
        by (intro conv_postI [of _ m _ _ _ "of_nat (length pre) + 1 + 1" "pre @ [108, 108]", OF _ index_snoc2])
          (auto simp: conv_out_def vsprintf_conv_def)
    next
      case True
      then obtain k where h: "h = 120 # k" by (cases h) auto
      obtain v where v: "args = v # vs" "f' = k" "t = ctext T'" "T' = over (hex_digits 16 (unat v)) T"
        using conv_out_llx [OF conv [unfolded g h]] by blast
      have "vs_inv temp scratch str N m0 (x64toa m v temp) out T'"
        using vs_inv_temp [OF inv lay] unfolding x64toa_put v(4) by simp
      from vs_append_temp [OF this lay] len obtain m2 where
        m2: "append_loop (x64toa m v temp) str (length out) temp 0 = Some (length out + length t, m2)"
          "vs_inv temp scratch str N m0 m2 (out @ t) T'"
        unfolding v(3) by blast
      show ?thesis using m2 c d e g h v(1,2)
        by (intro conv_postI [of _ m2 _ _ _ "of_nat (length pre) + 1 + 1 + 1" "pre @ [108, 108, 120]", OF _ index_snoc3])
          (simp_all add: vsprintf_conv_def va_arg_def)
    qed
  qed
qed

text \<open>Decimal and hexadecimal conversions.\<close>

lemma vs_conv_d:
  assumes inv: "vs_inv temp scratch str N m0 m out T" and lay: "layout S temp scratch str N fmt (pre @ 100 # g) m0"
    and conv: "conv_out S T (100 # g) args = Some (t, T', f', vs)" and len: "length out + length t \<le> N"
  shows "conv_post temp scratch str N fmt (pre @ 100 # g) m0 out
    (vsprintf_conv temp scratch str fmt m (length out) args (of_nat (length pre))) t T' f' vs"
proof -
  have c: "m (fmt + of_nat (length pre)) = 100" using vs_format [OF inv lay] by simp
  obtain v where v: "args = v # vs" "sint (ucast v :: u32) \<noteq> - (2 ^ 31)" "f' = g" "t = ctext T'"
      "T' = over (int_chars 10 (sint (ucast v :: u32)) @ [0]) T"
    using conv_out_d [OF conv] by blast
  obtain m1 where m1: "itoa scratch m (sint (ucast v :: u32)) temp 10 = Some (temp, m1)"
      "vs_inv temp scratch str N m0 m1 out T'"
    using vs_itoa [OF inv lay sint_u32_bound [OF v(2)]] v(5) by blast
  obtain m2 where m2: "append_loop m1 str (length out) temp 0 = Some (length out + length t, m2)"
      "vs_inv temp scratch str N m0 m2 (out @ t) T'"
    using vs_append_temp [OF m1(2) lay] len unfolding v(4) by blast
  show ?thesis using m1(1) m2 c v(1,3)
    by (intro conv_postI [of _ m2 _ _ _ "of_nat (length pre) + 1" "pre @ [100]", OF _ index_snoc]) (simp_all add: vsprintf_conv_def va_arg_def)
qed

lemma vs_conv_x:
  assumes inv: "vs_inv temp scratch str N m0 m out T" and lay: "layout S temp scratch str N fmt (pre @ 120 # g) m0"
    and conv: "conv_out S T (120 # g) args = Some (t, T', f', vs)" and len: "length out + length t \<le> N"
  shows "conv_post temp scratch str N fmt (pre @ 120 # g) m0 out
    (vsprintf_conv temp scratch str fmt m (length out) args (of_nat (length pre))) t T' f' vs"
proof -
  have c: "m (fmt + of_nat (length pre)) = 120" using vs_format [OF inv lay] by simp
  obtain v where v: "args = v # vs" "f' = g" "t = ctext T'" "T' = over (hex_digits 8 (unat (ucast v :: u32))) T"
    using conv_out_x [OF conv] by blast
  have "vs_inv temp scratch str N m0 (x32toa m (ucast v) temp) out T'"
    using vs_inv_temp [OF inv lay] unfolding x32toa_put v(4) by simp
  from vs_append_temp [OF this lay] len obtain m2 where
    m2: "append_loop (x32toa m (ucast v) temp) str (length out) temp 0 = Some (length out + length t, m2)"
      "vs_inv temp scratch str N m0 m2 (out @ t) T'"
    unfolding v(3) by blast
  show ?thesis using m2 c v(1,2)
    by (intro conv_postI [of _ m2 _ _ _ "of_nat (length pre) + 1" "pre @ [120]", OF _ index_snoc]) (simp_all add: vsprintf_conv_def va_arg_def)
qed

lemma vs_conv:
  assumes inv: "vs_inv temp scratch str N m0 m out T" and lay: "layout S temp scratch str N fmt (pre @ f) m0"
    and conv: "conv_out S T f args = Some (t, T', f', vs)" and len: "length out + length t \<le> N"
  shows "conv_post temp scratch str N fmt (pre @ f) m0 out
    (vsprintf_conv temp scratch str fmt m (length out) args (of_nat (length pre))) t T' f' vs"
proof (cases f)
  case Nil
  then show ?thesis
    using conv inv vs_format [OF inv lay]
    by (intro conv_postI [of _ m _ _ _ "of_nat (length pre)" pre, OF _ refl]) (simp_all add: conv_out_def vsprintf_conv_def)
next
  case (Cons c g)
  have c: "m (fmt + of_nat (length pre)) = c" using vs_format [OF inv lay] Cons by simp
  consider "c = 99" | "c = 100" | "c = 120" | "c = 115" | "c = 108" | "c \<notin> {99, 100, 120, 115, 108}" by blast
  then show ?thesis
  proof cases
    case 1
    obtain v where v: "args = v # vs" "t = [ucast v]" "T' = T" "f' = g"
      using conv Cons 1 by (auto simp: conv_out_def va_arg_def split: list.splits)
    show ?thesis
      using v c 1 Cons len vs_inv_out [OF inv lay, of t]
      by (intro conv_postI [of _ "put m (str + of_nat (length out)) t" _ _ _ "of_nat (length pre) + 1" "pre @ [c]", OF _ index_snoc])
        (simp_all add: vsprintf_conv_def va_arg_def put_Cons)
  next
    case 2
    then show ?thesis using vs_conv_d [OF inv _ _ len] lay conv Cons by simp
  next
    case 3
    then show ?thesis using vs_conv_x [OF inv _ _ len] lay conv Cons by simp
  next
    case 4
    obtain v where v: "args = v # vs" "f' = g" "T' = T" "S v = Some t"
      using conv Cons 4 by (auto simp: conv_out_def va_arg_def split: list.splits bind_splits)
    obtain m2 where m2: "append_loop m str (length out) v 0 = Some (length out + length t, m2)"
        "vs_inv temp scratch str N m0 m2 (out @ t) T"
      using vs_append [OF inv lay vs_cstr(2,3) [OF inv lay v(4)] len] by blast
    show ?thesis using m2 c 4 Cons v(1-3)
      by (intro conv_postI [of _ m2 _ _ _ "of_nat (length pre) + 1" "pre @ [c]", OF _ index_snoc]) (simp_all add: vsprintf_conv_def va_arg_def)
  next
    case 5
    then show ?thesis using vs_conv_long [OF inv lay [unfolded Cons 5] _ len] conv Cons c by simp
  next
    case 6
    then show ?thesis using conv c inv Cons
      by (intro conv_postI [of _ m _ _ _ "of_nat (length pre)" pre, OF _ refl]) (auto simp: conv_out_def vsprintf_conv_def Let_def)
  qed
qed

section \<open>The loop\<close>

lemma index_less_iff:
  assumes "cstr m fmt (pre @ f)"
  shows "(of_nat (length pre) :: u64) < of_nat (length (pre @ f)) \<longleftrightarrow> f \<noteq> []"
proof -
  have "unat (of_nat (length pre) :: u64) = length pre" "unat (of_nat (length (pre @ f)) :: u64) = length (pre @ f)"
    using assms by (intro unat_of_nat_u64; simp add: cstr_def)+
  then show ?thesis unfolding word_less_nat_alt by simp
qed

text \<open>Copying the character at the current index.\<close>

lemma vs_copy:
  assumes "vs_inv temp scratch str N m0 m out T" and "layout S temp scratch str N fmt F m0" and "length out < N"
  shows "vs_inv temp scratch str N m0 (m(str + of_nat (length out) := c)) (out @ [c]) T"
  using vs_inv_out [OF assms(1,2), of "[c]"] assms(3) by (simp add: put_Cons)

lemma vs_loop_end:
  assumes "vs_inv temp scratch str N m0 m out T" and "layout S temp scratch str N fmt F m0"
    and "length F \<le> unat i"
  shows "vsprintf_loop temp scratch str fmt m w args i = Some (w, m)"
proof -
  have c: "cstr m fmt F" by (rule vs_cstr(1) [OF assms(1,2)])
  have "\<not> i < of_nat (length F)" using assms(3) by (simp add: word_less_nat_alt unat_length_cstr [OF c])
  then show ?thesis using strlen_cstr [OF c] by (subst vsprintf_loop.simps) simp
qed

lemma vs_loop_step:
  assumes "vs_inv temp scratch str N m0 m out T" and "layout S temp scratch str N fmt (pre @ c # f) m0"
  shows "vsprintf_loop temp scratch str fmt m w args (of_nat (length pre)) =
    Option.bind
      (if c = 37 then vsprintf_conv temp scratch str fmt m w args (of_nat (length pre) + 1)
       else Some (m, w, args, of_nat (length pre)))
      (\<lambda>(m, w, args, i).
         vsprintf_loop temp scratch str fmt (m(str + of_nat w := m (fmt + i))) (Suc w) args (i + 1))"
proof -
  have s: "cstr m fmt (pre @ c # f)" by (rule vs_cstr(1) [OF assms])
  have "m (fmt + of_nat (length pre)) = c" using vs_format [OF assms] by simp
  then show ?thesis
    using strlen_cstr [OF s] index_less_iff [OF s] by (subst vsprintf_loop.simps) simp
qed

text \<open>A round with a conversion, up to the character after it, which is copied unseen.\<close>

lemma vs_loop_conv:
  assumes inv: "vs_inv temp scratch str N m0 m out T" and lay: "layout S temp scratch str N fmt (pre @ 37 # f) m0"
    and conv: "conv_out S T f args = Some (x, T1, f1, vs)" and lx: "length out + length x < N"
  obtains m1 pre1 where "layout S temp scratch str N fmt (pre1 @ f1) m0"
    and "vs_inv temp scratch str N m0 m1 (out @ x @ [case f1 of [] \<Rightarrow> 0 | d # f2 \<Rightarrow> d]) T1"
    and "vsprintf_loop temp scratch str fmt m (length out) args (of_nat (length pre)) =
      vsprintf_loop temp scratch str fmt m1 (Suc (length out + length x)) vs (of_nat (Suc (length pre1)))"
proof -
  have lay1: "layout S temp scratch str N fmt ((pre @ [37]) @ f) m0" using lay by simp
  obtain m1 pre1 where m1: "vsprintf_conv temp scratch str fmt m (length out) args (of_nat (length (pre @ [37]))) =
      Some (m1, length out + length x, vs, of_nat (length pre1))" "pre @ 37 # f = pre1 @ f1"
      "vs_inv temp scratch str N m0 m1 (out @ x) T1"
    using vs_conv [OF inv lay1 conv] lx unfolding conv_post_def by auto
  have lay2: "layout S temp scratch str N fmt (pre1 @ f1) m0" using lay m1(2) by simp
  define d where "d = (case f1 of [] \<Rightarrow> 0 | d # f2 \<Rightarrow> d)"
  have d: "m1 (fmt + of_nat (length pre1)) = d" using vs_format [OF m1(3) lay2] by (simp add: d_def)
  let ?m = "m1(str + of_nat (length out + length x) := d)"
  have inv2: "vs_inv temp scratch str N m0 ?m (out @ x @ [d]) T1"
    using vs_copy [OF m1(3) lay2, of d] lx by simp
  have "vsprintf_loop temp scratch str fmt m (length out) args (of_nat (length pre)) =
      vsprintf_loop temp scratch str fmt ?m (Suc (length out + length x)) vs (of_nat (Suc (length pre1)))"
    using vs_loop_step [OF inv lay, of "length out" args] m1(1) [folded index_snoc] d index_snoc [of pre1 d] by simp
  then show ?thesis using that [OF lay2 inv2 [unfolded d_def]] unfolding d_def by blast
qed

lemma vs_loop:
  assumes "vs_out S T f args = Some t" and "vs_inv temp scratch str N m0 m out T"
    and "layout S temp scratch str N fmt (pre @ f) m0" and "length out + length t \<le> N"
  shows "\<exists>m' T'. vsprintf_loop temp scratch str fmt m (length out) args (of_nat (length pre)) =
      Some (length out + length t, m') \<and> vs_inv temp scratch str N m0 m' (out @ t) T'"
  using assms
proof (induction S T f args arbitrary: m out pre t rule: vs_out.induct)
  case (1 S T args)
  have "unat (of_nat (length pre) :: u64) = length pre"
    using 1(3) unat_length_cstr [of m0 fmt pre] by (simp add: layout_def)
  then show ?case using vs_loop_end [OF 1(2,3)] 1 by auto
next
  case (2 S T c f args)
  note inv = "2.prems"(2) and lay = "2.prems"(3)
  show ?case
  proof (cases "c = 37")
    case False
    then obtain r where r: "vs_out S T f args = Some r" "t = c # r" using "2.prems"(1) by auto
    let ?m = "m(str + of_nat (length out) := c)"
    have "vs_inv temp scratch str N m0 ?m (out @ [c]) T"
      using "2.prems"(4) r(2) by (intro vs_copy [OF inv lay]) simp
    then have "\<exists>m' T'. vsprintf_loop temp scratch str fmt ?m (length (out @ [c])) args (of_nat (length (pre @ [c]))) =
        Some (length (out @ [c]) + length r, m') \<and> vs_inv temp scratch str N m0 m' ((out @ [c]) @ r) T'"
      using "2.prems"(3,4) r False by (intro "2.IH"(2)) (simp_all add: fun_upd_def)
    moreover have "m (fmt + of_nat (length pre)) = c" using vs_format [OF inv lay] by simp
    ultimately show ?thesis
      using vs_loop_step [OF inv lay, of "length out" args] False r(2) index_snoc [of pre c] by simp
  next
    case True
    obtain x T1 f1 vs where conv: "conv_out S T f args = Some (x, T1, f1, vs)"
      using "2.prems"(1) True by (auto split: option.splits)
    have lx: "length out + length x < N"
      using "2.prems"(1,4) True conv by (auto split: list.splits)
    from vs_loop_conv [OF inv lay [unfolded True] conv lx] obtain m1 pre1 where
      lay2: "layout S temp scratch str N fmt (pre1 @ f1) m0"
      and inv2: "vs_inv temp scratch str N m0 m1 (out @ x @ [case f1 of [] \<Rightarrow> 0 | d # f2 \<Rightarrow> d]) T1"
      and step: "vsprintf_loop temp scratch str fmt m (length out) args (of_nat (length pre)) =
        vsprintf_loop temp scratch str fmt m1 (Suc (length out + length x)) vs (of_nat (Suc (length pre1)))" by blast
    show ?thesis
    proof (cases f1)
      case Nil
      have t: "t = x @ [0]" using "2.prems"(1) True conv Nil by simp
      have "unat (of_nat (Suc (length pre1)) :: u64) = Suc (length pre1)"
        using lay2 Nil by (intro unat_of_nat_u64) (simp add: layout_def cstr_def)
      then show ?thesis
        using step vs_loop_end [OF inv2 lay2, of "of_nat (Suc (length pre1))"] Nil t inv2 by auto
    next
      case (Cons d f2)
      obtain r where r: "vs_out S T1 f2 vs = Some r" "t = x @ d # r"
        using "2.prems"(1) True conv Cons by auto
      have "\<exists>m' T'. vsprintf_loop temp scratch str fmt m1 (length (out @ x @ [d])) vs (of_nat (length (pre1 @ [d]))) =
          Some (length (out @ x @ [d]) + length r, m') \<and> vs_inv temp scratch str N m0 m' ((out @ x @ [d]) @ r) T'"
        using "2.IH"(1) [OF True conv refl refl refl Cons r(1), of m1 "out @ x @ [d]" "pre1 @ [d]"] inv2 lay2 Cons "2.prems"(4) r(2)
        by simp
      then show ?thesis unfolding step using r(2) by (simp add: add.assoc)
    qed
  qed
qed

section \<open>Properties\<close>

lemma vs_out_plain: "37 \<notin> set F \<Longrightarrow> vs_out S T F args = Some F"
  by (induction F) auto

lemma vsprintf_returns:
  assumes "layout S temp scratch str N fmt F m" and "vs_out S (replicate 32 0) F args = Some out"
    and "length out \<le> N"
  shows "\<exists>m'. vsprintf temp scratch m str fmt args = Some (length out, m') \<and>
    bytes m' str (length out) = out \<and> (\<forall>x. outside temp scratch str N x \<longrightarrow> m' x = m x)"
proof -
  have "unat (of_nat i :: u64) = i" if "i < 32" for i using that by (intro unat_of_nat_u64) simp
  then have "bytes (fill m temp 32 0) temp 32 = replicate 32 0"
    by (intro nth_equalityI) (simp_all add: fill_def)
  then have "vs_inv temp scratch str N m (fill m temp 32 0) [] (replicate 32 0)"
    by (simp add: vs_inv_def outside_def fill_def bytes_def)
  from vs_loop [OF assms(2) this, of fmt "[]"] assms(1,3) show ?thesis
    by (auto simp: vsprintf_def vs_inv_def)
qed

text \<open>
  C16: vsprintf ends and its output is the one of the reference, for every format, every argument list
  that has an argument for each conversion (no \<^verbatim>\<open>%d\<close> of the least \<^verbatim>\<open>int\<close>, whose negation C does not define),
  and every output that fits the buffer: the count it
  returns is the length of the output, and it writes nowhere but in the output buffer and the two
  local arrays.
\<close>
theorem vsprintf_refines:
  assumes "layout S temp scratch str N fmt F m" and "vs_out S (replicate 32 0) F args = Some out"
    and "length out \<le> N"
  shows "\<exists>m'. vsprintf temp scratch m str fmt args = Some (length out, m') \<and>
    bytes m' str (length out) = out \<and> (\<forall>x. outside temp scratch str N x \<longrightarrow> m' x = m x)"
  using assms by (rule vsprintf_returns)

text \<open>The format \<^verbatim>\<open>%llx %x.\<close> in a memory that is otherwise zero.\<close>

definition demo_format :: mem where
  "demo_format = put (\<lambda>x. 0) 0x1000 [37, 108, 108, 120, 32, 37, 120, 46]"

lemma demo_layout:
  "layout (\<lambda>p. None) 0x2000 0x3000 0x4000 64 0x1000 [37, 108, 108, 120, 32, 37, 120, 46] demo_format"
proof -
  have "cstr demo_format 0x1000 [37, 108, 108, 120, 32, 37, 120, 46]"
    by (simp add: cstr_def demo_format_def put_def bytes_def)
  moreover have "outside 0x2000 0x3000 0x4000 64 (0x1000 + of_nat i)" if "i \<le> 8" for i
  proof -
    have "unat (of_nat i :: u64) = i" using that by (intro unat_of_nat_u64) simp
    then show ?thesis using that by (simp add: outside_def unat_sub_if' size_word_def)
  qed
  ultimately show ?thesis by (simp add: layout_def apartI)
qed

text \<open>
  The second conversion prints the eight digits of its argument and then the last eight digits of
  the first one, left over in the local array.
\<close>

lemma demo_digits:
  "hex_digits 16 0x1111222233334444 = [49, 49, 49, 49, 50, 50, 50, 50, 51, 51, 51, 51, 52, 52, 52, 52]"
  "hex_digits 8 5 = [48, 48, 48, 48, 48, 48, 48, 53]"
  by (simp_all add: hex_digits_def hex_chars_def upt_conv_Cons)

theorem vsprintf_refines_witness:
  "\<exists>m'. vsprintf 0x2000 0x3000 demo_format 0x4000 0x1000 [0x1111222233334444, 0x5] = Some (34, m') \<and>
     bytes m' 0x4000 34 =
       [49, 49, 49, 49, 50, 50, 50, 50, 51, 51, 51, 51, 52, 52, 52, 52, 32,
        48, 48, 48, 48, 48, 48, 48, 53, 51, 51, 51, 51, 52, 52, 52, 52, 46]"
proof -
  let ?o = "[49, 49, 49, 49, 50, 50, 50, 50, 51, 51, 51, 51, 52, 52, 52, 52, 32,
        48, 48, 48, 48, 48, 48, 48, 53, 51, 51, 51, 51, 52, 52, 52, 52, 46] :: u8 list"
  have "vs_out (\<lambda>p. None) (replicate 32 0) [37, 108, 108, 120, 32, 37, 120, 46] [0x1111222233334444, 0x5] = Some ?o"
    by (simp add: conv_out_def va_arg_def over_def ctext_def demo_digits Let_def)
  moreover have l: "length ?o = 34" "(34 :: nat) \<le> 64" by simp_all
  ultimately show ?thesis using vsprintf_refines [OF demo_layout, of "[0x1111222233334444, 0x5]" ?o]
    unfolding l(1) by blast
qed

end
