(* ===== verification/Console.thy ===== *)
theory Console
  imports Vsprintf_Props
begin

text \<open>
  The text console: the framebuffer of \<^verbatim>\<open>kernel/framebuffer.h\<close>, the glyph renderer
  \<^verbatim>\<open>ssfn_putc\<close> of \<^verbatim>\<open>include/ssfn.h\<close> as \<^verbatim>\<open>kernel/drivers/ssfn_fb.c\<close> compiles it
  (32-bit pixels), and the functions of that file. The font and the pixels are bytes of the same
  memory. A signed 16-bit field is a 16-bit word read with \<^const>\<open>sint\<close>; an \<^verbatim>\<open>int\<close> local
  of the renderer is an integer, whose values stay far below \<open>2 ^ 31\<close>.
\<close>

section \<open>Data\<close>

record framebuffer_t =
  width :: u64
  height :: u64
  pixels_per_scanline :: u64
  margin :: u64
  buffer :: u64
  font :: u64
  font_size :: u64

record ssfn_buf_t =
  dst_ptr :: u64
  dst_w :: u16
  dst_h :: u16
  dst_p :: u16
  dst_x :: u16
  dst_y :: u16
  dst_fg :: u32
  dst_bg :: u32

text \<open>The two global variables of the renderer.\<close>

record ssfn_state =
  ssfn_src :: u64
  ssfn_dst :: ssfn_buf_t

abbreviation (input) SSFN_OK :: int where "SSFN_OK \<equiv> 0"
abbreviation (input) SSFN_ERR_INVINP :: int where "SSFN_ERR_INVINP \<equiv> - 4"
abbreviation (input) SSFN_ERR_NOGLYPH :: int where "SSFN_ERR_NOGLYPH \<equiv> - 7"

text \<open>Fields of the font header, \<^verbatim>\<open>ssfn_font_t\<close>.\<close>

definition font_magic :: "mem \<Rightarrow> u64 \<Rightarrow> u8 list" where
  "font_magic m src = [m src, m (src + 1), m (src + 2), m (src + 3)]"

definition font_height :: "mem \<Rightarrow> u64 \<Rightarrow> u8" where
  "font_height m src = m (src + 11)"

definition font_characters_offs :: "mem \<Rightarrow> u64 \<Rightarrow> u32" where
  "font_characters_offs m src = load32 m (src + 16)"

section \<open>ssfn\_putc\<close>

text \<open>The search for a character in the table of the font.\<close>

function find_glyph :: "mem \<Rightarrow> u64 \<Rightarrow> nat \<Rightarrow> u32 \<Rightarrow> u64 option" where
  "find_glyph m ptr i unicode =
     (if i < 0x110000
      then
        if m ptr = 0xFF then find_glyph m (ptr + 1) (i + 65535 + 1) unicode
        else if m ptr AND 0xC0 = 0xC0
        then find_glyph m (ptr + 2) (i + (256 * unat (m ptr AND 0x3F) + unat (m (ptr + 1))) + 1) unicode
        else if m ptr AND 0xC0 = 0x80
        then find_glyph m (ptr + 1) (i + unat (m ptr AND 0x3F) + 1) unicode
        else if of_nat i = unicode then Some ptr
        else find_glyph m (ptr + 6 + ucast (m (ptr + 1)) * (if m ptr AND 0x40 \<noteq> 0 then 6 else 5)) (i + 1) unicode
      else None)"
  by pat_completeness auto
termination
  by (relation "measure (\<lambda>(m, ptr, i, unicode). 0x110000 - i)") auto

text \<open>
  The drawing loops. \<open>o\<close> is the address of the first pixel of a row, \<open>row\<close> the
  variable \<^verbatim>\<open>y\<close> of the code, the number of the row in the glyph, and \<open>s\<close> the pixels per row.
  The tests against the width and the height of the buffer are off when these are 0.
\<close>

definition in_height :: "ssfn_buf_t \<Rightarrow> int \<Rightarrow> bool" where
  "in_height d row \<longleftrightarrow> dst_h d = 0 \<or> sint (dst_y d) + row < sint (dst_h d)"

definition in_width :: "ssfn_buf_t \<Rightarrow> nat \<Rightarrow> bool" where
  "in_width d col \<longleftrightarrow> dst_w d = 0 \<or> sint (dst_x d) + int col < \<bar>sint (dst_w d)\<bar>"

definition row_step :: "ssfn_buf_t \<Rightarrow> int" where
  "row_step d = uint (dst_p d) div 4"

text \<open>\<open>cols\<close> and \<open>rows\<close> are the addresses of the bounds, which the code reads in every round.\<close>

lemma unat_u8: "unat (b :: u8) < 256"
  using unsigned_less [of b, where 'a = nat] by simp

lemma u8_rounds: "j < unat (b :: u8) \<Longrightarrow> 255 - j < 256 - j"
  using unat_u8 [of b] by linarith

function fill_row :: "ssfn_buf_t \<Rightarrow> u64 \<Rightarrow> mem \<Rightarrow> u64 \<Rightarrow> nat \<Rightarrow> mem" where
  "fill_row d cols m p j =
     (if j < unat (m cols) \<and> in_width d j
      then fill_row d cols (store32 m p (dst_bg d)) (p + 4) (Suc j) else m)"
  by pat_completeness auto
termination
  by (relation "measure (\<lambda>(d, cols, m, p, j). 256 - j)") (auto intro: u8_rounds)

text \<open>Filling the rows of a glyph with the background.\<close>

function fill_rows :: "ssfn_buf_t \<Rightarrow> u64 \<Rightarrow> u64 \<Rightarrow> mem \<Rightarrow> u64 \<Rightarrow> int \<Rightarrow> mem \<times> u64 \<times> int" where
  "fill_rows d cols rows m o' row =
     (if row < int (unat (m rows)) \<and> in_height d row
      then fill_rows d cols rows (fill_row d cols m o' 0) (o' + 4 * word_of_int (row_step d)) (row + 1)
      else (m, o', row))"
  by pat_completeness auto
termination
proof (relation "measure (\<lambda>(d, cols, rows, m, o', row). nat (256 - row))")
  fix d :: ssfn_buf_t and cols rows :: u64 and m :: mem and o' :: u64 and row :: int
  assume "row < int (unat (m rows)) \<and> in_height d row"
  then have "row < 256" using unat_u8 [of "m rows"] by linarith
  then show "((d, cols, rows, fill_row d cols m o' 0, o' + 4 * word_of_int (row_step d), row + 1),
      d, cols, rows, m, o', row) \<in> measure (\<lambda>(d, cols, rows, m, o', row). nat (256 - row))" by simp
qed simp

text \<open>
  One row of a bitmap fragment: the mask \<open>bm\<close> runs through the bits of a byte and the address
  \<open>frg\<close> through the bytes.
\<close>

function draw_row :: "ssfn_buf_t \<Rightarrow> nat \<Rightarrow> mem \<Rightarrow> u64 \<Rightarrow> u64 \<Rightarrow> nat \<Rightarrow> nat \<Rightarrow> mem \<times> u64 \<times> nat" where
  "draw_row d cols m p frg bm l =
     (if l < cols
      then
        let (frg, bm) = (if bm > 0x80 then (frg + 1, 1) else (frg, bm));
            m = (if 0 \<le> sint (dst_x d) + int l \<and> in_width d l
                 then if unat (m frg) AND bm \<noteq> 0 then store32 m p (dst_fg d)
                   else if dst_bg d \<noteq> 0 then store32 m p (dst_bg d)
                   else m
                 else m)
        in draw_row d cols m (p + 4) frg (2 * bm) (Suc l)
      else (m, frg, bm))"
  by pat_completeness auto
termination
  by (relation "measure (\<lambda>(d, cols, m, p, frg, bm, l). cols - l)") auto

primrec draw_rows :: "ssfn_buf_t \<Rightarrow> nat \<Rightarrow> nat \<Rightarrow> mem \<Rightarrow> u64 \<Rightarrow> int \<Rightarrow> u64 \<Rightarrow> nat \<Rightarrow> mem \<times> u64 \<times> int" where
  "draw_rows d cols 0 m o' row frg bm = (m, o', row)"
| "draw_rows d cols (Suc j) m o' row frg bm =
     (if in_height d row
      then let (m, frg, bm) = draw_row d cols m o' frg bm 0
        in draw_rows d cols j m (o' + 4 * word_of_int (row_step d)) (row + 1) frg bm
      else (m, o', row))"

text \<open>The address of a fragment: a 32-bit \<^verbatim>\<open>int\<close> offset, or a 24-bit one.\<close>

definition fragment_addr :: "mem \<Rightarrow> u64 \<Rightarrow> u64 \<Rightarrow> u64 \<Rightarrow> u64" where
  "fragment_addr m src chr ptr =
     src + (if m chr AND 0x40 \<noteq> 0 then scast (load32 m (ptr + 2))
       else ucast (load_le m (ptr + 2) 3 :: u32))"

text \<open>One step of the loop over the fragments of the character at \<open>chr\<close>.\<close>

definition draw_fragment ::
  "ssfn_state \<Rightarrow> u64 \<Rightarrow> u64 \<Rightarrow> mem \<Rightarrow> u64 \<Rightarrow> int \<Rightarrow> mem \<times> u64 \<times> int" where
  "draw_fragment c chr ptr m o' row =
     (let d = ssfn_dst c; frg = fragment_addr m (ssfn_src c) chr ptr in
      if m ptr = 255 \<and> m (ptr + 1) = 255 then (m, o', row)
      else if m frg AND 0xE0 \<noteq> 0x80 then (m, o', row)
      else
        let top = int (unat (m (ptr + 1)));
            (m, o', row) =
              (if dst_bg d \<noteq> 0 then fill_rows d (chr + 2) (ptr + 1) m o' row
               else (m, o' + 4 * word_of_int ((top - row) * row_step d), top))
        in draw_rows d (8 * (unat (m frg AND 0x1F) + 1)) (unat (m (frg + 1)) + 1) m o' row (frg + 2) 1)"

function draw_fragments ::
  "ssfn_state \<Rightarrow> u64 \<Rightarrow> u64 \<Rightarrow> mem \<Rightarrow> u64 \<Rightarrow> int \<Rightarrow> nat \<Rightarrow> mem \<times> u64 \<times> int" where
  "draw_fragments c chr ptr m o' row i =
     (if i < unat (m (chr + 1))
      then let (m, o', row) = draw_fragment c chr ptr m o' row
        in draw_fragments c chr (ptr + (if m chr AND 0x40 \<noteq> 0 then 6 else 5)) m o' row (Suc i)
      else (m, o', row))"
  by pat_completeness auto
termination
  by (relation "measure (\<lambda>(c, chr, ptr, m, o', row, i). 256 - i)")
    (auto intro: u8_rounds)

declare find_glyph.simps [simp del] fill_row.simps [simp del] fill_rows.simps [simp del]
  draw_row.simps [simp del] draw_fragments.simps [simp del]

text \<open>The result is the error code, the new cursor and the memory.\<close>

definition ssfn_putc :: "ssfn_state \<Rightarrow> mem \<Rightarrow> u32 \<Rightarrow> int \<times> ssfn_state \<times> mem" where
  "ssfn_putc c m unicode =
     (let d = ssfn_dst c; src = ssfn_src c in
      if src = 0 \<or> font_magic m src \<noteq> [0x53, 0x46, 0x4E, 0x32] \<or> dst_ptr d = 0 \<or> dst_p d = 0
      then (SSFN_ERR_INVINP, c, m)
      else if unicode = 13 \<or> unicode = 10
      then
        let d = d\<lparr>dst_x := 0\<rparr>;
            d = (if unicode = 10 then d\<lparr>dst_y := dst_y d + ucast (font_height m src)\<rparr> else d)
        in (SSFN_OK, c\<lparr>ssfn_dst := d\<rparr>, m)
      else
        case find_glyph m (src + ucast (font_characters_offs m src)) 0 unicode of
          None \<Rightarrow> (SSFN_ERR_NOGLYPH, c, m)
        | Some chr \<Rightarrow>
            let ptr = chr + 6;
                o' = dst_ptr d + word_of_int (sint (dst_y d) * uint (dst_p d)) + 4 * scast (dst_x d);
                (m, o', row) = draw_fragments c chr ptr m o' 0 0;
                m = (if dst_bg d \<noteq> 0 then fst (fill_rows d (chr + 2) (chr + 3) m o' row) else m);
                d = d\<lparr>dst_x := dst_x d + ucast (m (chr + 4)), dst_y := dst_y d + ucast (m (chr + 5))\<rparr>
            in (SSFN_OK, c\<lparr>ssfn_dst := d\<rparr>, m))"

section \<open>The driver\<close>

definition ssfn_set_color :: "ssfn_state \<Rightarrow> u32 \<Rightarrow> u32 \<Rightarrow> ssfn_state" where
  "ssfn_set_color c foreground background =
     c\<lparr>ssfn_dst := (ssfn_dst c)\<lparr>dst_fg := foreground, dst_bg := background\<rparr>\<rparr>"

definition ssfn_setup :: "ssfn_state \<Rightarrow> framebuffer_t \<Rightarrow> ssfn_state" where
  "ssfn_setup c f =
     ssfn_set_color
       (c\<lparr>ssfn_src := font f,
          ssfn_dst := (ssfn_dst c)\<lparr>dst_ptr := buffer f, dst_p := ucast (4 * pixels_per_scanline f),
            dst_x := ucast (margin f), dst_y := ucast (margin f)\<rparr>\<rparr>)
       0xFFFFFFFF 0"

text \<open>
  A character is signed and widened with its sign. The cursor is widened with its sign to
  \<^verbatim>\<open>size_t\<close> for the comparisons.
\<close>

definition ssfn_put :: "ssfn_state \<Rightarrow> mem \<Rightarrow> framebuffer_t \<Rightarrow> u8 \<Rightarrow> ssfn_state \<times> mem" where
  "ssfn_put c m f ch =
     (let (_, c, m) = ssfn_putc c m (scast ch);
          (c, m) = (if scast (dst_x (ssfn_dst c)) > width f - margin f - 5
                    then let (_, c, m) = ssfn_putc c m 10 in (c, m) else (c, m));
          c = (if scast (dst_x (ssfn_dst c)) < margin f
               then c\<lparr>ssfn_dst := (ssfn_dst c)\<lparr>dst_x := ucast (margin f)\<rparr>\<rparr> else c);
          c = (if scast (dst_y (ssfn_dst c)) < margin f
               then c\<lparr>ssfn_dst := (ssfn_dst c)\<lparr>dst_y := ucast (margin f)\<rparr>\<rparr> else c)
      in (c, m))"

function ssfn_print_loop :: "framebuffer_t \<Rightarrow> u64 \<Rightarrow> nat \<Rightarrow> ssfn_state \<Rightarrow> mem \<Rightarrow> nat \<Rightarrow> ssfn_state \<times> mem" where
  "ssfn_print_loop f output written c m i =
     (if i < written
      then let (c, m) = ssfn_put c m f (m (output + of_nat i)) in ssfn_print_loop f output written c m (Suc i)
      else (c, m))"
  by pat_completeness auto
termination
  by (relation "measure (\<lambda>(f, output, written, c, m, i). written - i)") auto

declare ssfn_print_loop.simps [simp del]

text \<open>The addresses of the local arrays are parameters.\<close>

definition ssfn_printf ::
  "u64 \<Rightarrow> u64 \<Rightarrow> u64 \<Rightarrow> ssfn_state \<Rightarrow> mem \<Rightarrow> framebuffer_t \<Rightarrow> u64 \<Rightarrow> u64 list \<Rightarrow> (nat \<times> ssfn_state \<times> mem) option" where
  "ssfn_printf output temp scratch c m f format values = do {
     (written, m) \<leftarrow> vsprintf temp scratch (fill m output 1024 0) output format values;
     let (c, m) = ssfn_print_loop f output written c m 0;
     Some (written + 1, c, m)
   }"

end
