(* ===== verification/Kernel.thy ===== *)
theory Kernel
  imports Heap Gdt Console
begin

text \<open>
  The kernel proper, \<^verbatim>\<open>kernel/kernel.h\<close> and \<^verbatim>\<open>kernel/kernel.c\<close>: the structure the boot
  stage hands over, \<^verbatim>\<open>init_paging\<close> and \<^verbatim>\<open>kernel_start\<close>, which never returns. Its end is
  the \<^verbatim>\<open>hlt\<close> loop it stops in. Console output is a list of calls; what they draw is the
  business of the console component.
\<close>

section \<open>Data\<close>

record cpu_info_t =
  cpu_count :: u64
  apic_data :: u64

record colonel_t =
  physical_memory :: u64
  pml4 :: u64
  heap :: u64
  heap_size :: u64
  gdt :: u64
  rsdp2 :: u64
  cpus :: cpu_info_t
  fb :: framebuffer_t
  mmap_key :: u64

text \<open>The calls of the console functions.\<close>

datatype console_call =
    Ssfn_setup framebuffer_t
  | Ssfn_set_color u32 u32
  | Ssfn_printf string "parg list"

text \<open>
  The machine the kernel runs on: the structure \<^verbatim>\<open>system\<close> points to, the frame allocator
  behind its pointer, memory, control registers, descriptor table register, segment registers and
  what was sent to the console.
\<close>

record kstate =
  sys :: colonel_t
  kpm :: pmm
  kmem :: mem
  cr :: "nat \<Rightarrow> u64"
  gdtr :: gdt_desc
  seg_cs :: u16
  seg_data :: "u16 \<times> u16 \<times> u16"
  console :: "console_call list"

definition say :: "kstate \<Rightarrow> string \<Rightarrow> parg list \<Rightarrow> kstate" where
  "say k fmt args = k\<lparr>console := console k @ [Ssfn_printf fmt args]\<rparr>"

section \<open>init_paging\<close>

partial_function (option) init_paging_loop ::
  "pmm \<Rightarrow> mem \<Rightarrow> u64 \<Rightarrow> nat \<Rightarrow> (int \<times> pmm \<times> mem) option" where
  "init_paging_loop pm m root i =
     (if i < unat (block_count pm)
      then do {
        block \<leftarrow> aget (blocks pm) i;
        if btype block = PM_MMIO \<or> btype block = PM_RESERVED then init_paging_loop pm m root (Suc i)
        else do {
          let start = address block;
          let stop = start + frames_total block * frame_size;
          let start = (if start < frame_size then frame_size else start);
          if start \<ge> stop then init_paging_loop pm m root (Suc i)
          else do {
            (r, pm, m) \<leftarrow> map_range pm m root start start (stop - start) READ_WRITE_BIT;
            if r \<noteq> 0 then Some (- 1, pm, m) else init_paging_loop pm m root (Suc i)
          }
        }
      }
      else Some (0, pm, m))"

definition init_paging :: "kstate \<Rightarrow> (int \<times> kstate) option" where
  "init_paging k = do {
     (root, pm, m) \<leftarrow> init_pml4 (kpm k) (kmem k);
     let k = k\<lparr>sys := (sys k)\<lparr>pml4 := root\<rparr>, kpm := pm, kmem := m\<rparr>;
     if root = 0 then Some (- 1, k)
     else do {
       (r, pm, m) \<leftarrow> init_paging_loop (kpm k) (kmem k) (pml4 (sys k)) 0;
       let k = k\<lparr>kpm := pm, kmem := m\<rparr>;
       if r \<noteq> 0 then Some (- 1, k)
       else do {
         let fb_start = buffer (fb (sys k));
         let fb_length = pixels_per_scanline (fb (sys k)) * height (fb (sys k)) * 4;
         (r, pm, m) \<leftarrow> map_range (kpm k) (kmem k) (pml4 (sys k)) fb_start fb_start fb_length READ_WRITE_BIT;
         let k = k\<lparr>kpm := pm, kmem := m\<rparr>;
         if r \<noteq> 0 then Some (- 1, k)
         else Some (0, k\<lparr>cr := set_cr3 (cr k) (pml4 (sys k))\<rparr>)
       }
     }
   }"

section \<open>kernel_start\<close>

text \<open>
  \<^verbatim>\<open>gdt_flush\<close>, in assembly: load the register from the descriptor and reload the segment
  registers, the data segments with selector 0x10 and the code segment with 0x08.
\<close>

definition gdt_flush :: "kstate \<Rightarrow> u64 \<Rightarrow> kstate" where
  "gdt_flush k desc =
     k\<lparr>gdtr := load_gdt_desc (kmem k) desc, seg_cs := 0x08, seg_data := (0x10, 0x10, 0x10)\<rparr>"

definition gdt_entry_count :: u64 where
  "gdt_entry_count = 5"

text \<open>Where the kernel stops.\<close>

datatype halt = No_gdt_descriptor | No_gdt_base | No_page_tables | Up

definition add_kernel_segments :: "mem \<Rightarrow> u64 \<Rightarrow> mem" where
  "add_kernel_segments m desc =
     (let e = gdt_entry_create 0 0 0 0;
          m = gdt_entry_add m desc 0 e;
          e = gdt_entry_create 0 0xFFFFF 0x9A 0xA;
          m = gdt_entry_add m desc 1 e;
          e = gdt_entry_create 0 0xFFFFF 0x92 0xC;
          m = gdt_entry_add m desc 2 e;
          e = gdt_entry_create 0 0xFFFFF 0xFA 0xA;
          m = gdt_entry_add m desc 3 e;
          e = gdt_entry_create 0 0xFFFFF 0xF2 0xC
      in gdt_entry_add m desc 4 e)"

text \<open>
  \<open>package_string\<close> comes from the configured header and \<open>self\<close> is the address of
  \<^verbatim>\<open>kernel_start\<close>.
\<close>

definition kernel_start :: "string \<Rightarrow> u64 \<Rightarrow> kstate \<Rightarrow> colonel_t \<Rightarrow> (halt \<times> kstate) option" where
  "kernel_start package_string self k s = do {
     let k = k\<lparr>sys := s\<rparr>;
     let k = k\<lparr>console := console k @ [Ssfn_setup (fb (sys k)), Ssfn_set_color 0xFFFFFFFF 0]\<rparr>;
     let k = say k (''%s'' @ nl @ nl) [PStr package_string];
     let k = say k (''Copied physical memory map to 0x%x.'' @ nl) [PInt (physical_memory (sys k))];
     let k = say k (''kernel_start() is at 0x%llx.'' @ nl) [PInt self];
     let k = say k (''Starting kernel...'' @ nl) [];
     (desc, pm) \<leftarrow> frame_allocate (kpm k);
     let k = k\<lparr>kpm := pm\<rparr>;
     if desc = 0xFFFFFFFFFFFFFFFF
     then Some (No_gdt_descriptor, say k (''Failed to allocate GDT descriptor.'' @ nl) [])
     else do {
       let k = k\<lparr>sys := (sys k)\<lparr>gdt := desc\<rparr>\<rparr>;
       let k = say k (''Created GDT descriptor at 0x%x.'' @ nl) [PInt (gdt (sys k))];
       let k = k\<lparr>kmem := store16 (kmem k) (gdt (sys k)) (ucast (gdt_entry_count * 8 - 1))\<rparr>;
       (b, pm) \<leftarrow> frame_allocate (kpm k);
       let k = k\<lparr>kpm := pm\<rparr>;
       if b = 0xFFFFFFFFFFFFFFFF
       then Some (No_gdt_base, say k (''Failed to allocate GDT base.'' @ nl) [])
       else do {
         let k = k\<lparr>kmem := store64 (kmem k) (gdt (sys k) + 2) b\<rparr>;
         let k = k\<lparr>kmem := add_kernel_segments (kmem k) (gdt (sys k))\<rparr>;
         let k = gdt_flush k (gdt (sys k));
         let d = load_gdt_desc (kmem k) (gdt (sys k));
         let k = say k (''Setup GDT at 0x%x, limit: 0x%x.'' @ nl) [PInt (gdt_base d), PInt (ucast (gdt_limit d))];
         (r, k) \<leftarrow> init_paging k;
         if r \<noteq> 0 then Some (No_page_tables, say k (''Failed to build kernel page tables.'' @ nl) [])
         else Some (Up, say k (''Loaded kernel PML4 at 0x%llx.'' @ nl) [PInt (pml4 (sys k))])
       }
     }
   }"

end
