(* ===== verification/Kernel_Props.thy ===== *)
theory Kernel_Props
  imports Kernel
begin

text \<open>
  What the kernel sets up before it stops: page tables that map memory to itself, and a global
  descriptor table that survives building them.
\<close>

section \<open>Identity mappings\<close>

text \<open>
  Below \<open>2 ^ 48\<close>, exactly the addresses in \<open>S\<close> are translated, to themselves, by pages of
  4 KiB or 2 MiB.
\<close>

definition idmap :: "mem \<Rightarrow> u64 \<Rightarrow> nat set \<Rightarrow> bool" where
  "idmap m root S \<longleftrightarrow> (\<forall>va. unat va < 2 ^ 48 \<longrightarrow>
     walk m root va = (if unat va \<in> S then Some va else None) \<and>
     (\<forall>n e. leaf m root va = Some (n, e) \<longrightarrow> n \<le> 21))"

lemma voff_low:
  assumes "unat base + len \<le> 2 ^ 48" and "unat va < 2 ^ 48"
  shows "voff base va < len \<longleftrightarrow> unat base \<le> unat va \<and> unat va < unat base + len"
    and "unat base \<le> unat va \<Longrightarrow> base + of_nat (voff base va) = va"
proof -
  have below: "voff base va = unat va - unat base" if "unat base \<le> unat va"
  proof -
    have "uint va - uint base = int (unat va - unat base)" using that by (simp add: of_nat_diff)
    then show ?thesis using assms(2) by (simp add: voff_def)
  qed
  have above: "voff base va = unat va + 2 ^ 48 - unat base" if "unat va < unat base"
  proof -
    have "(uint va - uint base) mod 2 ^ 48 = (uint va - uint base + 2 ^ 48) mod 2 ^ 48" by simp
    also have "uint va - uint base + 2 ^ 48 = int (unat va + 2 ^ 48 - unat base)"
      using that assms(1) by (simp add: of_nat_diff)
    also have "int (unat va + 2 ^ 48 - unat base) mod 2 ^ 48 = int (unat va + 2 ^ 48 - unat base)"
    proof (rule mod_pos_pos_trivial)
      have "unat va + 2 ^ 48 - unat base < 2 ^ 48" using that by auto
      then show "int (unat va + 2 ^ 48 - unat base) < 2 ^ 48" by (metis of_nat_less_iff of_nat_numeral of_nat_power)
    qed (rule of_nat_0_le_iff)
    finally show ?thesis by (simp only: voff_def nat_int)
  qed
  show "voff base va < len \<longleftrightarrow> unat base \<le> unat va \<and> unat va < unat base + len"
  proof (cases "unat base \<le> unat va")
    case True
    then show ?thesis using below by auto
  next
    case False
    then show ?thesis using above assms(1) by auto
  qed
  assume le: "unat base \<le> unat va"
  have "unat (base + of_nat (voff base va)) = unat base + voff base va"
    using below [OF le] le by (intro unat_add_of_nat) simp
  then show "base + of_nat (voff base va) = va" using below [OF le] le by (simp add: word_unat_eq_iff)
qed

lemma idmap_span:
  assumes "idmap m root S" and "maps_span m m' root b b len" and "unat b + len \<le> 2 ^ 48"
  shows "idmap m' root (S \<union> {unat b..<unat b + len})"
  unfolding idmap_def
proof (intro allI impI)
  fix va :: u64
  assume va: "unat va < 2 ^ 48"
  note old = assms(1) [unfolded idmap_def, rule_format, OF va]
    and new = assms(2) [unfolded maps_span_def, rule_format, of va]
  show "walk m' root va = (if unat va \<in> S \<union> {unat b..<unat b + len} then Some va else None) \<and>
      (\<forall>n e. leaf m' root va = Some (n, e) \<longrightarrow> n \<le> 21)"
  proof (cases "voff b va < len")
    case True
    then show ?thesis using new voff_low [OF assms(3) va] by auto
  next
    case False
    then have "leaf m' root va = leaf m root va" using new by simp
    from this walk_cong [OF this] show ?thesis using old False voff_low(1) [OF assms(3) va] by auto
  qed
qed

lemma leaf_levels:
  assumes "leaf m root va = Some (n, e)"
  shows "n = 12 \<or> n = 21 \<or> n = 30"
  using assms by (auto simp: leaf_def vpath_def Let_def split: if_splits)

text \<open>Mapping a page to itself fails only for want of frames.\<close>

lemma idmap_way:
  assumes "idmap m root S" and "no_way pm m root va va" and "frame_like va" and "unat va < 2 ^ 48"
  shows "pmm_free pm = {}"
proof (rule ccontr)
  assume "pmm_free pm \<noteq> {}"
  then obtain n e where lf: "leaf m root va = Some (n, e)" "n \<noteq> 12"
      "n = 21 \<longrightarrow> large_addr e va \<noteq> va AND PHYS_ADDR_MASK"
    using assms(2) by (auto simp: no_way_def)
  then have "n = 21" using leaf_levels [OF lf(1)] assms(1,4) by (auto simp: idmap_def)
  moreover have "walk m root va = Some va"
    using assms(1,4) lf(1) by (auto simp: idmap_def walk_def split: if_splits)
  ultimately have "(e AND PHYS_ADDR_MASK AND NOT (mask 21)) OR (va AND mask 21) = va"
    using lf(1) by (simp add: walk_def)
  moreover have "(e AND PHYS_ADDR_MASK AND NOT (mask 21)) + (va AND mask 21) =
      (e AND PHYS_ADDR_MASK AND NOT (mask 21)) OR (va AND mask 21)"
    by (rule disjunctive_add_eq_or, rule bit_word_eqI) (auto simp: bit_simps)
  ultimately have "large_addr e va = va" unfolding large_addr_def mask_large by simp
  then show False using lf(3) \<open>n = 21\<close> entry_frame(3) [OF assms(3), of 0] by simp
qed

text \<open>One call of \<^verbatim>\<open>map_range\<close> that maps addresses to themselves.\<close>

definition id_range_post ::
  "u64 set \<Rightarrow> pmm \<Rightarrow> mem \<Rightarrow> u64 \<Rightarrow> nat set \<Rightarrow> nat set \<Rightarrow> pidx list set \<Rightarrow> int \<times> pmm \<times> mem \<Rightarrow> bool" where
  "id_range_post R pm m root S T P res \<longleftrightarrow> (case res of (r, pm', m') \<Rightarrow>
     pt_ok R pm' m' root \<and> keeps R m m' \<and> takes pm pm' \<and>
     spends P root pm m pm' m' \<and>
     (r = 0 \<and> idmap m' root (S \<union> T) \<or> r = - 1 \<and> pmm_free pm' = {}))"

lemma id_range:
  assumes "pt_ok R pm m root" and "idmap m root S" and "unat (page_base b) + round_up (span_len b len) \<le> 2 ^ 48"
  shows "\<exists>res. map_range pm m root b b len READ_WRITE_BIT = Some res \<and>
    id_range_post R pm m root S {unat (page_base b)..<unat (page_base b) + round_up (span_len b len)}
      (range_tables (page_base b) (span_len b len)) res"
proof -
  have le: "unat b + unat len = unat (page_base b) + span_len b len"
    by (simp add: page_base_unat span_len_def)
  have sp: "unat (page_base b) + span_len b len \<le> 2 ^ 48"
    using assms(3) round_up_ge [of "span_len b len"] by simp
  then have "map_range_pre b b len READ_WRITE_BIT"
    unfolding map_range_pre_def le by (simp add: heap_flags)
  then obtain r pm' m' where mr: "map_range pm m root b b len READ_WRITE_BIT = Some (r, pm', m')"
      and post: "map_range_post R pm m root (page_base b) (page_base b) (span_len b len) (r, pm', m')"
    using map_range_spec [OF assms(1)] by (metis prod_cases3)
  note post' = post [unfolded map_range_post_def prod.case]
  have "pmm_free pm' = {}" if r: "r \<noteq> 0"
  proof -
    obtain d where d: "d < span_len b len" "4096 dvd d" "no_way pm' m root (page_base b + of_nat d) (page_base b + of_nat d)"
      using post' r by auto
    have u: "unat (page_base b + of_nat d) = unat (page_base b) + d" using d(1) sp by (intro unat_add_of_nat) simp
    have "(unat (page_base b) + d) mod 4096 = 0"
      using page_base_aligned [of b] d(2) by (auto simp: mod_eq_0_iff_dvd intro: dvd_add)
    then have "frame_like (page_base b + of_nat d)" using u d(1) sp by (simp add: frame_like_def)
    then show ?thesis using idmap_way [OF assms(2) d(3)] u d(1) sp by simp
  qed
  then have "id_range_post R pm m root S {unat (page_base b)..<unat (page_base b) + round_up (span_len b len)}
      (range_tables (page_base b) (span_len b len)) (r, pm', m')"
    using post' idmap_span [OF assms(2) _ assms(3)] by (auto simp: id_range_post_def)
  then show ?thesis using mr by blast
qed

section \<open>init_paging\<close>

text \<open>The addresses of a block that \<^verbatim>\<open>init_paging\<close> maps.\<close>

fun block_region :: "u64 \<times> u64 \<times> pm_type \<Rightarrow> nat set" where
  "block_region (a, t, ty) =
     (if ty = PM_MMIO \<or> ty = PM_RESERVED then {}
      else {max (unat a) 4096..<unat a + 4096 * unat t})"

definition mapped_region :: "pmm \<Rightarrow> nat \<Rightarrow> nat set" where
  "mapped_region pm i = (\<Union>j \<in> {i..<unat (block_count pm)}. block_region (snd (geometry pm) ! j))"

text \<open>Mapped blocks lie below \<open>2 ^ 48\<close>, where a virtual address can equal a physical one.\<close>

definition low_memory :: "pmm \<Rightarrow> bool" where
  "low_memory pm \<longleftrightarrow> (\<forall>j \<in> {0..<unat (block_count pm)}. \<forall>x \<in> block_region (snd (geometry pm) ! j). x < 2 ^ 48)"

text \<open>The tables that map the blocks, and how many they can be.\<close>

fun block_tables :: "u64 \<times> u64 \<times> pm_type \<Rightarrow> pidx list set" where
  "block_tables (a, t, ty) =
     (let start = max (unat a) 4096 in
      if ty = PM_MMIO \<or> ty = PM_RESERVED then {} else range_tables (of_nat start) (unat a + 4096 * unat t - start))"

definition block_cost :: "u64 \<times> u64 \<times> pm_type \<Rightarrow> nat" where
  "block_cost g = frame_cost (card (block_region g))"

definition mapped_tables :: "pmm \<Rightarrow> nat \<Rightarrow> pidx list set" where
  "mapped_tables pm i = (\<Union>j \<in> {i..<unat (block_count pm)}. block_tables (snd (geometry pm) ! j))"

definition mapped_cost :: "pmm \<Rightarrow> nat \<Rightarrow> nat" where
  "mapped_cost pm i = (\<Sum>j \<in> {i..<unat (block_count pm)}. block_cost (snd (geometry pm) ! j))"

lemma geometry_eqD:
  assumes "geometry pm' = geometry pm"
  shows "block_count pm' = block_count pm" and "mapped_region pm' i = mapped_region pm i"
    and "low_memory pm' = low_memory pm" and "mapped_cost pm' i = mapped_cost pm i"
    and "mapped_tables pm' i = mapped_tables pm i"
  using assms by (auto simp: geometry_def mapped_region_def low_memory_def mapped_cost_def mapped_tables_def)

lemma mapped_region_step:
  assumes "i < unat (block_count pm)"
  shows "mapped_region pm i = block_region (snd (geometry pm) ! i) \<union> mapped_region pm (Suc i)"
    and "mapped_tables pm i = block_tables (snd (geometry pm) ! i) \<union> mapped_tables pm (Suc i)"
proof -
  have "{i..<unat (block_count pm)} = insert i {Suc i..<unat (block_count pm)}" using assms by auto
  then show "mapped_region pm i = block_region (snd (geometry pm) ! i) \<union> mapped_region pm (Suc i)"
    "mapped_tables pm i = block_tables (snd (geometry pm) ! i) \<union> mapped_tables pm (Suc i)"
    by (simp_all add: mapped_region_def mapped_tables_def)
qed

lemma card_block_tables:
  assumes "unat a mod 4096 = 0"
  shows "finite (block_tables (a, t, ty))" and "card (block_tables (a, t, ty)) \<le> block_cost (a, t, ty)"
proof -
  have "max (unat a) 4096 < 2 ^ 64" by (simp add: max_def)
  then have "unat (of_nat (max (unat a) 4096) :: u64) = max (unat a) 4096" by (rule unat_of_nat_u64)
  then have "unat (of_nat (max (unat a) 4096) :: u64) mod 4096 = 0" using assms by (simp only: max_def) simp
  note ct = card_range_tables [OF this]
  show "finite (block_tables (a, t, ty))" using ct(1) by (simp add: Let_def)
  show "card (block_tables (a, t, ty)) \<le> block_cost (a, t, ty)" using ct(2) by (simp add: Let_def block_cost_def)
qed

lemma card_mapped_tables:
  assumes "pmm_ok pm"
  shows "finite (mapped_tables pm i)" and "card (mapped_tables pm i) \<le> mapped_cost pm i"
proof -
  have g: "finite (block_tables (snd (geometry pm) ! j)) \<and>
      card (block_tables (snd (geometry pm) ! j)) \<le> block_cost (snd (geometry pm) ! j)"
    if "j < unat (block_count pm)" for j
  proof -
    have "snd (geometry pm) ! j = (address (blocks pm ! j), frames_total (blocks pm ! j), btype (blocks pm ! j))"
      using assms that by (simp add: geometry_def pmm_ok_def)
    moreover have "unat (address (blocks pm ! j)) mod 4096 = 0"
      using pmm_ok_nth [OF assms that] by (simp add: block_ok_def)
    ultimately show ?thesis using card_block_tables by metis
  qed
  then show "finite (mapped_tables pm i)" by (simp add: mapped_tables_def)
  have "card (mapped_tables pm i) \<le> (\<Sum>j \<in> {i..<unat (block_count pm)}. card (block_tables (snd (geometry pm) ! j)))"
    unfolding mapped_tables_def by (rule card_UN_le) simp
  also have "\<dots> \<le> mapped_cost pm i" unfolding mapped_cost_def using g by (intro sum_mono) simp
  finally show "card (mapped_tables pm i) \<le> mapped_cost pm i" .
qed

text \<open>The bounds of the range that is mapped for a block.\<close>

lemma block_range:
  assumes "pmm_ok pm" and "i < unat (block_count pm)" and "low_memory pm"
  defines "b \<equiv> blocks pm ! i"
  defines "start \<equiv> (if address b < frame_size then frame_size else address b)"
  defines "stop \<equiv> address b + frames_total b * frame_size"
  assumes "\<not> (btype b = PM_MMIO \<or> btype b = PM_RESERVED)"
  shows "stop \<le> start \<Longrightarrow> block_region (snd (geometry pm) ! i) = {}"
    and "start < stop \<Longrightarrow> block_region (snd (geometry pm) ! i) =
        {unat (page_base start)..<unat (page_base start) + round_up (span_len start (stop - start))} \<and>
      unat (page_base start) + round_up (span_len start (stop - start)) \<le> 2 ^ 48"
    and "start < stop \<Longrightarrow> block_tables (snd (geometry pm) ! i) =
        range_tables (page_base start) (span_len start (stop - start))"
proof -
  have ok: "block_ok b" using pmm_ok_nth [OF assms(1,2)] by (simp add: b_def)
  then have al: "unat (address b) mod 4096 = 0" and top: "unat (address b) + 4096 * unat (frames_total b) \<le> 2 ^ 52"
    by (simp_all add: block_ok_def)
  have "unat (frames_total b * frame_size) = unat (frames_total b) * 4096"
    using top by (subst unat_mult_nowrap) simp_all
  then have st: "unat stop = unat (address b) + 4096 * unat (frames_total b)"
    unfolding stop_def using top by (subst unat_add_nowrap) simp_all
  have sa: "unat start = max (unat (address b)) 4096"
    by (simp add: start_def word_less_nat_alt)
  then have sal: "unat start mod 4096 = 0" using al by (simp add: max_def)
  have g: "snd (geometry pm) ! i = (address b, frames_total b, btype b)"
    using assms(1,2) by (simp add: geometry_def b_def pmm_ok_def)
  have reg: "block_region (snd (geometry pm) ! i) = {unat start..<unat stop}"
    unfolding g sa st using assms(7) by simp
  show "stop \<le> start \<Longrightarrow> block_region (snd (geometry pm) ! i) = {}"
    unfolding reg by (simp add: word_le_nat_alt)
  have start: "start = of_nat (max (unat (address b)) 4096)" unfolding sa [symmetric] by simp
  {
    assume lt: "start < stop"
    then have "unat (stop - start) = unat stop - unat start" by (intro unat_sub_le) (simp add: word_less_nat_alt)
    then have "span_len start (stop - start) = unat stop - unat start" using sal by (simp add: span_len_def)
    then show "block_tables (snd (geometry pm) ! i) = range_tables (page_base start) (span_len start (stop - start))"
      unfolding page_base_aligned_id [OF sal] g st sa using assms(7) start by (simp add: Let_def)
  }
  assume lt: "start < stop"
  then have lt': "unat start < unat stop" by (simp add: word_less_nat_alt)
  have "unat (stop - start) = unat stop - unat start" using lt' by (intro unat_sub_le) simp
  then have sp: "span_len start (stop - start) = unat stop - unat start" using sal by (simp add: span_len_def)
  have "unat stop mod 4096 = 0" using st al by (metis add.commute mod_mult_self2)
  then have "4096 dvd unat stop - unat start" using sal by (simp add: mod_eq_0_iff_dvd)
  then have "round_up (unat stop - unat start) = unat stop - unat start"
    using round_up_le [of _ "unat stop - unat start"] round_up_ge [of "unat stop - unat start"] by (simp add: le_antisym)
  then have e: "unat (page_base start) + round_up (span_len start (stop - start)) = unat stop"
    using lt' by (simp add: sp page_base_aligned_id [OF sal])
  have "unat stop - 1 \<in> block_region (snd (geometry pm) ! i)" using reg lt' by auto
  then have "unat stop \<le> 2 ^ 48" using assms(2,3) by (fastforce simp: low_memory_def)
  then show "block_region (snd (geometry pm) ! i) =
        {unat (page_base start)..<unat (page_base start) + round_up (span_len start (stop - start))} \<and>
      unat (page_base start) + round_up (span_len start (stop - start)) \<le> 2 ^ 48"
    using e reg page_base_aligned_id [OF sal] by simp
qed

lemma id_range_post_trans:
  assumes "id_range_post R pm m root S T P (0, pm1, m1)" and "id_range_post R pm1 m1 root (S \<union> T) U Q res"
  shows "id_range_post R pm m root S (T \<union> U) (P \<union> Q) res"
  using assms spends_trans [where S = "P \<union> Q", OF _ _ Un_upper1 Un_upper2] unfolding id_range_post_def
  by (cases res) (auto simp: Un_assoc intro: keeps_trans takes_trans)

lemma id_range_post_none:
  assumes "pt_ok R pm m root" and "idmap m root S"
  shows "id_range_post R pm m root S {} {} (0, pm, m)"
  using assms by (simp add: id_range_post_def)

lemma id_range_post_mono:
  "id_range_post R pm m root S T P res \<Longrightarrow> P \<subseteq> Q \<Longrightarrow> id_range_post R pm m root S T Q res"
  by (auto simp: id_range_post_def intro: spends_mono)

text \<open>One block: it is skipped, or its range is mapped.\<close>

lemma init_paging_loop_block:
  assumes "pt_ok R pm m root" and "idmap m root S" and "low_memory pm" and i: "i < unat (block_count pm)"
  obtains (skip) "init_paging_loop pm m root i = init_paging_loop pm m root (Suc i)"
      and "block_region (snd (geometry pm) ! i) = {}"
  | (mapped) r pm1 m1 where
      "init_paging_loop pm m root i = (if r \<noteq> 0 then Some (- 1, pm1, m1) else init_paging_loop pm1 m1 root (Suc i))"
      and "id_range_post R pm m root S (block_region (snd (geometry pm) ! i)) (block_tables (snd (geometry pm) ! i)) (r, pm1, m1)"
proof -
  have ok: "pmm_ok pm" using assms(1) by (simp add: pt_ok_def)
  define b where "b = blocks pm ! i"
  define start where "start = (if address b < frame_size then frame_size else address b)"
  define stop where "stop = address b + frames_total b * frame_size"
  have b: "aget (blocks pm) i = Some b" using pmm_ok_aget [OF ok i] by (simp add: b_def)
  note range = block_range [OF ok i assms(3), folded b_def, folded start_def stop_def]
  show ?thesis
  proof (cases "btype b = PM_MMIO \<or> btype b = PM_RESERVED \<or> stop \<le> start")
    case True
    have "block_region (snd (geometry pm) ! i) = {}"
    proof (cases "btype b = PM_MMIO \<or> btype b = PM_RESERVED")
      case True
      then show ?thesis using ok i by (simp add: geometry_def b_def pmm_ok_def)
    qed (use True range(1) in simp)
    moreover have "init_paging_loop pm m root i = init_paging_loop pm m root (Suc i)"
      using True i b unfolding start_def stop_def by (subst init_paging_loop.simps) (auto simp: Let_def)
    ultimately show ?thesis using skip by blast
  next
    case False
    have reg: "block_region (snd (geometry pm) ! i) =
        {unat (page_base start)..<unat (page_base start) + round_up (span_len start (stop - start))}"
        "unat (page_base start) + round_up (span_len start (stop - start)) \<le> 2 ^ 48"
      and tab: "block_tables (snd (geometry pm) ! i) = range_tables (page_base start) (span_len start (stop - start))"
      using range(2,3) False by (simp_all add: not_le)
    obtain r pm1 m1 where mr: "map_range pm m root start start (stop - start) READ_WRITE_BIT = Some (r, pm1, m1)"
        "id_range_post R pm m root S (block_region (snd (geometry pm) ! i)) (block_tables (snd (geometry pm) ! i)) (r, pm1, m1)"
      using id_range [OF assms(1,2) reg(2)]
      unfolding reg(1) tab by (auto simp: split_paired_Ex)
    have "init_paging_loop pm m root i =
        (if r \<noteq> 0 then Some (- 1, pm1, m1) else init_paging_loop pm1 m1 root (Suc i))"
      using False i b mr(1) unfolding start_def stop_def
      by (subst init_paging_loop.simps) (auto simp: Let_def)
    then show ?thesis using mapped mr(2) by blast
  qed
qed

lemma init_paging_loop_spec:
  assumes "pt_ok R pm m root" and "idmap m root S" and "low_memory pm"
  shows "\<exists>res. init_paging_loop pm m root i = Some res \<and>
    id_range_post R pm m root S (mapped_region pm i) (mapped_tables pm i) res"
  using assms
proof (induction "unat (block_count pm) - i" arbitrary: pm m S i)
  case 0
  then have "mapped_region pm i = {}" "mapped_tables pm i = {}" by (simp_all add: mapped_region_def mapped_tables_def)
  then show ?case using 0 id_range_post_none by (subst init_paging_loop.simps) simp
next
  case (Suc n)
  have i: "i < unat (block_count pm)" using Suc.hyps(2) by simp
  note step = mapped_region_step [OF i]
  from Suc.prems i show ?case
  proof (cases rule: init_paging_loop_block)
    case skip
    have "n = unat (block_count pm) - Suc i" using Suc.hyps(2) by simp
    from Suc.hyps(1) [OF this Suc.prems] show ?thesis
      using skip step id_range_post_mono [of R pm m root S _ "mapped_tables pm (Suc i)" _ "mapped_tables pm i"] by auto
  next
    case (mapped r pm1 m1)
    show ?thesis
    proof (cases "r = 0")
      case True
      have p: "pt_ok R pm1 m1 root" "idmap m1 root (S \<union> block_region (snd (geometry pm) ! i))"
          "geometry pm1 = geometry pm"
        using mapped(2) True by (auto simp: id_range_post_def takes_def)
      note g = geometry_eqD [OF p(3)]
      have "n = unat (block_count pm1) - Suc i" using Suc.hyps(2) g(1) by simp
      from Suc.hyps(1) [OF this p(1,2)] obtain res where res: "init_paging_loop pm1 m1 root (Suc i) = Some res"
          "id_range_post R pm1 m1 root (S \<union> block_region (snd (geometry pm) ! i)) (mapped_region pm (Suc i))
            (mapped_tables pm (Suc i)) res"
        using g Suc.prems(3) by auto
      then show ?thesis
        using id_range_post_trans [OF mapped(2) [unfolded True] res(2)] True mapped(1) step by simp
    next
      case False
      then have "id_range_post R pm m root S (mapped_region pm i) (block_tables (snd (geometry pm) ! i)) (- 1, pm1, m1)"
        using mapped(2) by (auto simp: id_range_post_def)
      then have "id_range_post R pm m root S (mapped_region pm i) (mapped_tables pm i) (- 1, pm1, m1)"
        by (rule id_range_post_mono) (simp add: step)
      then show ?thesis using mapped(1) False by simp
    qed
  qed
qed

text \<open>The pages of the framebuffer.\<close>

definition fb_length :: "framebuffer_t \<Rightarrow> u64" where
  "fb_length f = pixels_per_scanline f * height f * 4"

definition fb_top :: "framebuffer_t \<Rightarrow> nat" where
  "fb_top f = unat (page_base (buffer f)) + round_up (span_len (buffer f) (fb_length f))"

definition fb_region :: "framebuffer_t \<Rightarrow> nat set" where
  "fb_region f = {unat (page_base (buffer f))..<fb_top f}"

text \<open>What \<^verbatim>\<open>init_paging\<close> relies on.\<close>

definition boot_memory :: "kstate \<Rightarrow> bool" where
  "boot_memory k \<longleftrightarrow> pmm_ok (kpm k) \<and> 0 \<notin> pmm_free (kpm k) \<and> low_memory (kpm k) \<and> fb_top (fb (sys k)) \<le> 2 ^ 48"

text \<open>The tables below the root that map memory and framebuffer; enough frames for them and the root.\<close>

definition paging_tables :: "kstate \<Rightarrow> pidx list set" where
  "paging_tables k = mapped_tables (kpm k) 0 \<union>
     range_tables (page_base (buffer (fb (sys k)))) (span_len (buffer (fb (sys k))) (fb_length (fb (sys k))))"

definition paging_cost :: "kstate \<Rightarrow> nat" where
  "paging_cost k = 1 + mapped_cost (kpm k) 0 + frame_cost (span_len (buffer (fb (sys k))) (fb_length (fb (sys k))))"

lemma card_paging_tables:
  assumes "pmm_ok (kpm k)"
  shows "finite (paging_tables k)" and "Suc (card (paging_tables k)) \<le> paging_cost k"
proof -
  note m = card_mapped_tables [OF assms, of 0] and f = card_range_tables [OF page_base_aligned, of "buffer (fb (sys k))"]
  show "finite (paging_tables k)" using m(1) f(1) by (simp add: paging_tables_def)
  show "Suc (card (paging_tables k)) \<le> paging_cost k"
    using m(2) f(2) [of "span_len (buffer (fb (sys k))) (fb_length (fb (sys k)))"]
    unfolding paging_tables_def paging_cost_def by (intro order_trans [OF Suc_leI [OF le_imp_less_Suc [OF card_Un_le]]]) simp
qed

definition identity_mapped :: "kstate \<Rightarrow> nat set \<Rightarrow> bool" where
  "identity_mapped k S \<longleftrightarrow> cr k 3 = pml4 (sys k) \<and>
     (\<forall>va. unat va < 2 ^ 48 \<longrightarrow> walk (kmem k) (pml4 (sys k)) va = (if unat va \<in> S then Some va else None))"

definition init_paging_post :: "u64 set \<Rightarrow> kstate \<Rightarrow> int \<times> kstate \<Rightarrow> bool" where
  "init_paging_post R k res \<longleftrightarrow> (case res of (r, k') \<Rightarrow>
     keeps R (kmem k) (kmem k') \<and> takes (kpm k) (kpm k') \<and>
     card (pmm_free (kpm k)) \<le> card (pmm_free (kpm k')) + paging_cost k \<and>
     (r = 0 \<and> pt_ok R (kpm k') (kmem k') (pml4 (sys k')) \<and> tabs (kmem k') (pml4 (sys k')) \<subseteq> paging_tables k \<and>
        card (pmm_free (kpm k)) = card (pmm_free (kpm k')) + Suc (card (tabs (kmem k') (pml4 (sys k')))) \<and>
        identity_mapped k' (mapped_region (kpm k) 0 \<union> fb_region (fb (sys k))) \<or>
      r = - 1 \<and> cr k' = cr k \<and> pmm_free (kpm k') = {}))"

lemma idmap_empty: "(\<And>va. leaf m root va = None) \<Longrightarrow> idmap m root {}"
  by (simp add: idmap_def walk_def)

lemma init_paging_spec:
  assumes "boot_memory k" and "set_aside R (kpm k)"
  shows "\<exists>res. init_paging k = Some res \<and> init_paging_post R k res"
proof (cases "pmm_free (kpm k) = {}")
  case True
  then have "init_pml4 (kpm k) (kmem k) = Some (0, kpm k, kmem k)"
    using alloc_table_cases [of "kpm k" "kmem k"] assms(1)
    by (auto simp: init_pml4_def boot_memory_def)
  then show ?thesis using True by (simp add: init_paging_def init_paging_post_def paging_cost_def)
next
  case False
  obtain root pm m where init: "init_pml4 (kpm k) (kmem k) = Some (root, pm, m)" "root \<noteq> 0" "takes (kpm k) pm"
      "pt_ok R pm m root" "keeps R (kmem k) m" "\<forall>va. leaf m root va = None"
      "pmm_free pm = pmm_free (kpm k) - {root}" "root \<in> pmm_free (kpm k)" "tabs m root = {}"
    using init_pml4_ok [OF _ _ False assms(2), where m = "kmem k"] assms(1) by (auto simp: boot_memory_def)
  then have g: "geometry pm = geometry (kpm k)" by (simp add: takes_def)
  have c: "card (pmm_free (kpm k)) = Suc (card (pmm_free pm))"
    unfolding init(7) by (rule card.remove) (simp_all add: init(8))
  have ok: "pmm_ok (kpm k)" using assms(1) by (simp add: boot_memory_def)
  note pt = card_paging_tables [OF ok]
  have cost: "card (pmm_free (kpm k)) \<le> card (pmm_free pm') + paging_cost k"
    if "spends (paging_tables k) root pm m pm' m'" for pm' m'
    using spends_bound [OF that pt(1)] pt(2) c by linarith
  have mt: "mapped_tables (kpm k) 0 \<subseteq> paging_tables k" by (simp add: paging_tables_def)
  have "low_memory pm" using geometry_eqD(3) [OF g] assms(1) by (simp add: boot_memory_def)
  then obtain r1 pm1 m1 where l: "init_paging_loop pm m root 0 = Some (r1, pm1, m1)"
      "id_range_post R pm m root {} (mapped_region (kpm k) 0) (mapped_tables (kpm k) 0) (r1, pm1, m1)"
    using init_paging_loop_spec [OF init(4) idmap_empty, of 0] init(6) geometry_eqD(2,5) [OF g]
    by (metis prod_cases3)
  show ?thesis
  proof (cases "r1 = 0")
    case False
    then show ?thesis
      using init l cost [OF spends_mono [OF _ mt], of pm1 m1] keeps_trans [OF init(5)] takes_trans [OF init(3)]
      by (auto simp: init_paging_def init_paging_post_def id_range_post_def)
  next
    case True
    let ?f = "fb (sys k)"
    have p: "pt_ok R pm1 m1 root" "idmap m1 root (mapped_region (kpm k) 0)"
      using l(2) True by (auto simp: id_range_post_def)
    have "unat (page_base (buffer ?f)) + round_up (span_len (buffer ?f) (fb_length ?f)) \<le> 2 ^ 48"
      using assms(1) by (simp add: boot_memory_def fb_top_def)
    then obtain r2 pm2 m2 where f: "map_range pm1 m1 root (buffer ?f) (buffer ?f) (fb_length ?f) READ_WRITE_BIT = Some (r2, pm2, m2)"
        "id_range_post R pm1 m1 root (mapped_region (kpm k) 0) (fb_region ?f)
          (range_tables (page_base (buffer ?f)) (span_len (buffer ?f) (fb_length ?f))) (r2, pm2, m2)"
      using id_range [OF p] unfolding fb_region_def fb_top_def by (metis prod_cases3)
    have "id_range_post R pm m root {} (mapped_region (kpm k) 0 \<union> fb_region ?f) (paging_tables k) (r2, pm2, m2)"
      unfolding paging_tables_def using id_range_post_trans [OF l(2) [unfolded True]] f(2) by simp
    note p2 = this [unfolded id_range_post_def prod.case]
    then have sp: "spends (paging_tables k) root pm m pm2 m2" by blast
    then have "tabs m2 root \<subseteq> paging_tables k" "card (pmm_free (kpm k)) = card (pmm_free pm2) + Suc (card (tabs m2 root))"
      using init(9) c by (auto simp: spends_def)
    then show ?thesis
      using p2 init l(1) f(1) cost [OF sp] True keeps_trans [OF init(5)] takes_trans [OF init(3)]
      by (auto simp: init_paging_def init_paging_post_def identity_mapped_def idmap_def set_cr3_def fb_length_def)
  qed
qed

section \<open>Properties of init_paging\<close>


text \<open>A machine with the demonstration manager and a framebuffer of 1024 by 768 pixels at 0xE0000000.\<close>

definition demo_sys :: colonel_t where
  "demo_sys = \<lparr>physical_memory = 0x8000, pml4 = 0, heap = 0, heap_size = 0, gdt = 0, rsdp2 = 0,
     cpus = \<lparr>cpu_count = 1, apic_data = 0\<rparr>,
     fb = \<lparr>width = 1024, height = 768, pixels_per_scanline = 1024, margin = 8, buffer = 0xE0000000,
       font = 0, font_size = 0\<rparr>, mmap_key = 0\<rparr>"

definition demo_kstate :: kstate where
  "demo_kstate = \<lparr>sys = demo_sys, kpm = demo_pmm, kmem = demo_mem, cr = (\<lambda>_. 0),
     gdtr = \<lparr>gdt_limit = 0, gdt_base = 0\<rparr>, seg_cs = 0, seg_data = (0, 0, 0), console = []\<rparr>"

lemma demo_fb: "fb_region (fb demo_sys) = {0xE0000000..<0xE0300000}" "fb_top (fb demo_sys) = 0xE0300000"
proof -
  have "page_base 0xE0000000 = 0xE0000000" by code_simp
  then show "fb_region (fb demo_sys) = {0xE0000000..<0xE0300000}" "fb_top (fb demo_sys) = 0xE0300000"
    by (simp_all add: fb_region_def fb_top_def fb_length_def demo_sys_def span_len_def round_up_def)
qed

lemma demo_region: "mapped_region demo_pmm 0 = {0x100000..<0x108000}"
  unfolding mapped_region_def demo_range
  by (simp add: geometry_def demo_pmm_def demo_block_def demo_mmio_def)

lemma demo_boot: "boot_memory demo_kstate"
proof -
  have "low_memory demo_pmm"
    unfolding low_memory_def demo_range
    by (auto simp: geometry_def demo_pmm_def demo_block_def demo_mmio_def)
  then show ?thesis
    using demo_ok demo_fb by (simp add: boot_memory_def demo_kstate_def demo_free)
qed


text \<open>
  After \<^verbatim>\<open>init_paging\<close> succeeds no address of page 0 is translated, so that a NULL
  dereference faults, unless the framebuffer lies there.
\<close>

theorem init_paging_null_unmapped:
  assumes "boot_memory k" and "init_paging k = Some (0, k')" and "4096 \<le> unat (buffer (fb (sys k)))"
    and "unat va < 4096"
  shows "walk (kmem k') (cr k' 3) va = None"
proof -
  have "identity_mapped k' (mapped_region (kpm k) 0 \<union> fb_region (fb (sys k)))"
    using init_paging_spec [OF assms(1), of "{}"] assms(2) by (auto simp: init_paging_post_def)
  moreover have "unat va \<notin> block_region g" for g
    using assms(4) by (cases g) auto
  moreover have "4096 \<le> unat (page_base (buffer (fb (sys k))))"
  proof -
    have "4096 * 1 \<le> unat (buffer (fb (sys k))) div 4096 * 4096"
      using assms(3) by (metis div_le_mono div_self mult.commute mult_le_mono1 zero_neq_numeral)
    then show ?thesis unfolding page_base_unat by (simp add: minus_mod_eq_div_mult)
  qed
  ultimately show ?thesis using assms(4) by (auto simp: identity_mapped_def mapped_region_def fb_region_def)
qed

text \<open>A machine with 64 usable frames, one frame of code and the framebuffer of 1024 by 768 pixels.\<close>

definition pool_block :: pm_block where
  "pool_block = \<lparr>address = 0x100000, frames_total = 64, frames_free = 64, map_ptr = 0x8000,
     map_words = [0], btype = PM_USABLE, attributes = 0\<rparr>"

definition code_block :: pm_block where
  "code_block = \<lparr>address = 0x8000, frames_total = 1, frames_free = 0, map_ptr = 0,
     map_words = [], btype = PM_RECLAIMABLE, attributes = 0\<rparr>"

definition pool_pmm :: pmm where
  "pool_pmm = \<lparr>blocks = [pool_block, code_block], block_count = 2\<rparr>"

definition pool_kstate :: kstate where
  "pool_kstate = demo_kstate\<lparr>kpm := pool_pmm\<rparr>"

lemma pool_free_idx: "free_idx pool_block = {0..<64}" "free_idx code_block = {}"
  by (auto simp: free_idx_def pool_block_def code_block_def used_bit_def)

lemma pool_range: "{0..<unat (block_count pool_pmm)} = {0, 1}"
  by (auto simp: pool_pmm_def)

lemma pool_ok: "pmm_ok pool_pmm"
proof -
  have "map_ok pool_block" by (simp add: map_ok_def pool_block_def frame_map_size_def)
  then have "block_ok pool_block" by (simp add: block_ok_def pool_free_idx) (simp add: pool_block_def)
  moreover have "block_ok code_block" by (simp add: block_ok_def pool_free_idx) (simp add: code_block_def)
  moreover have "blocks_apart code_block pool_block"
    by (simp add: blocks_apart_def code_block_def pool_block_def)
  ultimately show ?thesis unfolding pmm_ok_def pool_range by (simp add: pool_pmm_def)
qed

lemma pool_free: "pmm_free pool_pmm = frame_addr pool_block ` {0..<64}"
  unfolding pmm_free_def pool_range by (simp add: block_free_def pool_free_idx pool_pmm_def)

lemma pool_boot: "boot_memory pool_kstate"
  and pool_card: "card (pmm_free pool_pmm) = 64"
proof -
  have "block_ok pool_block" using pmm_ok_nth [OF pool_ok, of 0] by (simp add: pool_pmm_def)
  then have u: "unat (frame_addr pool_block k) = 0x100000 + 4096 * k" if "k < 64" for k
    using unat_frame_addr [of pool_block k] that by (simp add: pool_block_def)
  have "inj_on (frame_addr pool_block) {0..<64}"
  proof (intro inj_onI)
    fix k l assume kl: "k \<in> {0..<64}" "l \<in> {0..<64}" "frame_addr pool_block k = frame_addr pool_block l"
    then have "unat (frame_addr pool_block k) = unat (frame_addr pool_block l)" by simp
    then show "k = l" using u [of k] u [of l] kl(1,2) by simp
  qed
  then show "card (pmm_free pool_pmm) = 64" unfolding pool_free by (simp add: card_image)
  have "0 \<notin> pmm_free pool_pmm"
  proof
    assume "0 \<in> pmm_free pool_pmm"
    then obtain k where k: "k < 64" "frame_addr pool_block k = 0" unfolding pool_free by auto
    show False using u [OF k(1)] unfolding k(2) by simp
  qed
  moreover have "low_memory pool_pmm"
    unfolding low_memory_def pool_range
    by (auto simp: geometry_def pool_pmm_def pool_block_def code_block_def)
  ultimately show "boot_memory pool_kstate"
    using pool_ok demo_fb(2) by (simp add: boot_memory_def pool_kstate_def demo_kstate_def)
qed

lemma pool_cost: "paging_cost pool_kstate = 17"
proof -
  have "mapped_cost pool_pmm 0 = 9"
    unfolding mapped_cost_def pool_range
    by (simp add: block_cost_def geometry_def pool_pmm_def pool_block_def code_block_def frame_cost_def
        round_up_def level_cost_def)
  then show ?thesis
    by (simp add: paging_cost_def pool_kstate_def demo_kstate_def fb_length_def demo_sys_def span_len_def
        frame_cost_def round_up_def level_cost_def)
qed

lemma pool_init_paging: "\<exists>k'. init_paging pool_kstate = Some (0, k')"
proof -
  obtain r k' where "init_paging pool_kstate = Some (r, k')" "init_paging_post {} pool_kstate (r, k')"
    using init_paging_spec [OF pool_boot, of "{}"] by auto
  moreover have "kpm pool_kstate = pool_pmm" by (simp add: pool_kstate_def)
  ultimately show ?thesis using pool_cost pool_card by (auto simp: init_paging_post_def)
qed

theorem init_paging_null_unmapped_witness:
  "\<exists>k'. init_paging pool_kstate = Some (0, k') \<and> walk (kmem k') (cr k' 3) 0x18 = None"
proof -
  obtain k' where k': "init_paging pool_kstate = Some (0, k')" using pool_init_paging by blast
  then show ?thesis using init_paging_null_unmapped [OF pool_boot k', of "0x18"]
    by (simp add: pool_kstate_def demo_kstate_def demo_sys_def)
qed

text \<open>
  C34: \<^verbatim>\<open>init_paging\<close> succeeds when more frames are free than there can be tables: the root, and for
  every mapped block and the framebuffer about one table for 512 pages.
\<close>

theorem init_paging_succeeds:
  assumes "boot_memory k" and "paging_cost k < card (pmm_free (kpm k))"
  shows "\<exists>k'. init_paging k = Some (0, k') \<and> identity_mapped k' (mapped_region (kpm k) 0 \<union> fb_region (fb (sys k)))"
proof -
  obtain r k' where "init_paging k = Some (r, k')" "init_paging_post {} k (r, k')"
    using init_paging_spec [OF assms(1), of "{}"] by auto
  then show ?thesis using assms(2) by (auto simp: init_paging_post_def)
qed

theorem init_paging_succeeds_witness:
  "\<exists>k'. init_paging pool_kstate = Some (0, k') \<and>
    identity_mapped k' (mapped_region pool_pmm 0 \<union> fb_region (fb (sys pool_kstate)))"
proof -
  have "kpm pool_kstate = pool_pmm" by (simp add: pool_kstate_def)
  then show ?thesis using init_paging_succeeds [OF pool_boot] pool_cost pool_card by simp
qed

text \<open>Only blocks that are mapped have a bitmap.\<close>

definition bitmaps_mapped :: "pmm \<Rightarrow> bool" where
  "bitmaps_mapped pm \<longleftrightarrow> (\<forall>j \<in> {0..<unat (block_count pm)}. map_ptr (blocks pm ! j) \<noteq> 0 \<longrightarrow>
     btype (blocks pm ! j) \<noteq> PM_MMIO \<and> btype (blocks pm ! j) \<noteq> PM_RESERVED)"

lemma managed_in_region:
  assumes "pmm_ok pm" and "bitmaps_mapped pm" and "f \<in> pmm_managed pm" and "f \<noteq> 0"
    and "unat f \<le> x" and "x < unat f + 4096"
  shows "x \<in> mapped_region pm 0"
proof -
  obtain j where j: "j < unat (block_count pm)" "map_ptr (blocks pm ! j) \<noteq> 0" "f \<in> block_frames (blocks pm ! j)"
    using assms(3) by (auto simp: pmm_managed_def)
  let ?b = "blocks pm ! j"
  note fb = block_frames_bounds [OF pmm_ok_nth [OF assms(1) j(1)] j(3)]
  have "unat f \<noteq> 0" using assms(4) by (metis unsigned_eq_0_iff)
  then have "4096 \<le> unat f" using fb(3) by (metis dvd_imp_le gr0I mod_eq_0_iff_dvd)
  then have "x \<in> block_region (address ?b, frames_total ?b, btype ?b)"
    using fb(1,2) assms(2,5,6) j by (auto simp: bitmaps_mapped_def)
  moreover have "snd (geometry pm) ! j = (address ?b, frames_total ?b, btype ?b)"
    using assms(1) j(1) by (simp add: geometry_def pmm_ok_def)
  ultimately show ?thesis using j(1) unfolding mapped_region_def by (metis UN_I atLeastLessThan_iff le0)
qed

text \<open>
  After \<^verbatim>\<open>init_paging\<close> succeeds every byte of every frame the allocator manages, page 0
  apart, is mapped to itself: the tables, which are reached by their physical address, stay
  reachable.
\<close>

theorem init_paging_frames_mapped:
  assumes "boot_memory k" and "bitmaps_mapped (kpm k)"
    and "f \<in> pmm_managed (kpm k)" and "f \<noteq> 0" and "unat f \<le> unat va" and "unat va < unat f + 4096"
  shows "\<exists>r k'. init_paging k = Some (r, k') \<and>
    (r = 0 \<and> walk (kmem k') (cr k' 3) va = Some va \<or> r = - 1 \<and> pmm_free (kpm k') = {})"
proof -
  obtain r k' where ip: "init_paging k = Some (r, k')" "init_paging_post {} k (r, k')"
    using init_paging_spec [OF assms(1), of "{}"] by auto
  have b: "pmm_ok (kpm k)" "low_memory (kpm k)" using assms(1) by (simp_all add: boot_memory_def)
  have reg: "unat va \<in> mapped_region (kpm k) 0" by (rule managed_in_region [OF b(1) assms(2-6)])
  then have "unat va < 2 ^ 48" using b(2) by (auto simp: mapped_region_def low_memory_def)
  then show ?thesis using ip reg by (auto simp: init_paging_post_def identity_mapped_def)
qed

theorem init_paging_frames_mapped_witness:
  "\<exists>r k'. init_paging demo_kstate = Some (r, k') \<and>
    (r = 0 \<and> walk (kmem k') (cr k' 3) 0x103ABC = Some 0x103ABC \<or> r = - 1 \<and> pmm_free (kpm k') = {})"
proof -
  have "bitmaps_mapped (kpm demo_kstate)"
    by (auto simp: bitmaps_mapped_def demo_kstate_def demo_pmm_def demo_block_def demo_mmio_def nth_Cons')
  moreover have "0x103000 \<in> pmm_managed (kpm demo_kstate)"
    by (simp add: demo_kstate_def demo_managed demo_free)
  ultimately show ?thesis
    using init_paging_frames_mapped [OF demo_boot, of "0x103000" "0x103ABC"] by simp
qed

section \<open>The descriptor table\<close>

text \<open>The five descriptors of the kernel: null, kernel code and data, user code and data.\<close>

definition kernel_segments :: "u64 list" where
  "kernel_segments = [0, 0xAF9A000000FFFF, 0xCF92000000FFFF, 0xAFFA000000FFFF, 0xCFF2000000FFFF]"

lemma kernel_segments_create:
  "gdt_entry_create 0 0 0 0 = 0" "gdt_entry_create 0 0xFFFFF 0x9A 0xA = 0xAF9A000000FFFF"
  "gdt_entry_create 0 0xFFFFF 0x92 0xC = 0xCF92000000FFFF" "gdt_entry_create 0 0xFFFFF 0xFA 0xA = 0xAFFA000000FFFF"
  "gdt_entry_create 0 0xFFFFF 0xF2 0xC = 0xCFF2000000FFFF"
  by (simp_all add: gdt_entry_create_def)

lemma add_kernel_segments_table:
  assumes "gdt_room m desc"
  shows "load_gdt_desc (add_kernel_segments m desc) desc = load_gdt_desc m desc"
    and "i < 5 \<Longrightarrow> gdt_entry_at (add_kernel_segments m desc) desc (of_nat i) = kernel_segments ! i"
proof -
  have add: "gdt_room (gdt_entry_add m desc i e) desc" "load_gdt_desc (gdt_entry_add m desc i e) desc = load_gdt_desc m desc"
      "gdt_entry_at (gdt_entry_add m desc i e) desc j = (if j = i then e else gdt_entry_at m desc j)"
    if "gdt_room m desc" for m i e j
    using gdt_entry_add_desc [OF that, of i e] gdt_entry_add_at [OF that] that by (simp_all add: gdt_room_def)
  show "load_gdt_desc (add_kernel_segments m desc) desc = load_gdt_desc m desc"
    using assms by (simp add: add_kernel_segments_def Let_def add)
  assume "i < 5"
  then have "i = 0 \<or> i = 1 \<or> i = 2 \<or> i = 3 \<or> i = 4" by linarith
  then show "gdt_entry_at (add_kernel_segments m desc) desc (of_nat i) = kernel_segments ! i"
    using assms by (auto simp: add_kernel_segments_def Let_def add kernel_segments_create kernel_segments_def)
qed

text \<open>A descriptor in one frame and its table in another.\<close>

lemma gdt_in_frames:
  fixes m :: mem
  assumes "frame_like desc" and "frame_like b" and "desc \<noteq> b"
  defines "m2 \<equiv> store64 (store16 m desc 39) (desc + 2) b"
  shows "load_gdt_desc m2 desc = \<lparr>gdt_limit = 39, gdt_base = b\<rparr>" and "gdt_room m2 desc"
proof -
  have fr: "unat desc mod 4096 = 0" "unat b mod 4096 = 0" "unat desc < 2 ^ 52" "unat b < 2 ^ 52"
    using assms(1,2) by (simp_all add: frame_like_def)
  have d2: "unat (desc + 2) = unat desc + 2" using fr(3) by (subst unat_add_nowrap) simp_all
  have "apart (desc + 2) 8 desc 2" using d2 fr(3) by (intro apartI) simp_all
  then show l: "load_gdt_desc m2 desc = \<lparr>gdt_limit = 39, gdt_base = b\<rparr>"
    by (simp add: m2_def load_gdt_desc_def load_store_other load_store_same)
  have "unat desc \<noteq> unat b" using assms(3) by (simp add: word_unat_eq_iff)
  then have "unat desc + 4096 \<le> unat b \<or> unat b + 4096 \<le> unat desc" by (rule frames_differ [OF fr(1,2)])
  then show "gdt_room m2 desc" using fr(3,4) by (auto simp: gdt_room_def l)
qed

lemma keeps_load:
  assumes "keeps R m m'" and "f \<in> R" and "unat f \<le> unat a" and "unat a + n \<le> unat f + 4096" and "unat f < 2 ^ 52"
  shows "load_le m' a n = load_le m a n"
proof (rule load_le_cong)
  fix i assume i: "i < n"
  have "unat (a + of_nat i) = unat a + i" using i assms(4,5) by (intro unat_add_of_nat) simp
  then show "m' (a + of_nat i) = m (a + of_nat i)" using assms i by (auto simp: keeps_def)
qed

lemma keeps_gdt:
  assumes "keeps {desc, b} m m'" and "frame_like desc" and "frame_like b"
    and "load_gdt_desc m desc = \<lparr>gdt_limit = l, gdt_base = b\<rparr>"
  shows "load_gdt_desc m' desc = \<lparr>gdt_limit = l, gdt_base = b\<rparr>"
    and "gdt_entry_at m' desc j = gdt_entry_at m desc j"
proof -
  have lt: "unat desc < 2 ^ 52" "unat b < 2 ^ 52" using assms(2,3) by (simp_all add: frame_like_def)
  have d2: "unat (desc + 2) = unat desc + 2" using lt(1) by (subst unat_add_nowrap) simp_all
  have "load16 m' desc = load16 m desc" "load64 m' (desc + 2) = load64 m (desc + 2)"
    using keeps_load [OF assms(1), of desc desc 2] keeps_load [OF assms(1), of desc "desc + 2" 8] d2 lt(1) by simp_all
  then show l: "load_gdt_desc m' desc = \<lparr>gdt_limit = l, gdt_base = b\<rparr>"
    using assms(4) by (simp add: load_gdt_desc_def)
  have "unat b + 2048 \<le> 2 ^ 64" using lt(2) by simp
  note sl = gdt_slot [OF this, of j]
  have "load64 m' (b + 8 * ucast j) = load64 m (b + 8 * ucast j)"
    using sl lt(2) by (intro keeps_load [OF assms(1), of b]) simp_all
  then show "gdt_entry_at m' desc j = gdt_entry_at m desc j"
    using l assms(4) by (simp add: gdt_entry_at_def)
qed

section \<open>kernel_start\<close>

definition kernel_up :: "kstate \<Rightarrow> kstate \<Rightarrow> bool" where
  "kernel_up k k' \<longleftrightarrow>
     gdt_limit (gdtr k') = 39 \<and> gdtr k' = load_gdt_desc (kmem k') (gdt (sys k')) \<and>
     (\<forall>i < 5. gdt_entry_at (kmem k') (gdt (sys k')) (of_nat i) = kernel_segments ! i) \<and>
     seg_cs k' = 0x08 \<and> seg_data k' = (0x10, 0x10, 0x10) \<and>
     identity_mapped k' (mapped_region (kpm k) 0 \<union> fb_region (fb (sys k)))"

lemma init_paging_regs:
  assumes "init_paging k = Some (r, k')"
  shows "gdtr k' = gdtr k" and "seg_cs k' = seg_cs k" and "seg_data k' = seg_data k"
    and "gdt (sys k') = gdt (sys k)" and "console k' = console k" and "physical_memory (sys k') = physical_memory (sys k)"
  using assms by (auto simp: init_paging_def Let_def split: bind_splits if_splits prod.splits)

text \<open>Taking a frame from the allocator, as the kernel does twice.\<close>

lemma frame_allocate_cases:
  assumes "pmm_ok pm"
  obtains (none) "pmm_free pm = {}" and "frame_allocate pm = Some (NO_FRAME, pm)"
  | (frame) f pm' where "frame_allocate pm = Some (f, pm')" and "f \<noteq> NO_FRAME" and "frame_like f"
      and "f \<in> pmm_free pm" and "pmm_ok pm'" and "pmm_free pm' = pmm_free pm - {f}" and "geometry pm' = geometry pm"
proof (cases "pmm_free pm = {}")
  case True
  then show ?thesis using none pm.alloc_none [OF assms] by simp
next
  case False
  then obtain f pm' where f: "frame_allocate pm = Some (f, pm')" "f \<in> pmm_free pm" "pmm_ok pm'"
      "pmm_free pm' = pmm_free pm - {f}"
    using pm.alloc_some [OF assms] by blast
  have mg: "f \<in> pmm_managed pm" using f(2) pmm_free_managed by blast
  then have "frame_like f" "f \<noteq> NO_FRAME"
    using pmm_managed_bounds [OF assms mg] pm.none_unmanaged [OF assms] by (auto simp: frame_like_def)
  then show ?thesis using frame f frame_allocate_geometry [OF assms f(1)] by blast
qed

text \<open>Everything from the second frame on: the table is built and loaded, then paging is set up.\<close>

lemma kernel_tables:
  assumes "boot_memory k" and "desc \<noteq> b" and "frame_like desc" and "frame_like b"
    and "set_aside R (kpm k)" and "{desc, b} \<subseteq> R" and "gdt (sys k) = desc"
    and "kmem k = add_kernel_segments (store64 (store16 m desc 39) (desc + 2) b) desc"
    and "gdtr k = load_gdt_desc (kmem k) desc" and "seg_cs k = 0x08" and "seg_data k = (0x10, 0x10, 0x10)"
  shows "\<exists>r k'. init_paging k = Some (r, k') \<and> init_paging_post R k (r, k') \<and> (r = 0 \<longrightarrow> kernel_up k k')"
proof -
  note g = gdt_in_frames [OF assms(3,4,2), of m]
  note t = add_kernel_segments_table [OF g(2)]
  obtain r k' where ip: "init_paging k = Some (r, k')" "init_paging_post R k (r, k')"
    using init_paging_spec [OF assms(1,5)] by fastforce
  have kd: "load_gdt_desc (kmem k) desc = \<lparr>gdt_limit = 39, gdt_base = b\<rparr>" using t(1) g(1) assms(8) by simp
  have "keeps R (kmem k) (kmem k')" using ip(2) by (simp add: init_paging_post_def)
  note kg = keeps_gdt [OF keeps_mono [OF this assms(6)] assms(3,4) kd]
  note regs = init_paging_regs [OF ip(1)]
  have "kernel_up k k'" if "r = 0"
    using ip(2) that regs kg kd t(2) assms(7-11) by (simp add: kernel_up_def init_paging_post_def)
  then show ?thesis using ip by blast
qed

text \<open>The state before \<^verbatim>\<open>init_paging\<close>, when both frames for the descriptor table were allocated.\<close>

definition gdt_ready :: "string \<Rightarrow> u64 \<Rightarrow> kstate \<Rightarrow> colonel_t \<Rightarrow> u64 \<Rightarrow> pmm \<Rightarrow> mem \<Rightarrow> kstate" where
  "gdt_ready pkg self k s desc pm m =
     (let d = load_gdt_desc m desc in
      k\<lparr>sys := s\<lparr>gdt := desc\<rparr>, kpm := pm, kmem := m, gdtr := d, seg_cs := 0x08, seg_data := (0x10, 0x10, 0x10),
        console := console k @ [Ssfn_setup (fb s), Ssfn_set_color 0xFFFFFFFF 0] @
        [Ssfn_printf (''%s'' @ nl @ nl) [PStr pkg], Ssfn_printf (''Copied physical memory map to 0x%x.'' @ nl) [PInt (physical_memory s)],
         Ssfn_printf (''kernel_start() is at 0x%llx.'' @ nl) [PInt self], Ssfn_printf (''Starting kernel...'' @ nl) [],
         Ssfn_printf (''Created GDT descriptor at 0x%x.'' @ nl) [PInt desc],
         Ssfn_printf (''Setup GDT at 0x%x, limit: 0x%x.'' @ nl) [PInt (gdt_base d), PInt (ucast (gdt_limit d))]]\<rparr>)"

lemma kernel_start_course:
  assumes "frame_allocate (kpm k) = Some (desc, pm1)" and "desc \<noteq> NO_FRAME"
    and "frame_allocate pm1 = Some (b, pm2)" and "b \<noteq> NO_FRAME"
  shows "kernel_start pkg self k s = do {
      (r, k) \<leftarrow> init_paging (gdt_ready pkg self k s desc pm2
        (add_kernel_segments (store64 (store16 (kmem k) desc 39) (desc + 2) b) desc));
      if r \<noteq> 0 then Some (No_page_tables, say k (''Failed to build kernel page tables.'' @ nl) [])
      else Some (Up, say k (''Loaded kernel PML4 at 0x%llx.'' @ nl) [PInt (pml4 (sys k))])}"
  using assms by (simp add: kernel_start_def say_def Let_def gdt_flush_def gdt_entry_count_def gdt_ready_def)

abbreviation kernel_end :: "kstate \<Rightarrow> (halt \<times> kstate) option \<Rightarrow> bool" where
  "kernel_end k res \<equiv> (\<exists>h k'. res = Some (h, k') \<and> 
     (if h = Up then kernel_up k k' else pmm_free (kpm k') = {} \<and> card (pmm_free (kpm k)) \<le> 2 + paging_cost k))"

lemma card_le_remove: "card A \<le> Suc (card (A - {x}))"
  using diff_card_le_card_Diff [of "{x}" A] by simp

lemma kernel_start_tables:
  assumes "boot_memory (k\<lparr>sys := s\<rparr>)"
    and d: "frame_allocate (kpm k) = Some (desc, pm1)" "desc \<noteq> NO_FRAME" "frame_like desc" "pmm_free pm1 = pmm_free (kpm k) - {desc}"
      "geometry pm1 = geometry (kpm k)"
    and b: "frame_allocate pm1 = Some (b, pm2)" "b \<noteq> NO_FRAME" "frame_like b" "b \<in> pmm_free pm1" "pmm_ok pm2"
      "pmm_free pm2 = pmm_free pm1 - {b}" "geometry pm2 = geometry pm1"
  shows "kernel_end (k\<lparr>sys := s\<rparr>) (kernel_start pkg self k s)"
proof -
  define k1 where "k1 = gdt_ready pkg self k s desc pm2
    (add_kernel_segments (store64 (store16 (kmem k) desc 39) (desc + 2) b) desc)"
  have k1: "kpm k1 = pm2" "fb (sys k1) = fb s" "gdt (sys k1) = desc" by (simp_all add: k1_def gdt_ready_def Let_def)
  have "geometry pm2 = geometry (kpm k)" using b(7) d(5) by simp
  note ge = geometry_eqD [OF this]
  have bm: "boot_memory k1" using assms(1) b(5,6) d(4) ge(3) by (simp add: boot_memory_def k1)
  have ne: "desc \<noteq> b" using b(4) d(4) by auto
  have sa: "set_aside {desc, b} (kpm k1)" using d(3,4) b(3,6) by (auto simp: set_aside_def k1 frame_like_def)
  have km: "kmem k1 = add_kernel_segments (store64 (store16 (kmem k) desc 39) (desc + 2) b) desc"
      "gdtr k1 = load_gdt_desc (kmem k1) desc" "seg_cs k1 = 0x08" "seg_data k1 = (0x10, 0x10, 0x10)"
    by (simp_all add: k1_def gdt_ready_def Let_def)
  from kernel_tables [OF bm ne d(3) b(3) sa order_refl k1(3) km] obtain r k2 where ip: "init_paging k1 = Some (r, k2)"
      "r = 0 \<and> kernel_up k1 k2 \<or> r = - 1 \<and> pmm_free (kpm k2) = {} \<and> card (pmm_free pm2) \<le> paging_cost k1"
    unfolding init_paging_post_def k1(1) by fastforce
  have "paging_cost k1 = paging_cost (k\<lparr>sys := s\<rparr>)" using ge(4) by (simp add: paging_cost_def k1)
  moreover have "card (pmm_free (kpm k)) \<le> 2 + card (pmm_free pm2)"
    using card_le_remove [of "pmm_free (kpm k)" desc] card_le_remove [of "pmm_free pm1" b] unfolding d(4) b(6) by simp
  ultimately show ?thesis
    using kernel_start_course [OF d(1,2) b(1,2)] ip ge(2)
    by (auto simp: say_def kernel_up_def identity_mapped_def k1 k1_def [symmetric])
qed

lemma kernel_start_spec:
  assumes "boot_memory (k\<lparr>sys := s\<rparr>)"
  shows "kernel_end (k\<lparr>sys := s\<rparr>) (kernel_start pkg self k s)"
proof -
  have ok: "pmm_ok (kpm k)" using assms by (simp add: boot_memory_def)
  from ok show ?thesis
  proof (cases rule: frame_allocate_cases)
    case none
    then show ?thesis by (simp add: kernel_start_def say_def Let_def)
  next
    case (frame desc pm1)
    note d = frame
    from d(5) show ?thesis
    proof (cases rule: frame_allocate_cases)
      case none
      have "card (pmm_free (kpm k)) \<le> 1"
        using none(1) card_le_remove [of "pmm_free (kpm k)" desc, folded d(6)] by simp
      then show ?thesis using none d(1,2) by (simp add: kernel_start_def say_def Let_def)
    next
      case (frame b pm2)
      then show ?thesis using kernel_start_tables [OF assms d(1-3,6,7)] by blast
    qed
  qed
qed

text \<open>
  C8: \<^verbatim>\<open>kernel_start\<close> always reaches one of its \<^verbatim>\<open>hlt\<close> loops. Either some frame
  allocation failed, no frame is left, and no more were free than two for the descriptor table and those for
  page tables, or the kernel is up: the loaded descriptor table has the
  five kernel segments, unharmed by the building of the page tables, the segment registers select
  them, and CR3 holds tables that map memory and framebuffer to themselves and nothing else.
\<close>

theorem kernel_start_boots:
  assumes "boot_memory (k\<lparr>sys := s\<rparr>)"
  shows "\<exists>h k'. kernel_start pkg self k s = Some (h, k') \<and>
    (if h = Up then kernel_up (k\<lparr>sys := s\<rparr>) k'
     else pmm_free (kpm k') = {} \<and> card (pmm_free (kpm k)) \<le> 2 + paging_cost (k\<lparr>sys := s\<rparr>))"
proof -
  have "kpm (k\<lparr>sys := s\<rparr>) = kpm k" by simp
  then show ?thesis using kernel_start_spec [OF assms] by metis
qed

theorem kernel_start_boots_witness:
  "\<exists>k'. kernel_start ''echOS'' 0x200000 pool_kstate demo_sys = Some (Up, k') \<and> kernel_up pool_kstate k'"
proof -
  have k: "pool_kstate\<lparr>sys := demo_sys\<rparr> = pool_kstate" "kpm pool_kstate = pool_pmm"
    by (simp_all add: pool_kstate_def demo_kstate_def)
  then have "boot_memory (pool_kstate\<lparr>sys := demo_sys\<rparr>)" using pool_boot by simp
  from kernel_start_boots [OF this, of "''echOS''" "0x200000"] show ?thesis
    using pool_cost pool_card k by (auto split: if_splits)
qed

end
