(* ===== verification/Physical_Mem.thy ===== *)
theory Physical_Mem
  imports Physical_Props
begin

text \<open>
  The frame allocator as it lies in memory. \<^verbatim>\<open>Physical\<close> takes the manager, its blocks and their bitmaps as values; here
  the functions of \<^verbatim>\<open>kernel/memory/physical.c\<close> follow the pointers and store into the machine's memory, field by field.
  \<open>read_pmm m p\<close> is the manager that the structures at \<open>p\<close> stand for. When the structures do not overlap, every
  operation on memory does to that manager what its counterpart on values does, and stores nothing outside the
  \<open>frames_free\<close> fields and the bitmaps.
\<close>

section \<open>Operations\<close>

text \<open>
  The fields of a \<^verbatim>\<open>pm_block\<close> at \<open>q\<close>: \<^verbatim>\<open>address\<close> at 0, \<^verbatim>\<open>frames_total\<close> at 8, \<^verbatim>\<open>frames_free\<close> at 16, \<^verbatim>\<open>map\<close> at 24,
  \<^verbatim>\<open>type\<close> at 32 with four bytes of padding, \<^verbatim>\<open>attributes\<close> at 40; of a \<^verbatim>\<open>pmm\<close> at \<open>p\<close>: \<^verbatim>\<open>blocks\<close> at 0, \<^verbatim>\<open>block_count\<close> at 8.
\<close>

definition block_ptr :: "mem \<Rightarrow> u64 \<Rightarrow> nat \<Rightarrow> u64" where
  "block_ptr m p i = load64 m (load64 m p + 8 * of_nat i)"

text \<open>\<^verbatim>\<open>block->map[i]\<close>, read and written; an access through NULL is \<^const>\<open>None\<close>.\<close>

definition map_read :: "mem \<Rightarrow> u64 \<Rightarrow> nat \<Rightarrow> u64 option" where
  "map_read m q i = (if load64 m (q + 24) = 0 then None else Some (load64 m (load64 m (q + 24) + 8 * of_nat i)))"

definition map_write :: "mem \<Rightarrow> u64 \<Rightarrow> nat \<Rightarrow> u64 \<Rightarrow> mem option" where
  "map_write m q i w = (if load64 m (q + 24) = 0 then None else Some (store64 m (load64 m (q + 24) + 8 * of_nat i) w))"

function frame_allocate_from_entry_mem :: "mem \<Rightarrow> u64 \<Rightarrow> nat \<Rightarrow> (u64 \<times> mem) option" where
  "frame_allocate_from_entry_mem m q entry =
     (if entry < unat (frame_map_size (load64 m (q + 8)))
      then do {
        w \<leftarrow> map_read m q entry;
        if w = 0xFFFFFFFFFFFFFFFF then frame_allocate_from_entry_mem m q (Suc entry)
        else (case clear_bit_from w 0 of
            None \<Rightarrow> frame_allocate_from_entry_mem m q (Suc entry)
          | Some n \<Rightarrow> do {
              m \<leftarrow> map_write m q entry (w OR push_bit n 1);
              let frame_offset = of_nat entry * 64 + of_nat n;
              let addr = load64 m q + frame_offset * frame_size;
              Some (addr, store64 m (q + 16) (load64 m (q + 16) - 1))
            })
      }
      else Some (0xFFFFFFFFFFFFFFFF, m))"
  by pat_completeness auto
termination
  by (relation "measure (\<lambda>(m, q, entry). unat (frame_map_size (load64 m (q + 8))) - entry)") auto

definition frame_allocate_from_block_mem :: "mem \<Rightarrow> u64 \<Rightarrow> (u64 \<times> mem) option" where
  "frame_allocate_from_block_mem m q = frame_allocate_from_entry_mem m q 0"

definition frame_free_from_block_mem :: "mem \<Rightarrow> u64 \<Rightarrow> u64 \<Rightarrow> mem option" where
  "frame_free_from_block_mem m q addr =
     (if load64 m (q + 24) = 0 then Some m
      else do {
        let offset = addr - load64 m q;
        let frame_offset = offset div frame_size;
        let entry = unat (frame_offset div 64);
        let n = unat (frame_offset mod 64);
        w \<leftarrow> map_read m q entry;
        let m = (if w AND push_bit n 1 \<noteq> 0 then store64 m (q + 16) (load64 m (q + 16) + 1) else m);
        w \<leftarrow> map_read m q entry;
        map_write m q entry (w AND NOT (push_bit n 1))
      })"

partial_function (option) frame_allocate_loop_mem :: "mem \<Rightarrow> u64 \<Rightarrow> nat \<Rightarrow> (u64 \<times> mem) option" where
  "frame_allocate_loop_mem m p i =
     (if i < unat (load64 m (p + 8))
      then if load64 m (block_ptr m p i + 16) = 0 then frame_allocate_loop_mem m p (Suc i)
        else do {
          (addr, m) \<leftarrow> frame_allocate_from_block_mem m (block_ptr m p i);
          if addr \<noteq> 0xFFFFFFFFFFFFFFFF then Some (addr, m)
          else frame_allocate_loop_mem m p (Suc i)
        }
      else Some (0xFFFFFFFFFFFFFFFF, m))"

definition frame_allocate_mem :: "mem \<Rightarrow> u64 \<Rightarrow> (u64 \<times> mem) option" where
  "frame_allocate_mem m p = frame_allocate_loop_mem m p 0"

function frame_free_loop_mem :: "mem \<Rightarrow> u64 \<Rightarrow> u64 \<Rightarrow> nat \<Rightarrow> mem option" where
  "frame_free_loop_mem m p addr i =
     (if i < unat (load64 m (p + 8))
      then let q = block_ptr m p i; block_end = load64 m q + load64 m (q + 8) * frame_size in
        if load64 m q \<le> addr \<and> addr < block_end then frame_free_from_block_mem m q addr
        else frame_free_loop_mem m p addr (Suc i)
      else Some m)"
  by pat_completeness auto
termination
  by (relation "measure (\<lambda>(m, p, addr, i). unat (load64 m (p + 8)) - i)") auto

definition frame_free_mem :: "mem \<Rightarrow> u64 \<Rightarrow> u64 \<Rightarrow> mem option" where
  "frame_free_mem m p addr = frame_free_loop_mem m p addr 0"

definition frame_is_used_mem :: "mem \<Rightarrow> u64 \<Rightarrow> nat \<Rightarrow> u64 option" where
  "frame_is_used_mem m q frame = do {
     w \<leftarrow> map_read m q (frame div 64);
     Some (drop_bit (frame mod 64) w AND 1)
   }"

function mark_run_mem :: "mem \<Rightarrow> u64 \<Rightarrow> nat \<Rightarrow> nat \<Rightarrow> mem option" where
  "mark_run_mem m q f stop =
     (if f < stop
      then do {
        w \<leftarrow> map_read m q (f div 64);
        m \<leftarrow> map_write m q (f div 64) (w OR push_bit (f mod 64) 1);
        mark_run_mem m q (Suc f) stop
      }
      else Some m)"
  by pat_completeness auto
termination
  by (relation "measure (\<lambda>(m, q, f, stop). stop - f)") auto

function frames_scan_mem :: "mem \<Rightarrow> u64 \<Rightarrow> u64 \<Rightarrow> nat \<Rightarrow> nat \<Rightarrow> nat \<Rightarrow> (u64 \<times> mem) option" where
  "frames_scan_mem m q count frame run_start run_length =
     (if frame < unat (load64 m (q + 8))
      then do {
        used \<leftarrow> frame_is_used_mem m q frame;
        if used \<noteq> 0 then frames_scan_mem m q count (Suc frame) run_start 0
        else do {
          let start = (if run_length = 0 then frame else run_start);
          let len = Suc run_length;
          if len < unat count then frames_scan_mem m q count (Suc frame) start len
          else do {
            m \<leftarrow> mark_run_mem m q start (start + unat count);
            let m = store64 m (q + 16) (load64 m (q + 16) - count);
            Some (load64 m q + of_nat start * frame_size, m)
          }
        }
      }
      else Some (0xFFFFFFFFFFFFFFFF, m))"
  by pat_completeness auto
termination
  by (relation "measure (\<lambda>(m, q, count, frame, s, l). unat (load64 m (q + 8)) - frame)") auto

definition frames_allocate_from_block_mem :: "mem \<Rightarrow> u64 \<Rightarrow> u64 \<Rightarrow> (u64 \<times> mem) option" where
  "frames_allocate_from_block_mem m q count = frames_scan_mem m q count 0 0 0"

partial_function (option) frames_allocate_loop_mem :: "mem \<Rightarrow> u64 \<Rightarrow> u64 \<Rightarrow> nat \<Rightarrow> (u64 \<times> mem) option" where
  "frames_allocate_loop_mem m p count i =
     (if i < unat (load64 m (p + 8))
      then let q = block_ptr m p i in
        if load64 m (q + 24) = 0 \<or> load64 m (q + 16) < count then frames_allocate_loop_mem m p count (Suc i)
        else do {
          (addr, m) \<leftarrow> frames_allocate_from_block_mem m q count;
          if addr \<noteq> 0xFFFFFFFFFFFFFFFF then Some (addr, m)
          else frames_allocate_loop_mem m p count (Suc i)
        }
      else Some (0xFFFFFFFFFFFFFFFF, m))"

definition frames_allocate_mem :: "mem \<Rightarrow> u64 \<Rightarrow> u64 \<Rightarrow> (u64 \<times> mem) option" where
  "frames_allocate_mem m p count =
     (if count = 0 then Some (0xFFFFFFFFFFFFFFFF, m) else frames_allocate_loop_mem m p count 0)"

declare frame_allocate_from_entry_mem.simps [simp del] frame_free_loop_mem.simps [simp del]
  mark_run_mem.simps [simp del] frames_scan_mem.simps [simp del]

section \<open>The manager in memory\<close>

text \<open>
  The numbers the compiler gives to the types. The code only asks whether a type is MMIO or reserved; a number that stands
  for no type is read as one that is neither.
\<close>

definition pm_type_of :: "u32 \<Rightarrow> pm_type" where
  "pm_type_of n =
     (if n = 0 then PM_USABLE else if n = 1 then PM_RECLAIMABLE else if n = 2 then PM_ACPI_RECLAIM
      else if n = 3 then PM_ACPI_NVS else if n = 5 then PM_MMIO else if n = 6 then PM_RESERVED else PM_FIRMWARE)"

definition read_block :: "mem \<Rightarrow> u64 \<Rightarrow> pm_block" where
  "read_block m q = \<lparr>address = load64 m q, frames_total = load64 m (q + 8), frames_free = load64 m (q + 16),
     map_ptr = load64 m (q + 24),
     map_words = map (\<lambda>i. load64 m (load64 m (q + 24) + 8 * of_nat i))
       [0..<if load64 m (q + 24) = 0 then 0 else unat (frame_map_size (load64 m (q + 8)))],
     btype = pm_type_of (load32 m (q + 32)), attributes = load64 m (q + 40)\<rparr>"

definition read_pmm :: "mem \<Rightarrow> u64 \<Rightarrow> pmm" where
  "read_pmm m p =
     \<lparr>blocks = map (\<lambda>i. read_block m (block_ptr m p i)) [0..<unat (load64 m (p + 8))], block_count = load64 m (p + 8)\<rparr>"

text \<open>The eight-byte cells of the structures, and the bytes that the operations may change.\<close>

datatype cell = Table | Count | Ptr nat | Field nat nat | Map_word nat nat

fun cell_addr :: "mem \<Rightarrow> u64 \<Rightarrow> cell \<Rightarrow> u64" where
  "cell_addr m p Table = p"
| "cell_addr m p Count = p + 8"
| "cell_addr m p (Ptr i) = load64 m p + 8 * of_nat i"
| "cell_addr m p (Field i k) = block_ptr m p i + 8 * of_nat k"
| "cell_addr m p (Map_word i j) = load64 m (block_ptr m p i + 24) + 8 * of_nat j"

fun is_cell :: "mem \<Rightarrow> u64 \<Rightarrow> cell \<Rightarrow> bool" where
  "is_cell m p Table = True"
| "is_cell m p Count = True"
| "is_cell m p (Ptr i) = (i < unat (load64 m (p + 8)))"
| "is_cell m p (Field i k) = (i < unat (load64 m (p + 8)) \<and> k < 6)"
| "is_cell m p (Map_word i j) = (i < unat (load64 m (p + 8)) \<and> j < length (map_words (read_block m (block_ptr m p i))))"

fun mutable :: "cell \<Rightarrow> bool" where
  "mutable (Field i k) = (k = 2)"
| "mutable (Map_word i j) = True"
| "mutable c = False"

definition pmm_apart :: "mem \<Rightarrow> u64 \<Rightarrow> bool" where
  "pmm_apart m p \<longleftrightarrow> (\<forall>c d. is_cell m p c \<and> is_cell m p d \<and> c \<noteq> d \<longrightarrow> apart (cell_addr m p c) 8 (cell_addr m p d) 8)"

definition footprint :: "mem \<Rightarrow> u64 \<Rightarrow> u64 set" where
  "footprint m p = {x. \<exists>c. is_cell m p c \<and> mutable c \<and> unat (x - cell_addr m p c) < 8}"

definition storage :: "mem \<Rightarrow> u64 \<Rightarrow> u64 set" where
  "storage m p = {x. \<exists>c. is_cell m p c \<and> unat (x - cell_addr m p c) < 8}"

text \<open>The structures at \<open>p\<close> in \<open>m'\<close> stand for \<open>pm'\<close>, and only bytes in the footprint have changed since \<open>m\<close>.\<close>

definition updates :: "u64 \<Rightarrow> mem \<Rightarrow> mem \<Rightarrow> pmm \<Rightarrow> bool" where
  "updates p m m' pm' \<longleftrightarrow> pmm_apart m' p \<and> read_pmm m' p = pm' \<and> footprint m' p = footprint m p \<and> storage m' p = storage m p \<and>
     load64 m' (p + 8) = load64 m (p + 8) \<and> (\<forall>i < unat (load64 m (p + 8)). block_ptr m' p i = block_ptr m p i) \<and>
     (\<forall>x. x \<notin> footprint m p \<longrightarrow> m' x = m x)"

lemma updates_refl: "pmm_apart m p \<Longrightarrow> updates p m m (read_pmm m p)"
  by (simp add: updates_def)

lemma updates_trans: "updates p m m1 pm1 \<Longrightarrow> updates p m1 m2 pm2 \<Longrightarrow> updates p m m2 pm2"
  by (auto simp: updates_def)

section \<open>One store\<close>

lemma apart_less: "apart a n b k \<Longrightarrow> l \<le> k \<Longrightarrow> apart a n b l"
  by (simp add: apart_def)

text \<open>What a store to one of the cells that may change leaves of the others.\<close>

lemma store_cell:
  assumes ap: "pmm_apart m p" and c: "is_cell m p c" "mutable c"
  defines "m' \<equiv> \<lambda>v. store64 m (cell_addr m p c) v"
  shows "is_cell m p d \<Longrightarrow> load64 (m' v) (cell_addr m p d) = (if d = c then v else load64 m (cell_addr m p d))"
    and "is_cell m p d \<Longrightarrow> d \<noteq> c \<Longrightarrow> load32 (m' v) (cell_addr m p d) = load32 m (cell_addr m p d)"
    and "i < unat (load64 m (p + 8)) \<Longrightarrow> block_ptr (m' v) p i = block_ptr m p i"
    and "is_cell (m' v) p d = is_cell m p d"
    and "is_cell m p d \<Longrightarrow> cell_addr (m' v) p d = cell_addr m p d"
proof -
  have ld: "load64 (m' v) (cell_addr m p d) = (if d = c then v else load64 m (cell_addr m p d))"
    if d: "is_cell m p d" for d v
    using ap c(1) d by (auto simp: m'_def load_store_same pmm_apart_def intro!: load_store_other)
  show "is_cell m p d \<Longrightarrow> load64 (m' v) (cell_addr m p d) = (if d = c then v else load64 m (cell_addr m p d))" by (rule ld)
  show "load32 (m' v) (cell_addr m p d) = load32 m (cell_addr m p d)" if "is_cell m p d" "d \<noteq> c"
    unfolding m'_def by (rule load_store_other, rule apart_less [of _ _ _ 8]) (use ap c(1) that in \<open>auto simp: pmm_apart_def\<close>)
  have "Table \<noteq> c" "Count \<noteq> c" "Ptr i \<noteq> c" for i using c(2) by auto
  then have tc: "load64 (m' v) p = load64 m p" "load64 (m' v) (p + 8) = load64 m (p + 8)"
      "i < unat (load64 m (p + 8)) \<Longrightarrow> load64 (m' v) (load64 m p + 8 * of_nat i) = load64 m (load64 m p + 8 * of_nat i)" for v i
    using ld [of Table v] ld [of Count v] ld [of "Ptr i" v] by simp_all
  show bp: "block_ptr (m' v) p i = block_ptr m p i" if "i < unat (load64 m (p + 8))" for v i
    using that tc by (simp add: block_ptr_def)
  have fld: "load64 (m' v) (block_ptr m p i + 8) = load64 m (block_ptr m p i + 8)"
      "load64 (m' v) (block_ptr m p i + 24) = load64 m (block_ptr m p i + 24)" if "i < unat (load64 m (p + 8))" for v i
    using ld [of "Field i 1" v] ld [of "Field i 3" v] c(2) that by auto
  show "is_cell (m' v) p d = is_cell m p d"
    using tc bp fld by (cases d) (auto simp: read_block_def)
  show "is_cell m p d \<Longrightarrow> cell_addr (m' v) p d = cell_addr m p d"
    using tc bp fld by (cases d) auto
qed

lemma updates_store:
  assumes "pmm_apart m p" and "is_cell m p c" and "mutable c"
    and "read_pmm (store64 m (cell_addr m p c) v) p = pm'"
  shows "updates p m (store64 m (cell_addr m p c) v) pm'"
proof -
  note sc = store_cell [OF assms(1-3), where v = v]
  have "pmm_apart (store64 m (cell_addr m p c) v) p" using assms(1) sc(4,5) by (auto simp: pmm_apart_def)
  moreover have "footprint (store64 m (cell_addr m p c) v) p = footprint m p" "storage (store64 m (cell_addr m p c) v) p = storage m p"
    using sc(4,5) by (auto simp: footprint_def storage_def)
  moreover have "store64 m (cell_addr m p c) v x = m x" if "x \<notin> footprint m p" for x
    using that assms(2,3) by (auto simp: footprint_def store_le_def)
  moreover have "load64 (store64 m (cell_addr m p c) v) (p + 8) = load64 m (p + 8)" using sc(1) [of Count] assms(3) by auto
  ultimately show ?thesis using assms(4) sc(3) by (simp add: updates_def)
qed

lemma length_read [simp]: "length (blocks (read_pmm m p)) = unat (load64 m (p + 8))" "block_count (read_pmm m p) = load64 m (p + 8)"
  by (simp_all add: read_pmm_def)

lemma nth_read [simp]: "i < unat (load64 m (p + 8)) \<Longrightarrow> blocks (read_pmm m p) ! i = read_block m (block_ptr m p i)"
  by (simp add: read_pmm_def)

lemma read_pmm_store:
  assumes "pmm_apart m p" and "is_cell m p c" and "mutable c" and "i < unat (load64 m (p + 8))"
    and "\<And>j. j < unat (load64 m (p + 8)) \<Longrightarrow> read_block (store64 m (cell_addr m p c) v) (block_ptr m p j) =
      (if j = i then b else read_block m (block_ptr m p j))"
  shows "read_pmm (store64 m (cell_addr m p c) v) p = upd_block (read_pmm m p) i b"
proof -
  note sc = store_cell [OF assms(1-3), where v = v]
  have n: "load64 (store64 m (cell_addr m p c) v) (p + 8) = load64 m (p + 8)"
    using sc(1) [of Count] assms(3) by auto
  have "blocks (read_pmm (store64 m (cell_addr m p c) v) p) = (blocks (read_pmm m p))[i := b]"
    using assms(4,5) sc(3) n by (intro nth_equalityI) (auto simp: nth_list_update)
  then show ?thesis using n by (simp add: read_pmm_def upd_block_def)
qed

text \<open>What the store does to the blocks.\<close>

lemma read_block_store:
  assumes "pmm_apart m p" and "is_cell m p c" and "mutable c" and j: "j < unat (load64 m (p + 8))"
  defines "m' \<equiv> \<lambda>v. store64 m (cell_addr m p c) v" and "b \<equiv> read_block m (block_ptr m p j)"
  shows "read_block (m' v) (block_ptr m p j) =
    b\<lparr>frames_free := (if c = Field j 2 then v else frames_free b),
      map_words := map (\<lambda>l. if c = Map_word j l then v else map_words b ! l) [0..<length (map_words b)]\<rparr>"
proof -
  note sc = store_cell(1,2) [OF assms(1-3), where v = v, folded m'_def]
  have "c \<noteq> Field j 0" "c \<noteq> Field j 1" "c \<noteq> Field j 3" "c \<noteq> Field j 4" "c \<noteq> Field j 5" using assms(3) by auto
  then have f: "load64 (m' v) (block_ptr m p j) = load64 m (block_ptr m p j)"
      "load64 (m' v) (block_ptr m p j + 8) = load64 m (block_ptr m p j + 8)"
      "load64 (m' v) (block_ptr m p j + 16) = (if c = Field j 2 then v else load64 m (block_ptr m p j + 16))"
      "load64 (m' v) (block_ptr m p j + 24) = load64 m (block_ptr m p j + 24)"
      "load32 (m' v) (block_ptr m p j + 32) = load32 m (block_ptr m p j + 32)"
      "load64 (m' v) (block_ptr m p j + 40) = load64 m (block_ptr m p j + 40)"
    using sc(1) [of "Field j 0"] sc(1) [of "Field j 1"] sc(1) [of "Field j 2"] sc(1) [of "Field j 3"] sc(2) [of "Field j 4"]
      sc(1) [of "Field j 5"] j by auto
  have "load64 (m' v) (load64 m (block_ptr m p j + 24) + 8 * of_nat l) =
      (if c = Map_word j l then v else load64 m (load64 m (block_ptr m p j + 24) + 8 * of_nat l))"
    if "l < length (map_words b)" for l
    using sc(1) [of "Map_word j l"] j that by (auto simp: b_def)
  then have "map_words (read_block (m' v) (block_ptr m p j)) =
      map (\<lambda>l. if c = Map_word j l then v else map_words b ! l) [0..<length (map_words b)]"
    using f(2,4) by (intro nth_equalityI) (auto simp: read_block_def b_def cong: if_cong split: if_splits)
  then show ?thesis using f by (simp add: read_block_def b_def)
qed

lemma store_free:
  assumes "pmm_apart m p" and "i < unat (load64 m (p + 8))"
  shows "updates p m (store64 m (block_ptr m p i + 16) v)
    (upd_block (read_pmm m p) i ((read_block m (block_ptr m p i))\<lparr>frames_free := v\<rparr>))"
proof -
  have c: "is_cell m p (Field i 2)" "mutable (Field i 2)" "cell_addr m p (Field i 2) = block_ptr m p i + 16"
    using assms(2) by simp_all
  note rb = read_block_store [OF assms(1) c(1,2), where v = v]
  have "read_pmm (store64 m (cell_addr m p (Field i 2)) v) p =
      upd_block (read_pmm m p) i ((read_block m (block_ptr m p i))\<lparr>frames_free := v\<rparr>)"
    by (rule read_pmm_store [OF assms(1) c(1,2) assms(2)]) (simp add: rb map_nth del: cell_addr.simps)
  from updates_store [OF assms(1) c(1,2) this] show ?thesis unfolding c(3) .
qed

lemma store_word:
  assumes "pmm_apart m p" and "i < unat (load64 m (p + 8))" and "k < length (map_words (read_block m (block_ptr m p i)))"
  shows "updates p m (store64 m (load64 m (block_ptr m p i + 24) + 8 * of_nat k) v)
    (upd_block (read_pmm m p) i ((read_block m (block_ptr m p i))\<lparr>map_words := (map_words (read_block m (block_ptr m p i)))[k := v]\<rparr>))"
proof -
  have c: "is_cell m p (Map_word i k)" "mutable (Map_word i k)"
    "cell_addr m p (Map_word i k) = load64 m (block_ptr m p i + 24) + 8 * of_nat k" using assms(2,3) by simp_all
  note rb = read_block_store [OF assms(1) c(1,2), where v = v]
  have upd: "map (\<lambda>l. if k = l then v else ws ! l) [0..<length ws] = ws[k := v]" for ws
    by (intro nth_equalityI) (auto simp: nth_list_update)
  have "read_pmm (store64 m (cell_addr m p (Map_word i k)) v) p =
      upd_block (read_pmm m p) i ((read_block m (block_ptr m p i))\<lparr>map_words := (map_words (read_block m (block_ptr m p i)))[k := v]\<rparr>)"
    by (rule read_pmm_store [OF assms(1) c(1,2) assms(2)]) (auto simp: rb upd map_nth simp del: cell_addr.simps)
  from updates_store [OF assms(1) c(1,2) this] show ?thesis unfolding c(3) .
qed

section \<open>One block\<close>

text \<open>
  The state in the middle of an operation on block \<open>i\<close> of the manager at \<open>p\<close>: it began with memory \<open>m\<close>, memory is now
  \<open>m'\<close>, and the block is now \<open>b\<close>.
\<close>

definition block_now :: "u64 \<Rightarrow> nat \<Rightarrow> mem \<Rightarrow> mem \<Rightarrow> pm_block \<Rightarrow> bool" where
  "block_now p i m m' b \<longleftrightarrow> i < unat (load64 m (p + 8)) \<and> updates p m m' (upd_block (read_pmm m p) i b)"

lemma block_now_init:
  assumes "pmm_apart m p" and "i < unat (load64 m (p + 8))"
  shows "block_now p i m m (read_block m (block_ptr m p i))"
proof -
  have "upd_block (read_pmm m p) i (read_block m (block_ptr m p i)) = read_pmm m p"
    using assms(2) by (simp add: upd_block_def flip: nth_read)
  then show ?thesis using updates_refl [OF assms(1)] assms(2) by (simp add: block_now_def)
qed

lemma block_now_read:
  assumes "block_now p i m m' b"
  shows "pmm_apart m' p" and "i < unat (load64 m' (p + 8))" and "block_ptr m' p i = block_ptr m p i"
    and "read_block m' (block_ptr m p i) = b"
proof -
  note u = assms [unfolded block_now_def updates_def]
  show "pmm_apart m' p" "i < unat (load64 m' (p + 8))" "block_ptr m' p i = block_ptr m p i" using u by simp_all
  then have "read_block m' (block_ptr m p i) = blocks (read_pmm m' p) ! i" by simp
  also have "\<dots> = b" using u by (simp add: upd_block_def)
  finally show "read_block m' (block_ptr m p i) = b" .
qed

lemma block_now_fields:
  assumes "block_now p i m m' b"
  defines "q \<equiv> block_ptr m p i"
  shows "load64 m' q = address b" and "load64 m' (q + 8) = frames_total b" and "load64 m' (q + 16) = frames_free b"
    and "load64 m' (q + 24) = map_ptr b"
  using block_now_read(4) [OF assms(1)] by (auto simp: read_block_def q_def)

lemma block_now_get:
  assumes "block_now p i m m' b" and "map_get b k = Some w"
  shows "map_read m' (block_ptr m p i) k = Some w"
proof -
  have "map_ptr b \<noteq> 0" "k < length (map_words b)" "map_words b ! k = w"
    using assms(2) by (auto simp: map_get_def aget_eq_Some_iff split: if_splits)
  then show ?thesis using block_now_read(4) [OF assms(1)] by (auto simp: map_read_def read_block_def)
qed

lemma upd_block_twice: "upd_block (upd_block pm i b) i c = upd_block pm i c"
  by (simp add: upd_block_def)

lemma block_now_step:
  assumes "block_now p i m m1 b" and "updates p m1 m2 (upd_block (read_pmm m1 p) i c)"
  shows "block_now p i m m2 c"
  using assms updates_trans [of p m m1 _ m2] by (auto simp: block_now_def updates_def upd_block_twice)

lemma block_now_set:
  assumes "block_now p i m m' b" and "map_set b k w = Some c"
  shows "\<exists>m2. map_write m' (block_ptr m p i) k w = Some m2 \<and> block_now p i m m2 c"
proof -
  note r = block_now_read [OF assms(1)]
  have c: "map_ptr b \<noteq> 0" "k < length (map_words b)" "c = b\<lparr>map_words := (map_words b)[k := w]\<rparr>"
    using assms(2) by (auto simp: map_set_def aset_eq_Some_iff split: if_splits)
  then have "updates p m' (store64 m' (load64 m' (block_ptr m p i + 24) + 8 * of_nat k) w) (upd_block (read_pmm m' p) i c)"
    using store_word [OF r(1,2), of k w] r(3,4) by simp
  then show ?thesis
    using block_now_step [OF assms(1)] block_now_fields(4) [OF assms(1)] c(1) by (simp add: map_write_def)
qed

lemma block_now_free:
  assumes "block_now p i m m' b"
  shows "block_now p i m (store64 m' (block_ptr m p i + 16) v) (b\<lparr>frames_free := v\<rparr>)"
  using block_now_step [OF assms] store_free [OF block_now_read(1,2) [OF assms], of v] block_now_read(3,4) [OF assms] by simp

lemma map_set_fields:
  "map_set b k w = Some c \<Longrightarrow> address c = address b \<and> frames_total c = frames_total b \<and> frames_free c = frames_free b \<and> map_ptr c = map_ptr b"
  by (auto simp: map_set_def split: if_splits)

lemma frame_allocate_from_entry_refines:
  assumes "block_now p i m m' b" and "frame_allocate_from_entry b e = Some (a, b')"
  shows "\<exists>m2. frame_allocate_from_entry_mem m' (block_ptr m p i) e = Some (a, m2) \<and> block_now p i m m2 b'"
  using assms(2)
proof (induction "unat (frame_map_size (frames_total b)) - e" arbitrary: e)
  case 0
  then show ?case
    using assms(1) block_now_fields(2) [OF assms(1)]
    by (simp add: frame_allocate_from_entry.simps [of b e] frame_allocate_from_entry_mem.simps [of m' _ e])
next
  case (Suc n)
  let ?q = "block_ptr m p i"
  have lt: "e < unat (frame_map_size (frames_total b))" and n: "n = unat (frame_map_size (frames_total b)) - Suc e"
    using Suc.hyps(2) by simp_all
  obtain w where w: "map_get b e = Some w"
    using Suc.prems lt by (cases "map_get b e") (simp_all add: frame_allocate_from_entry.simps [of b e])
  note r = block_now_get [OF assms(1) w] and f = block_now_fields(2) [OF assms(1)]
  show ?case
  proof (cases "w = NO_FRAME \<or> clear_bit_from w 0 = None")
    case True
    then have "frame_allocate_from_entry b (Suc e) = Some (a, b')"
      "frame_allocate_from_entry_mem m' ?q e = frame_allocate_from_entry_mem m' ?q (Suc e)"
      using Suc.prems lt w r f
      by (auto simp: frame_allocate_from_entry.simps [of b e] frame_allocate_from_entry_mem.simps [of m' _ e] split: if_splits)
    then show ?thesis using Suc.hyps(1) [OF n] by simp
  next
    case False
    then obtain k where k: "w \<noteq> NO_FRAME" "clear_bit_from w 0 = Some k" by auto
    then obtain c where c: "map_set b e (w OR push_bit k 1) = Some c" "b' = c\<lparr>frames_free := frames_free c - 1\<rparr>"
        "a = address b + (of_nat e * 64 + of_nat k) * frame_size"
      using Suc.prems lt w
      by (cases "map_set b e (w OR push_bit k 1)") (auto simp: frame_allocate_from_entry.simps [of b e] Let_def)
    obtain m1 where m1: "map_write m' ?q e (w OR push_bit k 1) = Some m1" "block_now p i m m1 c"
      using block_now_set [OF assms(1) c(1)] by blast
    note fc = block_now_fields [OF m1(2)] map_set_fields [OF c(1)]
    have "frame_allocate_from_entry_mem m' ?q e = Some (a, store64 m1 (?q + 16) (frames_free c - 1))"
      using lt f r k m1(1) fc c(3) by (simp add: frame_allocate_from_entry_mem.simps [of m' _ e] Let_def)
    then show ?thesis using block_now_free [OF m1(2)] c(2) by blast
  qed
qed

lemma frame_free_from_block_refines:
  assumes "block_now p i m m' b" and "frame_free_from_block b a = Some b'"
  shows "\<exists>m2. frame_free_from_block_mem m' (block_ptr m p i) a = Some m2 \<and> block_now p i m m2 b'"
proof (cases "map_ptr b = 0")
  case True
  then show ?thesis using assms block_now_fields(4) [OF assms(1)]
    by (simp add: frame_free_from_block_def frame_free_from_block_mem_def)
next
  case False
  let ?q = "block_ptr m p i"
  define e where "e = unat ((a - address b) div frame_size div 64)"
  define k where "k = unat ((a - address b) div frame_size mod 64)"
  obtain w where w: "map_get b e = Some w"
    using assms(2) False by (cases "map_get b e") (simp_all add: frame_free_from_block_def Let_def e_def)
  define b1 where "b1 = (if w AND push_bit k 1 \<noteq> 0 then b\<lparr>frames_free := frames_free b + 1\<rparr> else b)"
  define m1 where "m1 = (if w AND push_bit k 1 \<noteq> 0 then store64 m' (?q + 16) (load64 m' (?q + 16) + 1) else m')"
  have set: "map_set b1 e (w AND NOT (push_bit k 1)) = Some b'"
    using assms(2) False w unfolding e_def k_def b1_def by (simp add: frame_free_from_block_def Let_def)
  have bn: "block_now p i m m1 b1"
    using block_now_free [OF assms(1)] assms(1) block_now_fields(3) [OF assms(1)] by (simp add: m1_def b1_def)
  have "map_get b1 e = Some w" using w False by (simp add: b1_def map_get_def)
  note r = block_now_get [OF assms(1) w] block_now_get [OF bn this]
  obtain m2 where m2: "map_write m1 ?q e (w AND NOT (push_bit k 1)) = Some m2" "block_now p i m m2 b'"
    using block_now_set [OF bn set] by blast
  have "frame_free_from_block_mem m' ?q a = Some m2"
    using False r m2(1) block_now_fields(1,4) [OF assms(1)] unfolding e_def k_def m1_def
    by (simp add: frame_free_from_block_mem_def Let_def)
  then show ?thesis using m2(2) by blast
qed

lemma mark_run_refines:
  assumes "block_now p i m m' b" and "mark_run b f stop = Some b'"
  shows "\<exists>m2. mark_run_mem m' (block_ptr m p i) f stop = Some m2 \<and> block_now p i m m2 b' \<and>
    address b' = address b \<and> frames_free b' = frames_free b"
  using assms
proof (induction b f stop arbitrary: m' rule: mark_run.induct)
  case (1 b f stop)
  show ?case
  proof (cases "f < stop")
    case False
    then show ?thesis using "1.prems" by (simp add: mark_run.simps [of b f] mark_run_mem.simps [of _ _ f])
  next
    case True
    then obtain w c where c: "map_get b (f div 64) = Some w" "map_set b (f div 64) (w OR push_bit (f mod 64) 1) = Some c"
        "mark_run c (Suc f) stop = Some b'"
      using "1.prems"(2) by (auto simp: mark_run.simps [of b f] bind_eq_Some_conv)
    obtain m1 where m1: "map_write m' (block_ptr m p i) (f div 64) (w OR push_bit (f mod 64) 1) = Some m1" "block_now p i m m1 c"
      using block_now_set [OF "1.prems"(1) c(2)] by blast
    from "1.IH" [OF True c(1,2) m1(2) c(3)] show ?thesis
      using True m1(1) block_now_get [OF "1.prems"(1) c(1)] map_set_fields [OF c(2)]
      by (simp add: mark_run_mem.simps [of m' _ f])
  qed
qed

lemma frames_scan_refines:
  assumes "block_now p i m m' b" and "frames_scan b count f s l = Some (a, b')"
  shows "\<exists>m2. frames_scan_mem m' (block_ptr m p i) count f s l = Some (a, m2) \<and> block_now p i m m2 b'"
  using assms(2)
proof (induction "unat (frames_total b) - f" arbitrary: f s l)
  case 0
  then show ?case using assms(1) block_now_fields(2) [OF assms(1)]
    by (simp add: frames_scan.simps [of b _ f] frames_scan_mem.simps [of m' _ _ f])
next
  case (Suc n)
  let ?q = "block_ptr m p i" and ?s = "if l = 0 then f else s"
  have lt: "f < unat (frames_total b)" and n: "n = unat (frames_total b) - Suc f" using Suc.hyps(2) by simp_all
  note IH = Suc.hyps(1) [OF n] and fl = block_now_fields [OF assms(1)]
  obtain w where w: "map_get b (f div 64) = Some w"
    using Suc.prems lt by (cases "map_get b (f div 64)") (simp_all add: frames_scan.simps [of b _ f] frame_is_used_def)
  have used: "frame_is_used b f = Some (drop_bit (f mod 64) w AND 1)"
      "frame_is_used_mem m' ?q f = Some (drop_bit (f mod 64) w AND 1)"
    using w block_now_get [OF assms(1) w] by (simp_all add: frame_is_used_def frame_is_used_mem_def)
  consider (used) "drop_bit (f mod 64) w AND 1 \<noteq> 0" | (more) "drop_bit (f mod 64) w AND 1 = 0" "Suc l < unat count"
    | (found) "drop_bit (f mod 64) w AND 1 = 0" "\<not> Suc l < unat count" by blast
  then show ?case
  proof cases
    case used
    then show ?thesis using IH [of s 0] Suc.prems lt fl(2) \<open>frame_is_used b f = _\<close> \<open>frame_is_used_mem m' ?q f = _\<close>
      by (simp add: frames_scan.simps [of b _ f] frames_scan_mem.simps [of m' _ _ f])
  next
    case more
    then show ?thesis using IH [of ?s "Suc l"] Suc.prems lt fl(2) used
      by (simp add: frames_scan.simps [of b _ f] frames_scan_mem.simps [of m' _ _ f] Let_def)
  next
    case found
    then obtain c where c: "mark_run b ?s (?s + unat count) = Some c" "a = address b + of_nat ?s * frame_size"
        "b' = c\<lparr>frames_free := frames_free c - count\<rparr>"
      using Suc.prems lt used by (cases "mark_run b ?s (?s + unat count)") (auto simp: frames_scan.simps [of b _ f] Let_def)
    obtain m1 where m1: "mark_run_mem m' ?q ?s (?s + unat count) = Some m1" "block_now p i m m1 c" "address c = address b"
      using mark_run_refines [OF assms(1) c(1)] by blast
    note bn = block_now_free [OF m1(2), of "frames_free c - count"]
    have "frames_scan_mem m' ?q count f s l = Some (a, store64 m1 (?q + 16) (frames_free c - count))"
      using lt fl(2) used found m1(1,3) c(2) block_now_fields(3) [OF m1(2)] block_now_fields(1) [OF bn]
      by (simp add: frames_scan_mem.simps [of m' _ _ f] Let_def)
    then show ?thesis using bn c(3) by blast
  qed
qed

section \<open>The manager\<close>

lemma updates_step: "block_now p i m m' b \<Longrightarrow> read_pmm m' p = upd_block (read_pmm m p) i b \<and> pmm_apart m' p \<and> load64 m' (p + 8) = load64 m (p + 8)"
  by (simp add: block_now_def updates_def)

lemma frame_allocate_loop_refines:
  assumes "pmm_apart m p" and "frame_allocate_loop (read_pmm m p) i = Some (a, pm')"
  shows "\<exists>m'. frame_allocate_loop_mem m p i = Some (a, m') \<and> updates p m m' pm'"
  using assms
proof (induction "unat (load64 m (p + 8)) - i" arbitrary: m i)
  case 0
  then show ?case using updates_refl [OF "0.prems"(1)]
    by (auto simp: frame_allocate_loop.simps [of _ i] frame_allocate_loop_mem.simps [of m p i])
next
  case (Suc n)
  let ?b = "read_block m (block_ptr m p i)"
  have i: "i < unat (load64 m (p + 8))" "n = unat (load64 m (p + 8)) - Suc i" using Suc.hyps(2) by simp_all
  note bn = block_now_init [OF Suc.prems(1) i(1)]
  show ?case
  proof (cases "frames_free ?b = 0")
    case True
    then have "frame_allocate_loop (read_pmm m p) (Suc i) = Some (a, pm')"
      using Suc.prems(2) i(1) by (simp add: frame_allocate_loop.simps [of _ i])
    from Suc.hyps(1) [OF i(2) Suc.prems(1) this] show ?thesis
      using True i(1) block_now_fields(3) [OF bn] by (simp add: frame_allocate_loop_mem.simps [of m p i])
  next
    case False
    then obtain r b' where b': "frame_allocate_from_block ?b = Some (r, b')"
        "if r \<noteq> NO_FRAME then (a, pm') = (r, upd_block (read_pmm m p) i b')
         else frame_allocate_loop (upd_block (read_pmm m p) i b') (Suc i) = Some (a, pm')"
      using Suc.prems(2) i(1)
      by (cases "frame_allocate_from_block ?b") (auto simp: frame_allocate_loop.simps [of _ i] upd_block_def Let_def split: if_splits)
    from frame_allocate_from_entry_refines [OF bn, of 0 r b'] b'(1) obtain m1
      where m1: "frame_allocate_from_block_mem m (block_ptr m p i) = Some (r, m1)" "block_now p i m m1 b'"
      by (auto simp: frame_allocate_from_block_def frame_allocate_from_block_mem_def)
    note u = updates_step [OF m1(2)]
    have eq: "frame_allocate_loop_mem m p i = (if r \<noteq> NO_FRAME then Some (r, m1) else frame_allocate_loop_mem m1 p (Suc i))"
      using i(1) False m1(1) block_now_fields(3) [OF bn] by (simp add: frame_allocate_loop_mem.simps [of m p i])
    show ?thesis
    proof (cases "r = NO_FRAME")
      case True
      then obtain m' where "frame_allocate_loop_mem m1 p (Suc i) = Some (a, m')" "updates p m1 m' pm'"
        using Suc.hyps(1) [of m1 "Suc i"] u b'(2) i(2) by auto
      then show ?thesis using eq True m1(2) updates_trans by (auto simp: block_now_def)
    qed (use eq b'(2) m1(2) in \<open>simp add: block_now_def\<close>)
  qed
qed

lemma frames_allocate_loop_refines:
  assumes "pmm_apart m p" and "frames_allocate_loop (read_pmm m p) count i = Some (a, pm')"
  shows "\<exists>m'. frames_allocate_loop_mem m p count i = Some (a, m') \<and> updates p m m' pm'"
  using assms
proof (induction "unat (load64 m (p + 8)) - i" arbitrary: m i)
  case 0
  then show ?case using updates_refl [OF "0.prems"(1)]
    by (auto simp: frames_allocate_loop.simps [of _ _ i] frames_allocate_loop_mem.simps [of m p _ i])
next
  case (Suc n)
  let ?b = "read_block m (block_ptr m p i)"
  have i: "i < unat (load64 m (p + 8))" "n = unat (load64 m (p + 8)) - Suc i" using Suc.hyps(2) by simp_all
  note bn = block_now_init [OF Suc.prems(1) i(1)]
  show ?case
  proof (cases "map_ptr ?b = 0 \<or> frames_free ?b < count")
    case True
    then have "frames_allocate_loop (read_pmm m p) count (Suc i) = Some (a, pm')"
      using Suc.prems(2) i(1) by (auto simp: frames_allocate_loop.simps [of _ _ i])
    from Suc.hyps(1) [OF i(2) Suc.prems(1) this] show ?thesis
      using True i(1) block_now_fields(3,4) [OF bn] by (auto simp: frames_allocate_loop_mem.simps [of m p _ i] Let_def)
  next
    case False
    then obtain r b' where b': "frames_allocate_from_block ?b count = Some (r, b')"
        "if r \<noteq> NO_FRAME then (a, pm') = (r, upd_block (read_pmm m p) i b')
         else frames_allocate_loop (upd_block (read_pmm m p) i b') count (Suc i) = Some (a, pm')"
      using Suc.prems(2) i(1)
      by (cases "frames_allocate_from_block ?b count")
        (auto simp: frames_allocate_loop.simps [of _ _ i] upd_block_def Let_def split: if_splits)
    from frames_scan_refines [OF bn, of count 0 0 0 r b'] b'(1) obtain m1
      where m1: "frames_allocate_from_block_mem m (block_ptr m p i) count = Some (r, m1)" "block_now p i m m1 b'"
      by (auto simp: frames_allocate_from_block_def frames_allocate_from_block_mem_def)
    note u = updates_step [OF m1(2)]
    have eq: "frames_allocate_loop_mem m p count i = (if r \<noteq> NO_FRAME then Some (r, m1) else frames_allocate_loop_mem m1 p count (Suc i))"
      using i(1) False m1(1) block_now_fields(3,4) [OF bn] by (simp add: frames_allocate_loop_mem.simps [of m p _ i] Let_def)
    show ?thesis
    proof (cases "r = NO_FRAME")
      case True
      then obtain m' where "frames_allocate_loop_mem m1 p count (Suc i) = Some (a, m')" "updates p m1 m' pm'"
        using Suc.hyps(1) [of m1 "Suc i"] u b'(2) i(2) by auto
      then show ?thesis using eq True m1(2) updates_trans by (auto simp: block_now_def)
    qed (use eq b'(2) m1(2) in \<open>simp add: block_now_def\<close>)
  qed
qed

lemma frame_free_loop_refines:
  assumes "pmm_apart m p" and "frame_free_loop (read_pmm m p) a i = Some pm'"
  shows "\<exists>m'. frame_free_loop_mem m p a i = Some m' \<and> updates p m m' pm'"
  using assms(2)
proof (induction "unat (load64 m (p + 8)) - i" arbitrary: i)
  case 0
  then show ?case using updates_refl [OF assms(1)]
    by (auto simp: frame_free_loop.simps [of _ _ i] frame_free_loop_mem.simps [of m p _ i])
next
  case (Suc n)
  let ?b = "read_block m (block_ptr m p i)"
  have i: "i < unat (load64 m (p + 8))" "n = unat (load64 m (p + 8)) - Suc i" using Suc.hyps(2) by simp_all
  note bn = block_now_init [OF assms(1) i(1)]
  show ?case
  proof (cases "address ?b \<le> a \<and> a < address ?b + frames_total ?b * frame_size")
    case True
    then obtain b' where b': "frame_free_from_block ?b a = Some b'" "pm' = upd_block (read_pmm m p) i b'"
      using Suc.prems i(1)
      by (cases "frame_free_from_block ?b a") (auto simp: frame_free_loop.simps [of _ _ i] upd_block_def Let_def)
    from frame_free_from_block_refines [OF bn b'(1)] show ?thesis
      using True i(1) b'(2) block_now_fields(1,2) [OF bn]
      by (auto simp: frame_free_loop_mem.simps [of m p _ i] Let_def block_now_def)
  next
    case False
    then have "frame_free_loop (read_pmm m p) a (Suc i) = Some pm'"
      using Suc.prems i(1) by (auto simp: frame_free_loop.simps [of _ _ i] Let_def split: if_splits)
    from Suc.hyps(1) [OF i(2) this] show ?thesis
      using False i(1) block_now_fields(1,2) [OF bn] by (auto simp: frame_free_loop_mem.simps [of m p _ i] Let_def)
  qed
qed

lemma frame_allocate_refines:
  "pmm_apart m p \<Longrightarrow> frame_allocate (read_pmm m p) = Some (a, pm') \<Longrightarrow>
    \<exists>m'. frame_allocate_mem m p = Some (a, m') \<and> updates p m m' pm'"
  using frame_allocate_loop_refines by (simp add: frame_allocate_def frame_allocate_mem_def)

lemma frame_free_refines:
  "pmm_apart m p \<Longrightarrow> frame_free (read_pmm m p) a = Some pm' \<Longrightarrow>
    \<exists>m'. frame_free_mem m p a = Some m' \<and> updates p m m' pm'"
  using frame_free_loop_refines by (simp add: frame_free_def frame_free_mem_def)

lemma frames_allocate_refines:
  "pmm_apart m p \<Longrightarrow> frames_allocate (read_pmm m p) count = Some (a, pm') \<Longrightarrow>
    \<exists>m'. frames_allocate_mem m p count = Some (a, m') \<and> updates p m m' pm'"
  using frames_allocate_loop_refines updates_refl
  by (auto simp: frames_allocate_def frames_allocate_mem_def split: if_splits)

section \<open>The allocator in memory meets the interface\<close>

lemma load64_byte: "k < 8 \<Longrightarrow> m (a + of_nat k) = ucast (drop_bit (8 * k) (load64 m a))"
  by (rule bit_word_eqI) (auto simp: bit_simps)

text \<open>The manager determines the bytes of its footprint.\<close>

lemma updates_same:
  assumes "updates p m m' (read_pmm m p)" and "pmm_apart m p"
  shows "m' = m"
proof
  fix x
  note u = assms(1) [unfolded updates_def]
  show "m' x = m x"
  proof (cases "x \<in> footprint m p")
    case True
    then obtain c where c: "is_cell m p c" "mutable c" "unat (x - cell_addr m p c) < 8" by (auto simp: footprint_def)
    have "\<exists>i. i < unat (load64 m (p + 8)) \<and> (c = Field i 2 \<or> (\<exists>j. c = Map_word i j))"
      using c(1,2) by (cases c) auto
    then obtain i where i: "i < unat (load64 m (p + 8))" "c = Field i 2 \<or> (\<exists>j. c = Map_word i j)" by blast
    have "block_ptr m' p i = block_ptr m p i" using u i(1) by blast
    then have rb: "read_block m' (block_ptr m p i) = read_block m (block_ptr m p i)"
      using nth_read [of i m' p] nth_read [of i m p] i(1) u by metis
    then have f: "load64 m' (block_ptr m p i + 16) = load64 m (block_ptr m p i + 16)"
        "load64 m' (block_ptr m p i + 24) = load64 m (block_ptr m p i + 24)"
      by (simp_all add: read_block_def)
    have w: "load64 m' (load64 m (block_ptr m p i + 24) + 8 * of_nat j) = load64 m (load64 m (block_ptr m p i + 24) + 8 * of_nat j)"
      if j: "j < length (map_words (read_block m (block_ptr m p i)))" for j
    proof -
      have "map_words (read_block m' (block_ptr m p i)) ! j = map_words (read_block m (block_ptr m p i)) ! j" using rb by simp
      then show ?thesis using j rb f(2) by (auto simp: read_block_def split: if_splits)
    qed
    have "load64 m' (cell_addr m p c) = load64 m (cell_addr m p c)" using i(2) f w c(1) by auto
    moreover have "x = cell_addr m p c + of_nat (unat (x - cell_addr m p c))" by simp
    ultimately show ?thesis using load64_byte [OF c(3), of m' "cell_addr m p c"] load64_byte [OF c(3), of m "cell_addr m p c"]
      by metis
  qed (use u in blast)
qed

abbreviation mem_ok :: "u64 \<Rightarrow> mem \<Rightarrow> bool" where
  "mem_ok p m \<equiv> pmm_apart m p \<and> pmm_ok (read_pmm m p)"

lemma updates_read: "updates p m m' pm' \<Longrightarrow> read_pmm m' p = pm' \<and> pmm_apart m' p"
  by (simp add: updates_def)

interpretation pm_mem: run_allocator "mem_ok p" "\<lambda>m. pmm_free (read_pmm m p)" "\<lambda>m. pmm_managed (read_pmm m p)"
    "\<lambda>m. frame_allocate_mem m p" "\<lambda>m. frame_free_mem m p" NO_FRAME
    "\<lambda>m. frames_allocate_mem m p" "\<lambda>a n. run_frames a (unat n)" "\<lambda>m n. n \<noteq> 0 \<and> has_run (read_pmm m p) (unat n)" for p
proof
  fix m a n
  assume "mem_ok p m"
  then have ap: "pmm_apart m p" and ok: "pmm_ok (read_pmm m p)" by simp_all
  show "finite (pmm_free (read_pmm m p))" by simp
  show "pmm_free (read_pmm m p) \<subseteq> pmm_managed (read_pmm m p)" by (rule pmm_free_managed)
  show "NO_FRAME \<notin> pmm_managed (read_pmm m p)" using pm.none_unmanaged [OF ok] .
  show "\<exists>a m'. frame_allocate_mem m p = Some (a, m') \<and> a \<in> pmm_free (read_pmm m p) \<and> mem_ok p m' \<and>
      pmm_free (read_pmm m' p) = pmm_free (read_pmm m p) - {a} \<and> pmm_managed (read_pmm m' p) = pmm_managed (read_pmm m p)"
    if "pmm_free (read_pmm m p) \<noteq> {}"
    using pm.alloc_some [OF ok that] frame_allocate_refines [OF ap] updates_read by metis
  show "frame_allocate_mem m p = Some (NO_FRAME, m)" if "pmm_free (read_pmm m p) = {}"
    using frame_allocate_refines [OF ap pm.alloc_none [OF ok that]] updates_same [OF _ ap] by blast
  show "\<exists>m'. frame_free_mem m p a = Some m' \<and> mem_ok p m' \<and> pmm_free (read_pmm m' p) = insert a (pmm_free (read_pmm m p)) \<and>
      pmm_managed (read_pmm m' p) = pmm_managed (read_pmm m p)" if "a \<in> pmm_managed (read_pmm m p)"
    using pm.release_ok [OF ok that] frame_free_refines [OF ap] updates_read by metis
  show "\<exists>a m'. frames_allocate_mem m p n = Some (a, m') \<and> a \<in> run_frames a (unat n) \<and>
      run_frames a (unat n) \<subseteq> pmm_free (read_pmm m p) \<and> mem_ok p m' \<and>
      pmm_free (read_pmm m' p) = pmm_free (read_pmm m p) - run_frames a (unat n) \<and>
      pmm_managed (read_pmm m' p) = pmm_managed (read_pmm m p)" if "n \<noteq> 0 \<and> has_run (read_pmm m p) (unat n)"
    using pm.run_some [OF ok that] frames_allocate_refines [OF ap] updates_read by metis
  show "frames_allocate_mem m p n = Some (NO_FRAME, m)" if "\<not> (n \<noteq> 0 \<and> has_run (read_pmm m p) (unat n))"
    using frames_allocate_refines [OF ap pm.run_none [OF ok that]] updates_same [OF _ ap] by blast
qed

section \<open>Stores elsewhere\<close>

text \<open>A change of memory that spares the structures changes neither what they stand for nor where they are.\<close>

lemma load32_low: "load32 m a = ucast (load64 m a)"
  by (rule bit_word_eqI) (auto simp: bit_simps)

lemma storage_spared:
  assumes "\<And>x. x \<in> storage m p \<Longrightarrow> m' x = m x"
  shows "read_pmm m' p = read_pmm m p" and "is_cell m' p c = is_cell m p c"
    and "is_cell m p c \<Longrightarrow> cell_addr m' p c = cell_addr m p c"
proof -
  have ld: "load64 m' (cell_addr m p c) = load64 m (cell_addr m p c)" if c: "is_cell m p c" for c
  proof (rule load_le_cong)
    fix k :: nat assume k: "k < 8"
    then have "unat (of_nat k :: u64) = k" by (intro unat_of_nat_u64) simp
    then have "cell_addr m p c + of_nat k \<in> storage m p" using c k unfolding storage_def by (auto intro!: exI [of _ c])
    then show "m' (cell_addr m p c + of_nat k) = m (cell_addr m p c + of_nat k)" by (rule assms)
  qed
  have tc: "load64 m' p = load64 m p" "load64 m' (p + 8) = load64 m (p + 8)" using ld [of Table] ld [of Count] by simp_all
  have bp: "block_ptr m' p i = block_ptr m p i" if "i < unat (load64 m (p + 8))" for i
    using ld [of "Ptr i"] that tc(1) by (simp add: block_ptr_def)
  have rb: "read_block m' (block_ptr m p i) = read_block m (block_ptr m p i)" if i: "i < unat (load64 m (p + 8))" for i
  proof -
    have f: "load64 m' (block_ptr m p i) = load64 m (block_ptr m p i)" "load64 m' (block_ptr m p i + 8) = load64 m (block_ptr m p i + 8)"
        "load64 m' (block_ptr m p i + 16) = load64 m (block_ptr m p i + 16)" "load64 m' (block_ptr m p i + 24) = load64 m (block_ptr m p i + 24)"
        "load64 m' (block_ptr m p i + 32) = load64 m (block_ptr m p i + 32)" "load64 m' (block_ptr m p i + 40) = load64 m (block_ptr m p i + 40)"
      using ld [of "Field i 0"] ld [of "Field i 1"] ld [of "Field i 2"] ld [of "Field i 3"] ld [of "Field i 4"] ld [of "Field i 5"] i by simp_all
    have "load64 m' (load64 m (block_ptr m p i + 24) + 8 * of_nat j) = load64 m (load64 m (block_ptr m p i + 24) + 8 * of_nat j)"
      if "j < length (map_words (read_block m (block_ptr m p i)))" for j
      using ld [of "Map_word i j"] i that by simp
    then have "map_words (read_block m' (block_ptr m p i)) = map_words (read_block m (block_ptr m p i))"
      using f(2,4) by (intro nth_equalityI) (auto simp: read_block_def cong: if_cong split: if_splits)
    then show ?thesis using f by (simp add: read_block_def load32_low)
  qed
  show "read_pmm m' p = read_pmm m p" using tc bp rb by (simp add: read_pmm_def)
  show "is_cell m' p c = is_cell m p c" using tc bp rb by (cases c) (simp_all cong: conj_cong)
  have "load64 m' (block_ptr m p i + 24) = load64 m (block_ptr m p i + 24)" if "i < unat (load64 m (p + 8))" for i
    using ld [of "Field i 3"] that by simp
  then show "is_cell m p c \<Longrightarrow> cell_addr m' p c = cell_addr m p c" using tc bp by (cases c) auto
qed

lemma storage_kept:
  assumes "\<And>x. x \<in> storage m p \<Longrightarrow> m' x = m x" and "pmm_apart m p"
  shows "pmm_apart m' p" and "footprint m' p = footprint m p" and "storage m' p = storage m p"
  using storage_spared [where m = m and m' = m', OF assms(1)] assms(2)
  by (auto simp: pmm_apart_def footprint_def storage_def)

lemma footprint_storage: "footprint m p \<subseteq> storage m p"
  by (auto simp: footprint_def storage_def)

section \<open>A concrete image\<close>

text \<open>Memory that holds the given eight-byte values and is zero elsewhere.\<close>

primrec image_of :: "(u64 \<times> u64) list \<Rightarrow> mem" where
  "image_of [] = (\<lambda>_. 0)"
| "image_of (x # xs) = store64 (image_of xs) (fst x) (snd x)"

definition aligned8 :: "u64 \<Rightarrow> bool" where
  "aligned8 a \<longleftrightarrow> unat a mod 8 = 0"

lemma aligned8_apart:
  assumes "aligned8 a" and "aligned8 b" and "a \<noteq> b"
  shows "apart a 8 b 8"
proof -
  obtain k l where kl: "unat a = 8 * k" "unat b = 8 * l"
    using assms(1,2) by (auto simp: aligned8_def mod_eq_0_iff_dvd elim!: dvdE)
  then have "k \<noteq> l" using assms(3) by (auto simp: word_unat_eq_iff)
  have lt: "8 * k < 18446744073709551616" "8 * l < 18446744073709551616"
    using unat_lt_u64 [of a] unat_lt_u64 [of b] unfolding kl .
  show ?thesis
  proof (rule apartI)
    show "unat a + 8 \<le> unat b \<or> unat b + 8 \<le> unat a" unfolding kl using \<open>k \<noteq> l\<close> by linarith
    have "8 * k + 8 \<le> 18446744073709551616" "8 * l + 8 \<le> 18446744073709551616" using lt by simp_all
    then show "unat a + 8 \<le> 2 ^ 64" "unat b + 8 \<le> 2 ^ 64" unfolding kl by simp_all
  qed
qed

lemma load_image:
  assumes "list_all (\<lambda>x. aligned8 (fst x)) xs" and "aligned8 b"
  shows "load64 (image_of xs) b = (case map_of xs b of None \<Rightarrow> 0 | Some v \<Rightarrow> v)"
  using assms(1)
proof (induction xs)
  case Nil
  have "load64 (\<lambda>_. 0) b = 0" by (rule bit_word_eqI) (simp add: bit_simps)
  then show ?case by simp
next
  case (Cons x xs)
  then show ?case using assms(2) aligned8_apart [of "fst x" b]
    by (cases "fst x = b") (auto simp: load_store_same load_store_other)
qed

text \<open>
  A manager of two blocks, the first with a bitmap of one word at 0x8000 and the second without one; the other structures
  follow from 0x8100 on, in the same frame.
\<close>

fun pm_type_code :: "pm_type \<Rightarrow> u64" where
  "pm_type_code PM_USABLE = 0" | "pm_type_code PM_RECLAIMABLE = 1" | "pm_type_code PM_ACPI_RECLAIM = 2" | "pm_type_code PM_ACPI_NVS = 3"
| "pm_type_code PM_FIRMWARE = 4" | "pm_type_code PM_MMIO = 5" | "pm_type_code PM_RESERVED = 6"

definition two_cells :: "pm_block \<Rightarrow> pm_block \<Rightarrow> (u64 \<times> u64) list" where
  "two_cells b c = [(0x8100, 0x8110), (0x8108, 2), (0x8110, 0x8120), (0x8118, 0x8150),
     (0x8120, address b), (0x8128, frames_total b), (0x8130, frames_free b), (0x8138, 0x8000), (0x8140, pm_type_code (btype b)),
     (0x8148, attributes b), (0x8150, address c), (0x8158, frames_total c), (0x8160, frames_free c), (0x8168, 0),
     (0x8170, pm_type_code (btype c)), (0x8178, attributes c), (0x8000, hd (map_words b))]"

definition two_image :: "pm_block \<Rightarrow> pm_block \<Rightarrow> mem" where
  "two_image b c = image_of (two_cells b c)"

definition two_blocks :: "pm_block \<Rightarrow> pm_block \<Rightarrow> bool" where
  "two_blocks b c \<longleftrightarrow> map_ptr b = 0x8000 \<and> length (map_words b) = 1 \<and> frame_map_size (frames_total b) = 1 \<and>
     map_ptr c = 0 \<and> map_words c = []"

lemma two_load: "aligned8 a \<Longrightarrow> load64 (two_image b c) a = (case map_of (two_cells b c) a of None \<Rightarrow> 0 | Some v \<Rightarrow> v)"
  unfolding two_image_def by (rule load_image) (simp add: two_cells_def aligned8_def)

lemma two_loads:
  "load64 (two_image b c) 0x8100 = 0x8110" "load64 (two_image b c) 0x8108 = 2" "load64 (two_image b c) 0x8110 = 0x8120"
  "load64 (two_image b c) 0x8118 = 0x8150" "load64 (two_image b c) 0x8120 = address b" "load64 (two_image b c) 0x8128 = frames_total b"
  "load64 (two_image b c) 0x8130 = frames_free b" "load64 (two_image b c) 0x8138 = 0x8000"
  "load64 (two_image b c) 0x8140 = pm_type_code (btype b)" "load64 (two_image b c) 0x8148 = attributes b"
  "load64 (two_image b c) 0x8150 = address c" "load64 (two_image b c) 0x8158 = frames_total c"
  "load64 (two_image b c) 0x8160 = frames_free c" "load64 (two_image b c) 0x8168 = 0"
  "load64 (two_image b c) 0x8170 = pm_type_code (btype c)" "load64 (two_image b c) 0x8178 = attributes c"
  "load64 (two_image b c) 0x8000 = hd (map_words b)"
  by (simp_all add: two_load aligned8_def two_cells_def)

lemma two_block_ptr: "block_ptr (two_image b c) 0x8100 0 = 0x8120" "block_ptr (two_image b c) 0x8100 (Suc 0) = 0x8150"
  by (simp_all add: block_ptr_def two_loads)

lemma pm_type_of_code: "pm_type_of (ucast (pm_type_code t)) = t"
  by (cases t) (simp_all add: pm_type_of_def)

lemma two_read_blocks:
  assumes "two_blocks b c"
  shows "read_block (two_image b c) 0x8120 = b" and "read_block (two_image b c) 0x8150 = c"
proof -
  obtain w where "map_words b = [w]" using assms by (auto simp: two_blocks_def length_Suc_conv)
  then show "read_block (two_image b c) 0x8120 = b" "read_block (two_image b c) 0x8150 = c"
    using assms by (simp_all add: read_block_def two_loads load32_low pm_type_of_code two_blocks_def)
qed

lemma two_read: "two_blocks b c \<Longrightarrow> read_pmm (two_image b c) 0x8100 = \<lparr>blocks = [b, c], block_count = 2\<rparr>"
  by (simp add: read_pmm_def two_loads two_block_ptr two_read_blocks upt_rec [of 0] upt_rec [of "Suc 0"])

definition two_cell_list :: "cell list" where
  "two_cell_list = [Table, Count, Ptr 0, Ptr 1] @ map (Field 0) [0, 1, 2, 3, 4, 5] @ map (Field 1) [0, 1, 2, 3, 4, 5] @ [Map_word 0 0]"

lemma two_is_cell:
  assumes "two_blocks b c" and "is_cell (two_image b c) 0x8100 d"
  shows "d \<in> set two_cell_list"
proof -
  have i: "i < 2 \<longleftrightarrow> i = 0 \<or> i = Suc 0" and k: "k < 6 \<longleftrightarrow> k = 0 \<or> k = 1 \<or> k = 2 \<or> k = 3 \<or> k = 4 \<or> k = 5" for i k :: nat
    by auto
  have l: "length (map_words b) = 1" "map_words c = []" using assms(1) by (simp_all add: two_blocks_def)
  show ?thesis using assms(2) l two_read_blocks [OF assms(1)]
    by (cases d) (auto simp: two_cell_list_def two_loads i k two_block_ptr)
qed

lemma two_cell_addrs: "map (cell_addr (two_image b c) 0x8100) two_cell_list = map fst (two_cells b c)"
  by (simp add: two_cells_def two_cell_list_def two_loads two_block_ptr)

lemma two_apart:
  assumes "two_blocks b c"
  shows "pmm_apart (two_image b c) 0x8100"
proof -
  let ?a = "cell_addr (two_image b c) 0x8100"
  have "distinct (map fst (two_cells b c))" "list_all aligned8 (map fst (two_cells b c))"
    by (simp_all add: two_cells_def aligned8_def)
  then have d: "distinct (map ?a two_cell_list)" and al: "\<forall>d \<in> set two_cell_list. aligned8 (?a d)"
    unfolding two_cell_addrs [symmetric] by (simp_all only: list_all_iff list.set_map ball_simps)
  have "apart (?a d) 8 (?a e) 8" if "is_cell (two_image b c) 0x8100 d" "is_cell (two_image b c) 0x8100 e" "d \<noteq> e" for d e
  proof -
    note de = two_is_cell [OF assms that(1)] two_is_cell [OF assms that(2)]
    have "?a d \<noteq> ?a e" using inj_onD [of ?a "set two_cell_list" d e] d de that(3) by (auto simp only: distinct_map)
    then show ?thesis using al de by (intro aligned8_apart) blast+
  qed
  then show ?thesis by (auto simp: pmm_apart_def)
qed

lemma two_storage:
  assumes "two_blocks b c" and "x \<in> storage (two_image b c) 0x8100"
  shows "0x8000 \<le> unat x \<and> unat x < 0x9000"
proof -
  obtain d where d: "is_cell (two_image b c) 0x8100 d" "unat (x - cell_addr (two_image b c) 0x8100 d) < 8"
    using assms(2) by (auto simp: storage_def)
  let ?a = "cell_addr (two_image b c) 0x8100 d"
  have "?a \<in> set (map fst (two_cells b c))" unfolding two_cell_addrs [symmetric] using two_is_cell [OF assms(1) d(1)] by simp
  then have a: "0x8000 \<le> unat ?a \<and> unat ?a \<le> 0x8178" by (auto simp: two_cells_def)
  have "unat (?a + (x - ?a)) = unat ?a + unat (x - ?a)" using a d(2) by (intro unat_add_nowrap) auto
  then show ?thesis using a d(2) by simp
qed

lemma demo_two: "two_blocks demo_block demo_mmio"
  by (simp add: two_blocks_def demo_block_def demo_mmio_def frame_map_size_def)

abbreviation demo_image :: mem where
  "demo_image \<equiv> two_image demo_block demo_mmio"

lemma demo_read: "read_pmm demo_image 0x8100 = demo_pmm"
  by (simp add: two_read [OF demo_two] demo_pmm_def)

section \<open>Properties\<close>

text \<open>
  C6: on memory whose structures do not overlap and stand for a well-formed manager, the three operations that follow
  the pointers return what the operations on that manager return, for every count and every address, leave structures
  that stand for the manager those yield, again well-formed and without overlap, and store no byte outside the
  \<^verbatim>\<open>frames_free\<close> fields and the bitmaps.
\<close>

theorem allocator_in_memory_refines:
  assumes "pmm_apart m p" and "pmm_ok (read_pmm m p)"
  shows "(\<exists>a m'. frame_allocate_mem m p = Some (a, m') \<and> frame_allocate (read_pmm m p) = Some (a, read_pmm m' p) \<and>
      pmm_apart m' p \<and> pmm_ok (read_pmm m' p) \<and> (\<forall>x. x \<notin> footprint m p \<longrightarrow> m' x = m x)) \<and>
    (\<exists>a m'. frames_allocate_mem m p count = Some (a, m') \<and> frames_allocate (read_pmm m p) count = Some (a, read_pmm m' p) \<and>
      pmm_apart m' p \<and> pmm_ok (read_pmm m' p) \<and> (\<forall>x. x \<notin> footprint m p \<longrightarrow> m' x = m x)) \<and>
    (\<exists>m'. frame_free_mem m p addr = Some m' \<and> frame_free (read_pmm m p) addr = Some (read_pmm m' p) \<and>
      pmm_apart m' p \<and> pmm_ok (read_pmm m' p) \<and> (\<forall>x. x \<notin> footprint m p \<longrightarrow> m' x = m x))"
proof (intro conjI)
  obtain a pm' where a: "frame_allocate (read_pmm m p) = Some (a, pm')" "pmm_ok pm'"
    using pm.alloc_total [OF assms(2)] by metis
  from frame_allocate_refines [OF assms(1) a(1)]
  show "\<exists>a m'. frame_allocate_mem m p = Some (a, m') \<and> frame_allocate (read_pmm m p) = Some (a, read_pmm m' p) \<and>
      pmm_apart m' p \<and> pmm_ok (read_pmm m' p) \<and> (\<forall>x. x \<notin> footprint m p \<longrightarrow> m' x = m x)"
    using a by (auto simp: updates_def)
  obtain a pm' where a: "frames_allocate (read_pmm m p) count = Some (a, pm')" "pmm_ok pm'"
    using pm.run_some [OF assms(2), of count] pm.run_none [OF assms(2), of count] assms(2) by metis
  from frames_allocate_refines [OF assms(1) a(1)]
  show "\<exists>a m'. frames_allocate_mem m p count = Some (a, m') \<and> frames_allocate (read_pmm m p) count = Some (a, read_pmm m' p) \<and>
      pmm_apart m' p \<and> pmm_ok (read_pmm m' p) \<and> (\<forall>x. x \<notin> footprint m p \<longrightarrow> m' x = m x)"
    using a by (auto simp: updates_def)
  obtain pm' where f: "frame_free (read_pmm m p) addr = Some pm'" "pmm_ok pm'"
    using frame_free_any [OF assms(2)] by blast
  from frame_free_refines [OF assms(1) f(1)]
  show "\<exists>m'. frame_free_mem m p addr = Some m' \<and> frame_free (read_pmm m p) addr = Some (read_pmm m' p) \<and>
      pmm_apart m' p \<and> pmm_ok (read_pmm m' p) \<and> (\<forall>x. x \<notin> footprint m p \<longrightarrow> m' x = m x)"
    using f by (auto simp: updates_def)
qed

theorem allocator_in_memory_refines_witness:
  "\<exists>a m'. frame_allocate_mem demo_image 0x8100 = Some (a, m') \<and> frame_allocate demo_pmm = Some (a, read_pmm m' 0x8100)"
proof -
  have "pmm_ok (read_pmm demo_image 0x8100)" using demo_ok demo_read by simp
  from allocator_in_memory_refines [OF two_apart [OF demo_two] this] show ?thesis unfolding demo_read by blast
qed

end
