(* ===== verification/Paging_Mem.thy ===== *)
theory Paging_Mem
  imports Paging_Props Physical_Mem
begin

text \<open>
  Page tables and frame allocator in one memory. \<^verbatim>\<open>Paging\<close> carries the allocator's manager beside the memory with the
  tables; here the functions of \<^verbatim>\<open>kernel/memory/paging.c\<close> take the pointer to the manager, as in the code, and every load and
  store goes to the same memory. As long as the manager's structures lie in frames \<open>R\<close> that are set aside, building
  tables does not disturb them and allocating frames does not disturb the tables: both models agree, call by call.
\<close>

section \<open>Operations\<close>

definition alloc_table_mem :: "mem \<Rightarrow> u64 \<Rightarrow> (u64 \<times> mem) option" where
  "alloc_table_mem m p = do {
     (frame, m) \<leftarrow> frame_allocate_mem m p;
     if frame = 0xFFFFFFFFFFFFFFFF then Some (0, m)
     else do {
       let (table, m) = memset m frame 0 frame_size;
       Some (table, m)
     }
   }"

definition next_table_mem :: "mem \<Rightarrow> u64 \<Rightarrow> u64 \<Rightarrow> u16 \<Rightarrow> u64 \<Rightarrow> (u64 \<times> mem) option" where
  "next_table_mem m p table index flags =
     (if load64 m (slot table index) AND PRESENT_BIT = 0
      then do {
        (next_tbl, m) \<leftarrow> alloc_table_mem m p;
        if next_tbl = 0 then Some (0, m)
        else Some (next_tbl,
          store64 m (slot table index)
            (next_tbl OR PRESENT_BIT OR READ_WRITE_BIT OR (flags AND USER_SUPERVISOR_BIT)))
      }
      else if load64 m (slot table index) AND PAGE_SIZE_BIT \<noteq> 0 then Some (0, m)
      else do {
        let m = store64 m (slot table index)
          (load64 m (slot table index) OR (flags AND USER_SUPERVISOR_BIT));
        Some (load64 m (slot table index) AND PHYS_ADDR_MASK, m)
      })"

definition init_pml4_mem :: "mem \<Rightarrow> u64 \<Rightarrow> (u64 \<times> mem) option" where
  "init_pml4_mem m p = alloc_table_mem m p"

definition map_page_mem :: "mem \<Rightarrow> u64 \<Rightarrow> u64 \<Rightarrow> u64 \<Rightarrow> u64 \<Rightarrow> u64 \<Rightarrow> (int \<times> mem) option" where
  "map_page_mem m p pml4 vaddr paddr flags = do {
     (pdp, m) \<leftarrow> next_table_mem m p pml4 (index4 vaddr) flags;
     if pdp = 0 then Some (- 1, m) else do {
     (pd, m) \<leftarrow> next_table_mem m p pdp (index3 vaddr) flags;
     if pd = 0 then Some (- 1, m) else do {
     let pde = load64 m (slot pd (index2 vaddr));
     if pde AND PRESENT_BIT \<noteq> 0 \<and> pde AND PAGE_SIZE_BIT \<noteq> 0
     then do {
       let mapped = (pde AND PHYS_ADDR_MASK AND NOT (large_page_size - 1)) +
         (vaddr AND (large_page_size - 1));
       Some (if mapped = paddr AND PHYS_ADDR_MASK then 0 else - 1, m)
     }
     else do {
     (pt, m) \<leftarrow> next_table_mem m p pd (index2 vaddr) flags;
     if pt = 0 then Some (- 1, m)
     else Some (0, store64 m (slot pt (index1 vaddr)) (init_pt_entry paddr (flags OR PRESENT_BIT)))
   }}}}"

definition map_large_page_mem :: "mem \<Rightarrow> u64 \<Rightarrow> u64 \<Rightarrow> u64 \<Rightarrow> u64 \<Rightarrow> u64 \<Rightarrow> (int \<times> mem) option" where
  "map_large_page_mem m p pml4 vaddr paddr flags = do {
     (pdp, m) \<leftarrow> next_table_mem m p pml4 (index4 vaddr) flags;
     if pdp = 0 then Some (- 1, m) else do {
     (pd, m) \<leftarrow> next_table_mem m p pdp (index3 vaddr) flags;
     if pd = 0 then Some (- 1, m) else do {
     let pde = load64 m (slot pd (index2 vaddr));
     if pde AND PRESENT_BIT \<noteq> 0 \<and> pde AND PAGE_SIZE_BIT = 0 then Some (- 1, m)
     else Some (0,
       store64 m (slot pd (index2 vaddr))
         ((paddr AND PHYS_ADDR_MASK) OR flags OR PRESENT_BIT OR PAGE_SIZE_BIT))
   }}}"

partial_function (option) map_range_loop_mem ::
  "mem \<Rightarrow> u64 \<Rightarrow> u64 \<Rightarrow> u64 \<Rightarrow> u64 \<Rightarrow> u64 \<Rightarrow> u64 \<Rightarrow> (int \<times> mem) option" where
  "map_range_loop_mem m p pml4 vaddr paddr stop flags =
     (if vaddr < stop
      then do {
        (large, m) \<leftarrow>
          (if vaddr AND (large_page_size - 1) = 0 \<and> paddr AND (large_page_size - 1) = 0 \<and>
              stop - vaddr \<ge> large_page_size
           then map_large_page_mem m p pml4 vaddr paddr flags
           else Some (- 1, m));
        if large = 0
        then map_range_loop_mem m p pml4 (vaddr + large_page_size) (paddr + large_page_size) stop flags
        else do {
          (r, m) \<leftarrow> map_page_mem m p pml4 vaddr paddr flags;
          if r \<noteq> 0 then Some (- 1, m)
          else map_range_loop_mem m p pml4 (vaddr + page_size) (paddr + page_size) stop flags
        }
      }
      else Some (0, m))"

definition map_range_mem :: "mem \<Rightarrow> u64 \<Rightarrow> u64 \<Rightarrow> u64 \<Rightarrow> u64 \<Rightarrow> u64 \<Rightarrow> u64 \<Rightarrow> (int \<times> mem) option" where
  "map_range_mem m p pml4 vaddr paddr len flags =
     map_range_loop_mem m p pml4 (vaddr AND NOT (page_size - 1)) (paddr AND NOT (page_size - 1))
       (vaddr + len) flags"

section \<open>Agreement of the two models\<close>

text \<open>The bytes of a set of frames.\<close>

definition frames_bytes :: "u64 set \<Rightarrow> u64 set" where
  "frames_bytes R = {x. \<exists>f \<in> R. unat f \<le> unat x \<and> unat x < unat f + 4096}"

text \<open>
  The memory \<open>s\<close> of the machine stands for the manager \<open>pm\<close> and the memory \<open>m\<close> with the tables: the structures at \<open>p\<close> lie in
  the frames \<open>R\<close>, stand for \<open>pm\<close>, and elsewhere \<open>s\<close> is \<open>m\<close>.
\<close>

definition agrees :: "u64 set \<Rightarrow> u64 \<Rightarrow> pmm \<Rightarrow> mem \<Rightarrow> mem \<Rightarrow> bool" where
  "agrees R p pm m s \<longleftrightarrow> pmm_apart s p \<and> read_pmm s p = pm \<and> storage s p \<subseteq> frames_bytes R \<and>
     (\<forall>x. x \<notin> footprint s p \<longrightarrow> s x = m x)"

lemma agrees_start: "pmm_apart m p \<Longrightarrow> storage m p \<subseteq> frames_bytes R \<Longrightarrow> agrees R p (read_pmm m p) m m"
  by (simp add: agrees_def)

lemma agrees_alloc:
  assumes "agrees R p pm m s" and "frame_allocate pm = Some (a, pm')"
  shows "\<exists>s'. frame_allocate_mem s p = Some (a, s') \<and> agrees R p pm' m s'"
proof -
  obtain s' where "frame_allocate_mem s p = Some (a, s')" "updates p s s' pm'"
    using frame_allocate_refines [of s p a pm'] assms by (auto simp: agrees_def)
  then show ?thesis using assms(1) by (auto simp: agrees_def updates_def)
qed

text \<open>Bytes of a frame that is not set aside: both memories have the same, and may be changed in the same way.\<close>

lemma outside_frames:
  assumes "unat t mod 4096 = 0" and "t \<notin> R" and "\<forall>f \<in> R. unat f mod 4096 = 0" and "unat t \<le> unat x" and "unat x < unat t + 4096"
  shows "x \<notin> frames_bytes R"
proof
  assume "x \<in> frames_bytes R"
  then obtain f where f: "f \<in> R" "unat f \<le> unat x" "unat x < unat f + 4096" by (auto simp: frames_bytes_def)
  then have "unat t \<noteq> unat f" using assms(2) by (metis word_unat_eq_iff)
  then show False using frames_differ [OF assms(1) bspec [OF assms(3) f(1)]] f assms(4,5) by linarith
qed

lemma agrees_change:
  assumes "agrees R p pm m s" and "unat t mod 4096 = 0" and "t \<notin> R" and "\<forall>f \<in> R. unat f mod 4096 = 0"
    and "\<And>x. s' x \<noteq> s x \<or> m' x \<noteq> m x \<Longrightarrow> unat t \<le> unat x \<and> unat x < unat t + 4096"
    and "\<And>x. s x = m x \<Longrightarrow> s' x = m' x"
  shows "agrees R p pm m' s'"
proof -
  note a = assms(1) [unfolded agrees_def]
  have "s' x = s x" if "x \<in> storage s p" for x
    using assms(5) [of x] outside_frames [OF assms(2-4), of x] a that by blast
  note sp = storage_spared(1) [of s p s', OF this] storage_kept [of s p s', OF this]
  have "s' x = m' x" if "x \<notin> footprint s p" for x using a assms(6) [of x] that by blast
  then show ?thesis using a sp by (simp add: agrees_def)
qed

lemma agrees_load:
  assumes "agrees R p pm m s" and "unat t mod 4096 = 0" and "t \<notin> R" and "\<forall>f \<in> R. unat f mod 4096 = 0"
    and "unat t \<le> unat a" and "unat a + n \<le> unat t + 4096"
  shows "load_le s a n = load_le m a n"
proof (rule load_le_cong)
  fix k :: nat assume k: "k < n"
  have "unat (a + of_nat k) = unat a + k" using assms(6) frame_top [OF assms(2)] k by (intro unat_add_of_nat) simp
  then have "a + of_nat k \<notin> frames_bytes R" using assms(5,6) k by (intro outside_frames [OF assms(2-4)]) simp_all
  then have "a + of_nat k \<notin> footprint s p" using assms(1) footprint_storage [of s p] by (auto simp: agrees_def)
  then show "s (a + of_nat k) = m (a + of_nat k)" using assms(1) by (simp add: agrees_def)
qed

lemma agrees_entry:
  assumes "agrees R p pm m s" and "unat t mod 4096 = 0" and "t \<notin> R" and "\<forall>f \<in> R. unat f mod 4096 = 0"
  shows "entry s t i = entry m t i"
  unfolding entry_def
  using unat_slot [OF assms(2), of i] pidx_bound [of i] by (intro agrees_load [OF assms]) simp_all

lemma agrees_store:
  assumes "agrees R p pm m s" and "unat t mod 4096 = 0" and "t \<notin> R" and "\<forall>f \<in> R. unat f mod 4096 = 0"
    and "unat t \<le> unat a" and "unat a + n \<le> unat t + 4096"
  shows "agrees R p pm (store_le m a n v) (store_le s a n v)"
proof (rule agrees_change [OF assms(1-4)])
  fix x assume "store_le s a n v x \<noteq> s x \<or> store_le m a n v x \<noteq> m x"
  moreover have "unat a + n \<le> 2 ^ 64" using assms(6) frame_top [OF assms(2)] by simp
  ultimately have "unat a \<le> unat x \<and> unat x < unat a + n" using store_le_outside by blast
  then show "unat t \<le> unat x \<and> unat x < unat t + 4096" using assms(5,6) by linarith
qed (simp add: store_le_def)

lemma agrees_set:
  assumes "agrees R p pm m s" and "unat t mod 4096 = 0" and "t \<notin> R" and "\<forall>f \<in> R. unat f mod 4096 = 0"
  shows "agrees R p pm (set_entry m t i e) (set_entry s t i e)"
  unfolding set_entry_def
  using unat_slot [OF assms(2), of i] pidx_bound [of i] by (intro agrees_store [OF assms]) simp_all

lemma agrees_fill:
  assumes "agrees R p pm m s" and "unat t mod 4096 = 0" and "t \<notin> R" and "\<forall>f \<in> R. unat f mod 4096 = 0"
  shows "agrees R p pm (fill m t 4096 c) (fill s t 4096 c)"
  by (rule agrees_change [OF assms]) (use fill_bytes [OF assms(2)] in \<open>auto simp: fill_def\<close>)

text \<open>The processor sees the same in both.\<close>

lemma agrees_pt_ok:
  assumes "agrees R p pm m s" and "pt_ok R pm m root"
  shows "pt_ok R pm s root" and "same_walk m s root"
proof -
  note ok = assms(2) [unfolded pt_ok_def]
  have e: "entry s t i = entry m t i" if "table_at m root q = Some t" "length q \<le> 3" for q t i
    using tables_okD [of "pmm_free pm \<union> R" m root q t] that ok by (intro agrees_entry [OF assms(1)]) auto
  have t: "table_at s root q = table_at m root q" if "length q \<le> 3" for q
  proof (rule table_at_cong)
    fix r j t assume "prefix (r @ [j]) q" "table_at m root r = Some t"
    then show "nav (entry s t j) = nav (entry m t j)" using e [of r t j] that prefix_length_le [of "r @ [j]" q] by simp
  qed
  have "tables_ok (pmm_free pm \<union> R) s root" using ok t by (simp add: tables_ok_def)
  moreover have "root_ok s root" using ok e [of "[]" root] by (simp add: root_ok_def)
  ultimately show "pt_ok R pm s root" using ok by (simp add: pt_ok_def)
  have "leaf s root va = leaf m root va" for va by (rule leaf_cong) (use e in simp)
  then show "same_walk m s root" by (simp add: same_walk_def)
qed

section \<open>Calls agree\<close>

lemma alloc_table_agrees:
  assumes "agrees R p pm m s" and "pmm_ok pm" and "set_aside R pm"
  shows "\<exists>t pm' m' s'. alloc_table pm m = Some (t, pm', m') \<and> alloc_table_mem s p = Some (t, s') \<and> agrees R p pm' m' s'"
proof -
  have ok: "pmm_ok pm" "R \<inter> pmm_free pm = {}" "\<forall>f \<in> R. unat f mod 4096 = 0" using assms(2,3) by (simp_all add: set_aside_def)
  obtain f pm' where f: "frame_allocate pm = Some (f, pm')" "f \<noteq> NO_FRAME \<Longrightarrow> f \<in> pmm_free pm"
    using pm.alloc_total [OF ok(1)] by metis
  obtain s1 where s1: "frame_allocate_mem s p = Some (f, s1)" "agrees R p pm' m s1" using agrees_alloc [OF assms(1) f(1)] by blast
  show ?thesis
  proof (cases "f = NO_FRAME")
    case True
    then show ?thesis using f(1) s1 by (simp add: alloc_table_def alloc_table_mem_def)
  next
    case False
    then have "unat f mod 4096 = 0" "f \<notin> R"
      using f(2) ok(2) pmm_managed_bounds(1) [OF ok(1)] pmm_free_managed by blast+
    from agrees_fill [OF s1(2) this ok(3), of 0] show ?thesis
      using False f(1) s1(1) by (simp add: alloc_table_def alloc_table_mem_def memset_fill)
  qed
qed

lemma next_table_agrees:
  assumes "agrees R p pm m s" and "pt_ok R pm m root" and "table_at m root q = Some t" and "length q \<le> 2"
  shows "\<exists>t' pm' m' s'. next_table pm m t (ucast i) flags = Some (t', pm', m') \<and>
    next_table_mem s p t (ucast i) flags = Some (t', s') \<and> agrees R p pm' m' s' \<and> pt_ok R pm' m' root \<and>
    (t' \<noteq> 0 \<longrightarrow> table_at m' root (q @ [i]) = Some t')"
proof -
  have ok: "tables_ok (pmm_free pm \<union> R) m root" "\<forall>f \<in> R. unat f mod 4096 = 0" using assms(2) by (simp_all add: pt_ok_def)
  have t: "unat t mod 4096 = 0" "t \<notin> R" using tables_okD [OF ok(1) assms(3)] assms(4) by auto
  have e: "entry s t i = entry m t i" by (rule agrees_entry [OF assms(1) t ok(2)])
  obtain t' pm' m' where n: "next_table pm m t (ucast i) flags = Some (t', pm', m')"
      "next_table_post R pm m root q t i (t', pm', m')"
    using next_table_spec [OF assms(2-4), of i flags] by auto
  note post = next_table_postE(1,5) [OF n(2)]
  have "\<exists>s'. next_table_mem s p t (ucast i) flags = Some (t', s') \<and> agrees R p pm' m' s'"
  proof (cases "entry m t i AND PRESENT_BIT = 0")
    case True
    obtain f pm1 m1 s1 where a: "alloc_table pm m = Some (f, pm1, m1)" "alloc_table_mem s p = Some (f, s1)" "agrees R p pm1 m1 s1"
      using alloc_table_agrees [OF assms(1)] assms(2) by (fastforce simp: pt_ok_def set_aside_def)
    show ?thesis using n(1) True a agrees_set [OF a(3) t ok(2)] e
      by (cases "f = 0") (auto simp: next_table_def next_table_mem_def load_slot store_slot)
  next
    case False
    show ?thesis using n(1) False assms(1) agrees_set [OF assms(1) t ok(2)] e
      by (cases "entry m t i AND PAGE_SIZE_BIT = 0")
        (auto simp: next_table_def next_table_mem_def load_slot store_slot entry_set_same Let_def)
  qed
  then show ?thesis using n(1) post by blast
qed

lemma upper_agrees:
  assumes "agrees R p pm m s" and "pt_ok R pm m root"
  obtains (fail4) pm1 m1 s1 where "next_table pm m root (index4 va) flags = Some (0, pm1, m1)"
      and "next_table_mem s p root (index4 va) flags = Some (0, s1)" and "agrees R p pm1 m1 s1"
  | (fail3) pdp pm1 m1 s1 pm2 m2 s2 where "next_table pm m root (index4 va) flags = Some (pdp, pm1, m1)" and "pdp \<noteq> 0"
      and "next_table_mem s p root (index4 va) flags = Some (pdp, s1)"
      and "next_table pm1 m1 pdp (index3 va) flags = Some (0, pm2, m2)"
      and "next_table_mem s1 p pdp (index3 va) flags = Some (0, s2)" and "agrees R p pm2 m2 s2"
  | (found) pdp pd pm1 m1 s1 pm2 m2 s2 where "next_table pm m root (index4 va) flags = Some (pdp, pm1, m1)" and "pdp \<noteq> 0"
      and "next_table_mem s p root (index4 va) flags = Some (pdp, s1)"
      and "next_table pm1 m1 pdp (index3 va) flags = Some (pd, pm2, m2)" and "pd \<noteq> 0"
      and "next_table_mem s1 p pdp (index3 va) flags = Some (pd, s2)" and "agrees R p pm2 m2 s2"
      and "pt_ok R pm2 m2 root" and "table_at m2 root (take 2 (vpath va)) = Some pd"
proof -
  have take2: "take 2 (vpath va) = [vpath va ! 0] @ [vpath va ! 1]" by (simp add: vpath_def)
  have "table_at m root [] = Some root" by simp
  from next_table_agrees [OF assms this, of "vpath va ! 0" flags] obtain pdp pm1 m1 s1 where
    1: "next_table pm m root (index4 va) flags = Some (pdp, pm1, m1)" "next_table_mem s p root (index4 va) flags = Some (pdp, s1)"
      "agrees R p pm1 m1 s1" "pt_ok R pm1 m1 root" "pdp \<noteq> 0 \<longrightarrow> table_at m1 root [vpath va ! 0] = Some pdp"
    unfolding index_vpath by force
  show ?thesis
  proof (cases "pdp = 0")
    case True
    then show ?thesis using fail4 1 by blast
  next
    case False
    from next_table_agrees [OF 1(3,4) mp [OF 1(5) False], of "vpath va ! 1" flags] obtain pd pm2 m2 s2 where
      2: "next_table pm1 m1 pdp (index3 va) flags = Some (pd, pm2, m2)" "next_table_mem s1 p pdp (index3 va) flags = Some (pd, s2)"
        "agrees R p pm2 m2 s2" "pt_ok R pm2 m2 root" "pd \<noteq> 0 \<longrightarrow> table_at m2 root (take 2 (vpath va)) = Some pd"
      unfolding index_vpath take2 by force
    show ?thesis using fail3 found False 1 2 by (cases "pd = 0") blast+
  qed
qed

lemma slot_agrees:
  assumes "agrees R p pm m s" and "pt_ok R pm m root" and "table_at m root q = Some t" and "length q \<le> 3"
  shows "load64 s (slot t (ucast i)) = load64 m (slot t (ucast (i :: pidx)))"
    and "agrees R p pm (store64 m (slot t (ucast i)) e) (store64 s (slot t (ucast i)) e)"
proof -
  have ok: "tables_ok (pmm_free pm \<union> R) m root" "\<forall>f \<in> R. unat f mod 4096 = 0" using assms(2) by (simp_all add: pt_ok_def)
  have t: "unat t mod 4096 = 0" "t \<notin> R" using tables_okD [OF ok(1) assms(3)] assms(4) by auto
  show "load64 s (slot t (ucast i)) = load64 m (slot t (ucast i))"
    unfolding load_slot by (rule agrees_entry [OF assms(1) t ok(2)])
  show "agrees R p pm (store64 m (slot t (ucast i)) e) (store64 s (slot t (ucast i)) e)"
    unfolding store_slot by (rule agrees_set [OF assms(1) t ok(2)])
qed

lemma map_page_agrees:
  assumes "agrees R p pm m s" and "pt_ok R pm m root"
  shows "\<exists>r pm' m' s'. map_page pm m root va pa flags = Some (r, pm', m') \<and>
    map_page_mem s p root va pa flags = Some (r, s') \<and> agrees R p pm' m' s' \<and> pt_ok R pm' m' root"
proof -
  have ok: "map_page pm m root va pa flags = Some (r, pm', m') \<Longrightarrow> pt_ok R pm' m' root" for r pm' m'
    using map_page_spec [OF assms(2), of va pa flags] by (auto simp: map_page_post_def)
  have "\<exists>r pm' m' s'. map_page pm m root va pa flags = Some (r, pm', m') \<and>
    map_page_mem s p root va pa flags = Some (r, s') \<and> agrees R p pm' m' s'"
    using assms
  proof (cases rule: upper_agrees [where va = va and flags = flags])
    case (fail4 pm1 m1 s1)
    then show ?thesis by (simp add: map_page_def map_page_mem_def)
  next
    case (fail3 pdp pm1 m1 s1 pm2 m2 s2)
    then show ?thesis by (simp add: map_page_def map_page_mem_def)
  next
    case (found pdp pd pm1 m1 s1 pm2 m2 s2)
    have ld: "load64 s2 (slot pd (index2 va)) = load64 m2 (slot pd (index2 va))"
      unfolding index_vpath by (rule slot_agrees(1) [OF found(7-9)]) simp
    let ?e = "load64 m2 (slot pd (index2 va))"
    show ?thesis
    proof (cases "?e AND PRESENT_BIT \<noteq> 0 \<and> ?e AND PAGE_SIZE_BIT \<noteq> 0")
      case True
      then show ?thesis using found by (simp add: map_page_def map_page_mem_def ld Let_def)
    next
      case False
      obtain pt pm3 m3 s3 where 3: "next_table pm2 m2 pd (index2 va) flags = Some (pt, pm3, m3)"
          "next_table_mem s2 p pd (index2 va) flags = Some (pt, s3)" "agrees R p pm3 m3 s3" "pt_ok R pm3 m3 root"
          "pt \<noteq> 0 \<longrightarrow> table_at m3 root (take 3 (vpath va)) = Some pt"
        using next_table_agrees [OF found(7-9), of "vpath va ! 2" flags] unfolding index_vpath take3_vpath by force
      show ?thesis
      proof (cases "pt = 0")
        case True
        then show ?thesis using found False 3 by (auto simp: map_page_def map_page_mem_def ld Let_def)
      next
        case nz: False
        have "agrees R p pm3 (store64 m3 (slot pt (index1 va)) e) (store64 s3 (slot pt (index1 va)) e)" for e
          unfolding index_vpath by (rule slot_agrees(2) [OF 3(3,4) mp [OF 3(5) nz]]) simp
        then show ?thesis using found False 3 nz by (auto simp: map_page_def map_page_mem_def ld Let_def)
      qed
    qed
  qed
  then show ?thesis using ok by blast
qed

lemma map_large_page_agrees:
  assumes "agrees R p pm m s" and "pt_ok R pm m root"
  shows "\<exists>r pm' m' s'. map_large_page pm m root va pa flags = Some (r, pm', m') \<and>
    map_large_page_mem s p root va pa flags = Some (r, s') \<and> agrees R p pm' m' s' \<and> pt_ok R pm' m' root"
proof -
  have ok: "map_large_page pm m root va pa flags = Some (r, pm', m') \<Longrightarrow> pt_ok R pm' m' root" for r pm' m'
    using map_large_page_spec [OF assms(2), of va pa flags] by (auto simp: map_large_page_post_def)
  have "\<exists>r pm' m' s'. map_large_page pm m root va pa flags = Some (r, pm', m') \<and>
    map_large_page_mem s p root va pa flags = Some (r, s') \<and> agrees R p pm' m' s'"
    using assms
  proof (cases rule: upper_agrees [where va = va and flags = flags])
    case (fail4 pm1 m1 s1)
    then show ?thesis by (simp add: map_large_page_def map_large_page_mem_def)
  next
    case (fail3 pdp pm1 m1 s1 pm2 m2 s2)
    then show ?thesis by (simp add: map_large_page_def map_large_page_mem_def)
  next
    case (found pdp pd pm1 m1 s1 pm2 m2 s2)
    have ld: "load64 s2 (slot pd (index2 va)) = load64 m2 (slot pd (index2 va))"
      and st: "agrees R p pm2 (store64 m2 (slot pd (index2 va)) e) (store64 s2 (slot pd (index2 va)) e)" for e
      unfolding index_vpath by (rule slot_agrees [OF found(7-9)], simp)+
    show ?thesis using found(1-7) st by (simp add: map_large_page_def map_large_page_mem_def ld Let_def)
  qed
  then show ?thesis using ok by blast
qed

lemma large_try_agrees:
  assumes "agrees R p pm m s" and "pt_ok R pm m root"
  shows "\<exists>l pm' m' s'. (if c then map_large_page pm m root va pa flags else Some (- 1, pm, m)) = Some (l, pm', m') \<and>
    (if c then map_large_page_mem s p root va pa flags else Some (- 1, s)) = Some (l, s') \<and>
    agrees R p pm' m' s' \<and> pt_ok R pm' m' root"
  using map_large_page_agrees [OF assms, of va pa flags] assms by (cases c) simp_all

lemma map_range_loop_agrees:
  assumes "map_range_loop pm m root va pa stop flags = Some res" and "agrees R p pm m s" and "pt_ok R pm m root"
  shows "\<exists>s'. map_range_loop_mem s p root va pa stop flags = Some (fst res, s') \<and>
    agrees R p (fst (snd res)) (snd (snd res)) s' \<and> pt_ok R (fst (snd res)) (snd (snd res)) root"
  using assms
proof (induction arbitrary: s rule: map_range_loop.raw_induct [rotated, consumes 1])
  case (1 loop pm m root va pa stop flags res)
  show ?case
  proof (cases "va < stop")
    case False
    then show ?thesis using "1.hyps" "1.prems" by (auto simp: map_range_loop_mem.simps)
  next
    case True
    let ?large = "va AND (large_page_size - 1) = 0 \<and> pa AND (large_page_size - 1) = 0 \<and> large_page_size \<le> stop - va"
    obtain l pm1 m1 s1 where 1: "(if ?large then map_large_page pm m root va pa flags else Some (- 1, pm, m)) = Some (l, pm1, m1)"
        "(if ?large then map_large_page_mem s p root va pa flags else Some (- 1, s)) = Some (l, s1)"
        "agrees R p pm1 m1 s1" "pt_ok R pm1 m1 root"
      using large_try_agrees [OF "1.prems", where c = ?large] by blast
    obtain r pm2 m2 s2 where 2: "map_page pm1 m1 root va pa flags = Some (r, pm2, m2)"
        "map_page_mem s1 p root va pa flags = Some (r, s2)" "agrees R p pm2 m2 s2" "pt_ok R pm2 m2 root"
      using map_page_agrees [OF 1(3,4)] by blast
    have step: "(if l = 0 then loop pm1 m1 root (va + large_page_size) (pa + large_page_size) stop flags
        else if r \<noteq> 0 then Some (- 1, pm2, m2)
        else loop pm2 m2 root (va + page_size) (pa + page_size) stop flags) = Some res"
      using "1.hyps" True 1(1) 2(1) by (simp cong: if_cong)
    have mem: "map_range_loop_mem s p root va pa stop flags =
        (if l = 0 then map_range_loop_mem s1 p root (va + large_page_size) (pa + large_page_size) stop flags
         else if r \<noteq> 0 then Some (- 1, s2)
         else map_range_loop_mem s2 p root (va + page_size) (pa + page_size) stop flags)"
      using True 1(2) 2(2) by (simp add: map_range_loop_mem.simps [of s] cong: if_cong)
    show ?thesis
      using step "1.IH" 1(3,4) 2(3,4) unfolding mem by (auto split: if_splits)
  qed
qed

section \<open>Properties\<close>

text \<open>
  C12: \<^verbatim>\<open>map_range\<close> on the machine's one memory, with the frame allocator in it. When the manager's structures do not overlap
  and lie in frames that are set aside, the call returns what the call on separate manager and tables returns, for every
  range that does not reach the last page. Afterwards the structures stand for the manager that call yields, tables and
  manager are well-formed together, the processor translates every address as it does there, and bytes outside the
  \<^verbatim>\<open>frames_free\<close> fields and bitmaps are the same.
\<close>

theorem map_range_one_memory:
  assumes "pmm_apart m p" and "storage m p \<subseteq> frames_bytes R" and "pt_ok R (read_pmm m p) m root"
    and "map_range_pre vaddr paddr len flags"
  shows "\<exists>r pm' m1 m'. map_range (read_pmm m p) m root vaddr paddr len flags = Some (r, pm', m1) \<and>
    map_range_mem m p root vaddr paddr len flags = Some (r, m') \<and>
    read_pmm m' p = pm' \<and> pmm_apart m' p \<and> storage m' p \<subseteq> frames_bytes R \<and> pt_ok R pm' m' root \<and>
    (\<forall>va. walk m' root va = walk m1 root va) \<and> (\<forall>x. x \<notin> footprint m' p \<longrightarrow> m' x = m1 x)"
proof -
  obtain r pm' m1 where mr: "map_range (read_pmm m p) m root vaddr paddr len flags = Some (r, pm', m1)" "pt_ok R pm' m1 root"
    using map_range_spec [OF assms(3,4)] by (fastforce simp: map_range_post_def)
  have "agrees R p (read_pmm m p) m m" by (rule agrees_start [OF assms(1,2)])
  from map_range_loop_agrees [OF mr(1) [unfolded map_range_def] this assms(3)] obtain m' where
    m': "map_range_mem m p root vaddr paddr len flags = Some (r, m')" "agrees R p pm' m1 m'"
    by (auto simp: map_range_mem_def)
  note ok = agrees_pt_ok [OF m'(2) mr(2)]
  show ?thesis using mr(1) m' ok(1) same_walk_walk [OF ok(2)] by (auto simp: agrees_def)
qed

text \<open>The image of the demonstration manager; one of its frames becomes the root table.\<close>

lemma two_set_aside: "two_blocks b c \<Longrightarrow> storage (two_image b c) 0x8100 \<subseteq> frames_bytes {0x8000}"
  using two_storage by (fastforce simp: frames_bytes_def)

lemma demo_one_memory:
  obtains root m where "init_pml4_mem demo_image 0x8100 = Some (root, m)" and "pmm_apart m 0x8100"
    and "storage m 0x8100 \<subseteq> frames_bytes {0x8000}" and "pt_ok {0x8000} (read_pmm m 0x8100) m root"
proof -
  let ?R = "{0x8000} :: u64 set"
  have sa: "set_aside ?R demo_pmm" by (simp add: set_aside_def demo_free)
  have ag: "agrees ?R 0x8100 demo_pmm demo_image demo_image" using agrees_start [OF two_apart two_set_aside, OF demo_two demo_two] demo_read by simp
  obtain root pm' m1 where i: "init_pml4 demo_pmm demo_image = Some (root, pm', m1)" "pt_ok ?R pm' m1 root"
    using init_pml4_ok [OF demo_ok _ _ sa, where m = demo_image] by (auto simp: demo_free)
  then obtain m where m: "init_pml4_mem demo_image 0x8100 = Some (root, m)" "agrees ?R 0x8100 pm' m1 m"
    using alloc_table_agrees [OF ag demo_ok sa] by (auto simp: init_pml4_def init_pml4_mem_def)
  then show ?thesis using that agrees_pt_ok(1) [OF m(2) i(2)] by (auto simp: agrees_def)
qed

theorem map_range_one_memory_witness:
  "\<exists>root m r pm' m1 m'. init_pml4_mem demo_image 0x8100 = Some (root, m) \<and>
    map_range (read_pmm m 0x8100) m root 0x40201000 0x7000 0x1000 READ_WRITE_BIT = Some (r, pm', m1) \<and>
    map_range_mem m 0x8100 root 0x40201000 0x7000 0x1000 READ_WRITE_BIT = Some (r, m') \<and>
    read_pmm m' 0x8100 = pm' \<and> (\<forall>va. walk m' root va = walk m1 root va)"
proof -
  obtain root m where m: "init_pml4_mem demo_image 0x8100 = Some (root, m)" "pmm_apart m 0x8100"
      "storage m 0x8100 \<subseteq> frames_bytes {0x8000}" "pt_ok {0x8000} (read_pmm m 0x8100) m root"
    by (rule demo_one_memory)
  have b: "page_base 0x7000 = 0x7000" by code_simp
  have "map_range_pre 0x40201000 0x7000 0x1000 READ_WRITE_BIT"
    unfolding map_range_pre_def b by (simp add: span_len_def, code_simp)
  from map_range_one_memory [OF m(2-4) this] show ?thesis using m(1) by blast
qed

end
