(* ===== verification/Kernel_Mem.thy ===== *)
theory Kernel_Mem
  imports Kernel_Props Paging_Mem
begin

text \<open>
  \<^verbatim>\<open>kernel_start\<close> on the machine's one memory. \<^verbatim>\<open>Kernel\<close> keeps the manager of the frame allocator beside the memory;
  here \<^verbatim>\<open>kernel/kernel.c\<close> reaches it through \<^verbatim>\<open>system->physical_memory\<close>, and the descriptor table, the page tables and the
  allocator share the memory. The end of \<^verbatim>\<open>kernel_start\<close> is the one shown for the separate model, and the
  allocator survives the boot.
\<close>

section \<open>Operations\<close>

partial_function (option) init_paging_loop_mem :: "mem \<Rightarrow> u64 \<Rightarrow> u64 \<Rightarrow> nat \<Rightarrow> (int \<times> mem) option" where
  "init_paging_loop_mem m p root i =
     (if i < unat (load64 m (p + 8))
      then let block = block_ptr m p i in
        if load32 m (block + 32) = 5 \<or> load32 m (block + 32) = 6 then init_paging_loop_mem m p root (Suc i)
        else let start = load64 m block;
            stop = start + load64 m (block + 8) * frame_size;
            start = (if start < frame_size then frame_size else start) in
          if start \<ge> stop then init_paging_loop_mem m p root (Suc i)
          else do {
            (r, m) \<leftarrow> map_range_mem m p root start start (stop - start) READ_WRITE_BIT;
            if r \<noteq> 0 then Some (- 1, m) else init_paging_loop_mem m p root (Suc i)
          }
      else Some (0, m))"

definition init_paging_mem :: "kstate \<Rightarrow> (int \<times> kstate) option" where
  "init_paging_mem k = do {
     let p = physical_memory (sys k);
     (root, m) \<leftarrow> init_pml4_mem (kmem k) p;
     let k = k\<lparr>sys := (sys k)\<lparr>pml4 := root\<rparr>, kmem := m\<rparr>;
     if root = 0 then Some (- 1, k)
     else do {
       (r, m) \<leftarrow> init_paging_loop_mem (kmem k) p (pml4 (sys k)) 0;
       let k = k\<lparr>kmem := m\<rparr>;
       if r \<noteq> 0 then Some (- 1, k)
       else do {
         let fb_start = buffer (fb (sys k));
         let fb_length = pixels_per_scanline (fb (sys k)) * height (fb (sys k)) * 4;
         (r, m) \<leftarrow> map_range_mem (kmem k) p (pml4 (sys k)) fb_start fb_start fb_length READ_WRITE_BIT;
         let k = k\<lparr>kmem := m\<rparr>;
         if r \<noteq> 0 then Some (- 1, k)
         else Some (0, k\<lparr>cr := set_cr3 (cr k) (pml4 (sys k))\<rparr>)
       }
     }
   }"

definition kernel_start_mem :: "string \<Rightarrow> u64 \<Rightarrow> kstate \<Rightarrow> colonel_t \<Rightarrow> (halt \<times> kstate) option" where
  "kernel_start_mem package_string self k s = do {
     let k = k\<lparr>sys := s\<rparr>;
     let k = k\<lparr>console := console k @ [Ssfn_setup (fb (sys k)), Ssfn_set_color 0xFFFFFFFF 0]\<rparr>;
     let k = say k (''%s'' @ nl @ nl) [PStr package_string];
     let k = say k (''Copied physical memory map to 0x%x.'' @ nl) [PInt (physical_memory (sys k))];
     let k = say k (''kernel_start() is at 0x%llx.'' @ nl) [PInt self];
     let k = say k (''Starting kernel...'' @ nl) [];
     (desc, m) \<leftarrow> frame_allocate_mem (kmem k) (physical_memory (sys k));
     let k = k\<lparr>kmem := m\<rparr>;
     if desc = 0xFFFFFFFFFFFFFFFF
     then Some (No_gdt_descriptor, say k (''Failed to allocate GDT descriptor.'' @ nl) [])
     else do {
       let k = k\<lparr>sys := (sys k)\<lparr>gdt := desc\<rparr>\<rparr>;
       let k = say k (''Created GDT descriptor at 0x%x.'' @ nl) [PInt (gdt (sys k))];
       let k = k\<lparr>kmem := store16 (kmem k) (gdt (sys k)) (ucast (gdt_entry_count * 8 - 1))\<rparr>;
       (b, m) \<leftarrow> frame_allocate_mem (kmem k) (physical_memory (sys k));
       let k = k\<lparr>kmem := m\<rparr>;
       if b = 0xFFFFFFFFFFFFFFFF
       then Some (No_gdt_base, say k (''Failed to allocate GDT base.'' @ nl) [])
       else do {
         let k = k\<lparr>kmem := store64 (kmem k) (gdt (sys k) + 2) b\<rparr>;
         let k = k\<lparr>kmem := add_kernel_segments (kmem k) (gdt (sys k))\<rparr>;
         let k = gdt_flush k (gdt (sys k));
         let d = load_gdt_desc (kmem k) (gdt (sys k));
         let k = say k (''Setup GDT at 0x%x, limit: 0x%x.'' @ nl) [PInt (gdt_base d), PInt (ucast (gdt_limit d))];
         (r, k) \<leftarrow> init_paging_mem k;
         if r \<noteq> 0 then Some (No_page_tables, say k (''Failed to build kernel page tables.'' @ nl) [])
         else Some (Up, say k (''Loaded kernel PML4 at 0x%llx.'' @ nl) [PInt (pml4 (sys k))])
       }
     }
   }"

section \<open>init_paging agrees\<close>

lemma agrees_mono: "agrees R p pm m s \<Longrightarrow> R \<subseteq> S \<Longrightarrow> agrees S p pm m s"
  unfolding agrees_def frames_bytes_def by blast

lemma agrees_block:
  assumes "agrees R p pm m s"
  shows "load64 s (p + 8) = block_count pm"
    and "i < unat (block_count pm) \<Longrightarrow> blocks pm ! i = read_block s (block_ptr s p i) \<and> i < length (blocks pm)"
  using assms by (auto simp: agrees_def)

lemma map_range_agrees:
  assumes "agrees R p pm m s" and "pt_ok R pm m root" and "map_range pm m root va pa len flags = Some (r, pm', m')"
  shows "\<exists>s'. map_range_mem s p root va pa len flags = Some (r, s') \<and> agrees R p pm' m' s' \<and> pt_ok R pm' m' root"
  using map_range_loop_agrees [OF assms(3) [unfolded map_range_def] assms(1,2)] by (simp add: map_range_mem_def)

lemma type_number: "pm_type_of n = PM_MMIO \<longleftrightarrow> n = 5" "pm_type_of n = PM_RESERVED \<longleftrightarrow> n = 6"
  by (simp_all add: pm_type_of_def)

lemma init_paging_loop_agrees:
  assumes "init_paging_loop pm m root i = Some res" and "agrees R p pm m s" and "pt_ok R pm m root"
  shows "\<exists>s'. init_paging_loop_mem s p root i = Some (fst res, s') \<and>
    agrees R p (fst (snd res)) (snd (snd res)) s' \<and> pt_ok R (fst (snd res)) (snd (snd res)) root"
  using assms
proof (induction arbitrary: s rule: init_paging_loop.raw_induct [rotated, consumes 1])
  case (1 loop pm m root i res)
  note ag = "1.prems"(1)
  show ?case
  proof (cases "i < unat (block_count pm)")
    case False
    then show ?thesis using "1.hyps" "1.prems" agrees_block(1) [OF ag] by (auto simp: init_paging_loop_mem.simps [of s])
  next
    case i: True
    let ?q = "block_ptr s p i"
    define start where "start = (if load64 s ?q < frame_size then frame_size else load64 s ?q)"
    define stop where "stop = load64 s ?q + load64 s (?q + 8) * frame_size"
    define skip where "skip \<longleftrightarrow> load32 s (?q + 32) = 5 \<or> load32 s (?q + 32) = 6 \<or> start \<ge> stop"
    have ci: "i < unat (load64 s (p + 8))" using agrees_block(1) [OF ag] i by simp
    note b = agrees_block(2) [OF ag i]
    have res: "(if skip then loop pm m root (Suc i)
        else Option.bind (map_range pm m root start start (stop - start) READ_WRITE_BIT)
          (\<lambda>(r, pm, m). if r \<noteq> 0 then Some (- 1, pm, m) else loop pm m root (Suc i))) = Some res"
      using "1.hyps" i b unfolding skip_def start_def stop_def
      by (auto simp: Let_def read_block_def type_number split: if_splits)
    have mem: "init_paging_loop_mem s p root i = (if skip then init_paging_loop_mem s p root (Suc i)
        else Option.bind (map_range_mem s p root start start (stop - start) READ_WRITE_BIT)
          (\<lambda>(r, s). if r \<noteq> 0 then Some (- 1, s) else init_paging_loop_mem s p root (Suc i)))"
      using ci unfolding skip_def start_def stop_def by (auto simp: init_paging_loop_mem.simps [of s p root i] Let_def)
    show ?thesis
    proof (cases skip)
      case True
      then show ?thesis using res mem "1.IH" "1.prems" by simp
    next
      case False
      then obtain r pm1 m1 where mr: "map_range pm m root start start (stop - start) READ_WRITE_BIT = Some (r, pm1, m1)"
          "(if r \<noteq> 0 then Some (- 1, pm1, m1) else loop pm1 m1 root (Suc i)) = Some res"
        using res by (auto simp: bind_eq_Some_conv)
      obtain s1 where s1: "map_range_mem s p root start start (stop - start) READ_WRITE_BIT = Some (r, s1)"
          "agrees R p pm1 m1 s1" "pt_ok R pm1 m1 root"
        using map_range_agrees [OF "1.prems" mr(1)] by blast
      then show ?thesis using mem False mr(2) "1.IH" by (cases "r = 0") auto
    qed
  qed
qed

text \<open>The two states of the kernel: the same but for the allocator and memory, which agree.\<close>

definition twin :: "u64 set \<Rightarrow> kstate \<Rightarrow> kstate \<Rightarrow> bool" where
  "twin R k k2 \<longleftrightarrow> agrees R (physical_memory (sys k)) (kpm k) (kmem k) (kmem k2) \<and> k2 = k\<lparr>kpm := kpm k2, kmem := kmem k2\<rparr>"

lemma twin_fields:
  assumes "twin R k k2"
  shows "sys k2 = sys k" and "cr k2 = cr k" and "gdtr k2 = gdtr k" and "seg_cs k2 = seg_cs k" and "seg_data k2 = seg_data k"
    and "console k2 = console k"
proof -
  have "k2 = k\<lparr>kpm := kpm k2, kmem := kmem k2\<rparr>" using assms by (simp add: twin_def)
  then show "sys k2 = sys k" "cr k2 = cr k" "gdtr k2 = gdtr k" "seg_cs k2 = seg_cs k" "seg_data k2 = seg_data k" "console k2 = console k"
    by (metis kstate.select_convs kstate.surjective kstate.update_convs)+
qed

lemma init_paging_agrees:
  assumes "twin R k k2" and "pmm_ok (kpm k)" and "0 \<notin> pmm_free (kpm k)" and "set_aside R (kpm k)"
    and "init_paging k = Some (r, k')"
  shows "\<exists>k2'. init_paging_mem k2 = Some (r, k2') \<and> twin R k' k2'"
proof -
  let ?p = "physical_memory (sys k)"
  obtain q t where k2: "k2 = k\<lparr>kpm := q, kmem := t\<rparr>" and ag: "agrees R ?p (kpm k) (kmem k) t"
    using assms(1) unfolding twin_def by blast
  obtain root pm m s where 0: "init_pml4 (kpm k) (kmem k) = Some (root, pm, m)" "init_pml4_mem t ?p = Some (root, s)"
      "agrees R ?p pm m s"
    using alloc_table_agrees [OF ag assms(2,4)] by (auto simp: init_pml4_def init_pml4_mem_def)
  show ?thesis
  proof (cases "root = 0")
    case True
    then show ?thesis using assms(5) 0 by (auto simp: init_paging_def init_paging_mem_def twin_def k2 Let_def)
  next
    case nz: False
    have "pmm_free (kpm k) \<noteq> {}"
      using 0(1) nz alloc_table_cases [OF assms(2,3), of "kmem k"] by (auto simp: init_pml4_def)
    then have pt: "pt_ok R pm m root" using init_pml4_ok [OF assms(2,3) _ assms(4), of "kmem k"] 0(1) by auto
    obtain r1 pm1 m1 where l: "init_paging_loop pm m root 0 = Some (r1, pm1, m1)"
      using assms(5) 0(1) nz by (cases "init_paging_loop pm m root 0") (auto simp: init_paging_def)
    obtain s1 where s1: "init_paging_loop_mem s ?p root 0 = Some (r1, s1)" "agrees R ?p pm1 m1 s1" "pt_ok R pm1 m1 root"
      using init_paging_loop_agrees [OF l 0(3) pt] by auto
    show ?thesis
    proof (cases "r1 = 0")
      case False
      then show ?thesis using assms(5) 0(1,2) l s1(1,2) nz
        by (auto simp: init_paging_def init_paging_mem_def twin_def k2 Let_def)
    next
      case True
      let ?b = "buffer (fb (sys k))" and ?n = "pixels_per_scanline (fb (sys k)) * height (fb (sys k)) * 4"
      obtain r2 pm2 m2 where f: "map_range pm1 m1 root ?b ?b ?n READ_WRITE_BIT = Some (r2, pm2, m2)"
        using assms(5) 0(1) nz l True
        by (cases "map_range pm1 m1 root ?b ?b ?n READ_WRITE_BIT") (auto simp: init_paging_def)
      obtain s2 where "map_range_mem s1 ?p root ?b ?b ?n READ_WRITE_BIT = Some (r2, s2)" "agrees R ?p pm2 m2 s2"
        using map_range_agrees [OF s1(2,3) f] by blast
      then show ?thesis using assms(5) 0(1,2) l s1(1) f nz True
        by (auto simp: init_paging_def init_paging_mem_def twin_def k2 Let_def)
    qed
  qed
qed

section \<open>The descriptor table\<close>

definition gdt_twin :: "u64 set \<Rightarrow> u64 \<Rightarrow> pmm \<Rightarrow> u64 \<Rightarrow> u64 \<Rightarrow> mem \<Rightarrow> mem \<Rightarrow> bool" where
  "gdt_twin R p pm desc b m s \<longleftrightarrow> agrees R p pm m s \<and> (\<forall>f \<in> R. unat f mod 4096 = 0) \<and>
     frame_like desc \<and> frame_like b \<and> desc \<notin> R \<and> b \<notin> R \<and>
     gdt_room m desc \<and> load_gdt_desc m desc = \<lparr>gdt_limit = 39, gdt_base = b\<rparr>"

lemma gdt_desc_agrees:
  assumes "agrees R p pm m s" and "\<forall>f \<in> R. unat f mod 4096 = 0" and "frame_like desc" and "desc \<notin> R"
  shows "load_gdt_desc s desc = load_gdt_desc m desc"
proof -
  have fr: "unat desc mod 4096 = 0" "unat desc < 2 ^ 52" using assms(3) by (simp_all add: frame_like_def)
  have d2: "unat (desc + 2) = unat desc + 2" using fr(2) by (subst unat_add_nowrap) simp_all
  have "load16 s desc = load16 m desc" "load64 s (desc + 2) = load64 m (desc + 2)"
    using d2 by (auto intro!: agrees_load [OF assms(1) fr(1) assms(4,2)])
  then show ?thesis by (simp add: load_gdt_desc_def)
qed

lemma gdt_twin_add:
  assumes "gdt_twin R p pm desc b m s"
  shows "gdt_twin R p pm desc b (gdt_entry_add m desc i e) (gdt_entry_add s desc i e)"
proof -
  note g = assms [unfolded gdt_twin_def]
  have l: "load_gdt_desc (gdt_entry_add m desc i e) desc = load_gdt_desc m desc" using g by (intro gdt_entry_add_desc) blast
  have b: "unat b mod 4096 = 0" "unat b < 2 ^ 52" using g by (simp_all add: frame_like_def)
  then have "unat b + 2048 \<le> 2 ^ 64" by simp
  note sl = gdt_slot [OF this, of i]
  have "agrees R p pm (store64 m (b + 8 * ucast i) e) (store64 s (b + 8 * ucast i) e)"
    using g b sl by (intro agrees_store [where t = b]) auto
  moreover have "load_gdt_desc s desc = \<lparr>gdt_limit = 39, gdt_base = b\<rparr>" using gdt_desc_agrees [of R p pm m s desc] g by simp
  moreover have "gdt_room m desc" using g by blast
  then have "gdt_room (gdt_entry_add m desc i e) desc" unfolding gdt_room_def l .
  ultimately show ?thesis using g l by (simp add: gdt_twin_def gdt_entry_add_def)
qed

lemma gdt_twin_segments:
  "gdt_twin R p pm desc b m s \<Longrightarrow> gdt_twin R p pm desc b (add_kernel_segments m desc) (add_kernel_segments s desc)"
  unfolding add_kernel_segments_def Let_def by (intro gdt_twin_add)

section \<open>kernel_start\<close>

lemma kernel_start_mem_course:
  assumes "frame_allocate_mem (kmem k) (physical_memory s) = Some (desc, m1)" and "desc \<noteq> NO_FRAME"
    and "frame_allocate_mem (store16 m1 desc 39) (physical_memory s) = Some (b, m2)" and "b \<noteq> NO_FRAME"
  shows "kernel_start_mem pkg self k s = do {
      (r, k) \<leftarrow> init_paging_mem (gdt_ready pkg self k s desc (kpm k) (add_kernel_segments (store64 m2 (desc + 2) b) desc));
      if r \<noteq> 0 then Some (No_page_tables, say k (''Failed to build kernel page tables.'' @ nl) [])
      else Some (Up, say k (''Loaded kernel PML4 at 0x%llx.'' @ nl) [PInt (pml4 (sys k))])}"
  using assms by (simp add: kernel_start_mem_def say_def Let_def gdt_flush_def gdt_entry_count_def gdt_ready_def)

lemma gdt_entries_agree:
  assumes "agrees R p pm m s" and "\<forall>f \<in> R. unat f mod 4096 = 0" and "frame_like desc" and "desc \<notin> R"
    and "load_gdt_desc m desc = \<lparr>gdt_limit = l, gdt_base = b\<rparr>" and "frame_like b" and "b \<notin> R"
  shows "gdt_entry_at s desc i = gdt_entry_at m desc i"
proof -
  have b: "unat b mod 4096 = 0" "unat b < 2 ^ 52" using assms(6) by (simp_all add: frame_like_def)
  then have "unat b + 2048 \<le> 2 ^ 64" by simp
  note sl = gdt_slot [OF this, of i]
  have "load64 s (b + 8 * ucast i) = load64 m (b + 8 * ucast i)"
    using sl by (intro agrees_load [OF assms(1) b(1) assms(7,2)]) simp_all
  then show ?thesis using gdt_desc_agrees [OF assms(1-4)] assms(5) by (simp add: gdt_entry_at_def)
qed

text \<open>A kernel that is up in the separate model is up in the one memory.\<close>

lemma kernel_up_twin:
  assumes "kernel_up k k1" and "twin R k1 k2" and "pt_ok R (kpm k1) (kmem k1) (pml4 (sys k1))"
    and "frame_like (gdt (sys k1))" and "gdt (sys k1) \<notin> R" and "gdtr k1 = \<lparr>gdt_limit = 39, gdt_base = b\<rparr>"
    and "frame_like b" and "b \<notin> R"
  shows "kernel_up k k2"
proof -
  let ?d = "gdt (sys k1)" and ?p = "physical_memory (sys k1)"
  note up = assms(1) [unfolded kernel_up_def] and same = twin_fields [OF assms(2)]
  have ag: "agrees R ?p (kpm k1) (kmem k1) (kmem k2)" using assms(2) by (simp add: twin_def)
  have al: "\<forall>f \<in> R. unat f mod 4096 = 0" using assms(3) by (simp add: pt_ok_def)
  have ld: "load_gdt_desc (kmem k1) ?d = \<lparr>gdt_limit = 39, gdt_base = b\<rparr>" using up assms(6) by simp
  have "load_gdt_desc (kmem k2) ?d = load_gdt_desc (kmem k1) ?d" by (rule gdt_desc_agrees [OF ag al assms(4,5)])
  moreover note gdt_entries_agree [OF ag al assms(4,5) ld assms(7,8)]
  moreover have "walk (kmem k2) (pml4 (sys k1)) va = walk (kmem k1) (pml4 (sys k1)) va" for va
    by (rule same_walk_walk [OF agrees_pt_ok(2) [OF ag assms(3)]])
  ultimately show ?thesis using up same ld by (simp add: kernel_up_def identity_mapped_def)
qed

lemma twin_say: "twin R k k2 \<Longrightarrow> twin R (say k f a) (say k2 f a)"
  unfolding twin_def say_def by (cases k, cases k2) simp

lemma gdt_ready_fields:
  "sys (gdt_ready pkg self k s desc pm m) = s\<lparr>gdt := desc\<rparr>" "kpm (gdt_ready pkg self k s desc pm m) = pm"
  "kmem (gdt_ready pkg self k s desc pm m) = m" "gdtr (gdt_ready pkg self k s desc pm m) = load_gdt_desc m desc"
  by (simp_all add: gdt_ready_def Let_def)

lemma twin_gdt_ready:
  assumes "agrees R (physical_memory s) pm m m2" and "load_gdt_desc m2 desc = load_gdt_desc m desc"
  shows "twin R (gdt_ready pkg self (k\<lparr>kpm := q\<rparr>) s desc pm m) (gdt_ready pkg self k s desc (kpm k) m2)"
  using assms by (cases k) (simp add: twin_def gdt_ready_def Let_def)

text \<open>The whole call, from a memory whose structures at \<open>physical_memory s\<close> stand for the manager.\<close>

abbreviation split_of :: "kstate \<Rightarrow> colonel_t \<Rightarrow> kstate" where
  "split_of k s \<equiv> k\<lparr>kpm := read_pmm (kmem k) (physical_memory s)\<rparr>"

text \<open>Where a call of both models ends, with the frames of the descriptor table when it gets that far.\<close>

definition both_end :: "u64 set \<Rightarrow> pmm \<Rightarrow> u64 \<Rightarrow> (halt \<times> kstate) option \<Rightarrow> (halt \<times> kstate) option \<Rightarrow> bool" where
  "both_end R pm p res res2 \<longleftrightarrow> (\<exists>h k1 k2. res = Some (h, k1) \<and> res2 = Some (h, k2) \<and>
     agrees R p (kpm k1) (kmem k1) (kmem k2) \<and>
     (h = Up \<longrightarrow> twin R k1 k2 \<and> geometry (kpm k1) = geometry pm \<and> pt_ok R (kpm k1) (kmem k1) (pml4 (sys k1)) \<and>
        (\<exists>b. frame_like (gdt (sys k1)) \<and> gdt (sys k1) \<notin> R \<and> gdtr k1 = \<lparr>gdt_limit = 39, gdt_base = b\<rparr> \<and>
           frame_like b \<and> b \<notin> R)))"

lemma kernel_start_tables_agree:
  assumes bm: "boot_memory (split_of k s\<lparr>sys := s\<rparr>)" and sa: "set_aside R (read_pmm (kmem k) (physical_memory s))"
    and d: "frame_allocate (read_pmm (kmem k) (physical_memory s)) = Some (desc, pm1)" "desc \<noteq> NO_FRAME" "frame_like desc"
      "desc \<in> pmm_free (read_pmm (kmem k) (physical_memory s))"
      "pmm_free pm1 = pmm_free (read_pmm (kmem k) (physical_memory s)) - {desc}"
      "geometry pm1 = geometry (read_pmm (kmem k) (physical_memory s))"
    and b: "frame_allocate pm1 = Some (b, pm2)" "b \<noteq> NO_FRAME" "frame_like b" "b \<in> pmm_free pm1" "pmm_ok pm2"
      "pmm_free pm2 = pmm_free pm1 - {b}" "geometry pm2 = geometry pm1"
    and s1: "frame_allocate_mem (kmem k) (physical_memory s) = Some (desc, m1)"
      "agrees R (physical_memory s) pm1 (kmem k) m1"
  shows "both_end R (read_pmm (kmem k) (physical_memory s)) (physical_memory s)
    (kernel_start pkg self (split_of k s) s) (kernel_start_mem pkg self k s)"
proof -
  let ?p = "physical_memory s" and ?pm = "read_pmm (kmem k) (physical_memory s)" and ?k0 = "split_of k s"
  have al: "\<forall>f \<in> R. unat f mod 4096 = 0" using sa by (simp add: set_aside_def)
  have out: "desc \<notin> R" "b \<notin> R" "desc \<noteq> b" using sa d(4,5) b(4) by (auto simp: set_aside_def)
  have fr: "unat desc mod 4096 = 0" "unat desc < 2 ^ 52" using d(3) by (simp_all add: frame_like_def)
  have d2: "unat (desc + 2) = unat desc + 2" using fr(2) by (subst unat_add_nowrap) simp_all
  have "agrees R ?p pm1 (store16 (kmem k) desc 39) (store16 m1 desc 39)"
    by (rule agrees_store [OF s1(2) fr(1) out(1) al]) simp_all
  from agrees_alloc [OF this b(1)] obtain m2 where m2: "frame_allocate_mem (store16 m1 desc 39) ?p = Some (b, m2)"
      "agrees R ?p pm2 (store16 (kmem k) desc 39) m2" by blast
  note g = gdt_in_frames [OF d(3) b(3) out(3), of "kmem k"]
  have "agrees R ?p pm2 (store64 (store16 (kmem k) desc 39) (desc + 2) b) (store64 m2 (desc + 2) b)"
    by (rule agrees_store [OF m2(2) fr(1) out(1) al]) (simp_all add: d2)
  then have "gdt_twin R ?p pm2 desc b (store64 (store16 (kmem k) desc 39) (desc + 2) b) (store64 m2 (desc + 2) b)"
    using al d(3) b(3) out g by (simp add: gdt_twin_def)
  from gdt_twin_segments [OF this] have gt: "gdt_twin R ?p pm2 desc b
      (add_kernel_segments (store64 (store16 (kmem k) desc 39) (desc + 2) b) desc) (add_kernel_segments (store64 m2 (desc + 2) b) desc)" .
  define K1 where "K1 = gdt_ready pkg self ?k0 s desc pm2
    (add_kernel_segments (store64 (store16 (kmem k) desc 39) (desc + 2) b) desc)"
  define K2 where "K2 = gdt_ready pkg self k s desc (kpm k) (add_kernel_segments (store64 m2 (desc + 2) b) desc)"
  have tw: "twin R K1 K2"
    unfolding K1_def K2_def using gt gdt_desc_agrees by (intro twin_gdt_ready) (auto simp: gdt_twin_def)
  have ge: "geometry pm2 = geometry ?pm" using b(7) d(6) by simp
  have bm1: "boot_memory K1"
    using bm b(5,6) d(5) geometry_eqD(3) [OF ge] K1_def by (simp add: boot_memory_def gdt_ready_fields)
  have sa1: "set_aside R (kpm K1)" using sa b(6) d(5) by (auto simp: set_aside_def K1_def gdt_ready_fields)
  obtain r K1' where ip: "init_paging K1 = Some (r, K1')" "init_paging_post R K1 (r, K1')"
    using init_paging_spec [OF bm1 sa1] by fastforce
  obtain K2' where ip2: "init_paging_mem K2 = Some (r, K2')" "twin R K1' K2'"
    using init_paging_agrees [OF tw _ _ sa1 ip(1)] bm1 by (auto simp: boot_memory_def)
  note regs = init_paging_regs [OF ip(1)]
  have K1: "gdt (sys K1) = desc" "physical_memory (sys K1) = ?p" "gdtr K1 = \<lparr>gdt_limit = 39, gdt_base = b\<rparr>" "kpm K1 = pm2"
    using gt by (simp_all add: K1_def gdt_ready_fields gdt_twin_def)
  have ag: "agrees R ?p (kpm K1') (kmem K1') (kmem K2')" using ip2(2) regs(6) K1(2) by (simp add: twin_def)
  have c1: "kernel_start pkg self ?k0 s = (if r \<noteq> 0 then Some (No_page_tables, say K1' (''Failed to build kernel page tables.'' @ nl) [])
      else Some (Up, say K1' (''Loaded kernel PML4 at 0x%llx.'' @ nl) [PInt (pml4 (sys K1'))]))"
    using kernel_start_course [of ?k0 desc pm1 b pm2 pkg self s] d(1,2) b(1,2) ip(1) by (simp add: K1_def)
  have c2: "kernel_start_mem pkg self k s = (if r \<noteq> 0 then Some (No_page_tables, say K2' (''Failed to build kernel page tables.'' @ nl) [])
      else Some (Up, say K2' (''Loaded kernel PML4 at 0x%llx.'' @ nl) [PInt (pml4 (sys K1'))]))"
    using kernel_start_mem_course [OF s1(1) d(2) m2(1) b(2), of pkg self] ip2(1) twin_fields(1) [OF ip2(2)] by (simp add: K2_def)
  have say: "kpm (say x f a) = kpm x" "kmem (say x f a) = kmem x" "sys (say x f a) = sys x" "gdtr (say x f a) = gdtr x" for x f a
    by (simp_all add: say_def)
  show ?thesis
  proof (cases "r = 0")
    case True
    have "geometry (kpm K1') = geometry ?pm" "pt_ok R (kpm K1') (kmem K1') (pml4 (sys K1'))"
      using ip(2) True ge K1(4) by (auto simp: init_paging_post_def takes_def)
    then show ?thesis using True c1 c2 ag twin_say [OF ip2(2)] regs K1 d(3) b(3) out by (simp add: both_end_def say)
  qed (use c1 c2 ag in \<open>simp add: both_end_def say\<close>)
qed

lemma kernel_start_agrees:
  assumes "boot_memory (split_of k s\<lparr>sys := s\<rparr>)" and "pmm_apart (kmem k) (physical_memory s)"
    and "storage (kmem k) (physical_memory s) \<subseteq> frames_bytes R" and "set_aside R (read_pmm (kmem k) (physical_memory s))"
  shows "both_end R (read_pmm (kmem k) (physical_memory s)) (physical_memory s)
    (kernel_start pkg self (split_of k s) s) (kernel_start_mem pkg self k s)"
proof -
  let ?p = "physical_memory s" and ?pm = "read_pmm (kmem k) (physical_memory s)"
  have ok: "pmm_ok ?pm" using assms(1) by (simp add: boot_memory_def)
  have ag: "agrees R ?p ?pm (kmem k) (kmem k)" by (rule agrees_start [OF assms(2,3)])
  from ok show ?thesis
  proof (cases rule: frame_allocate_cases)
    case none
    from agrees_alloc [OF ag none(2)] obtain m1 where "frame_allocate_mem (kmem k) ?p = Some (NO_FRAME, m1)"
        "agrees R ?p ?pm (kmem k) m1" by blast
    then show ?thesis using none(2) by (simp add: both_end_def kernel_start_def kernel_start_mem_def say_def Let_def)
  next
    case (frame desc pm1)
    note d = frame
    from agrees_alloc [OF ag d(1)] obtain m1 where s1: "frame_allocate_mem (kmem k) ?p = Some (desc, m1)"
        "agrees R ?p pm1 (kmem k) m1" by blast
    from d(5) show ?thesis
    proof (cases rule: frame_allocate_cases)
      case (frame b pm2)
      show ?thesis by (rule kernel_start_tables_agree [OF assms(1,4) d(1-4,6,7) frame s1])
    next
      case none
      have fr: "unat desc mod 4096 = 0" "desc \<notin> R" "\<forall>f \<in> R. unat f mod 4096 = 0"
        using d(3,4) assms(4) by (auto simp: frame_like_def set_aside_def)
      have "agrees R ?p pm1 (store16 (kmem k) desc 39) (store16 m1 desc 39)"
        by (rule agrees_store [OF s1(2) fr]) simp_all
      from agrees_alloc [OF this none(2)] obtain m2 where "frame_allocate_mem (store16 m1 desc 39) ?p = Some (NO_FRAME, m2)"
          "agrees R ?p pm1 (store16 (kmem k) desc 39) m2" by blast
      then show ?thesis using d(1,2) s1(1) none(2)
        by (simp add: both_end_def kernel_start_def kernel_start_mem_def say_def Let_def gdt_entry_count_def)
    qed
  qed
qed

section \<open>Properties\<close>

text \<open>
  C3: \<^verbatim>\<open>kernel_start\<close> on the machine's one memory always reaches a \<^verbatim>\<open>hlt\<close> loop, when the allocator's structures do not overlap, lie in
  frames that are not free, and stand for a manager the kernel can boot with. Unless memory is too small for descriptor
  table and page tables, the kernel is up: segments loaded, exactly memory and framebuffer mapped to themselves by the
  tables in that memory. The structures still stand for a well-formed manager of the same blocks, next to
  a well-formed tree of tables.
\<close>

theorem kernel_start_one_memory:
  assumes "boot_memory (k\<lparr>kpm := read_pmm (kmem k) (physical_memory s), sys := s\<rparr>)"
    and "pmm_apart (kmem k) (physical_memory s)" and "storage (kmem k) (physical_memory s) \<subseteq> frames_bytes R"
    and "set_aside R (read_pmm (kmem k) (physical_memory s))"
  shows "\<exists>h k'. kernel_start_mem pkg self k s = Some (h, k') \<and> pmm_apart (kmem k') (physical_memory s) \<and>
    (let pm = read_pmm (kmem k) (physical_memory s); pm' = read_pmm (kmem k') (physical_memory s) in
     if h = Up then kernel_up (k\<lparr>kpm := pm, sys := s\<rparr>) k' \<and> geometry pm' = geometry pm \<and> pt_ok R pm' (kmem k') (cr k' 3)
     else pmm_free pm' = {} \<and> card (pmm_free pm) \<le> 2 + paging_cost (k\<lparr>kpm := pm, sys := s\<rparr>))"
proof -
  let ?p = "physical_memory s" and ?pm = "read_pmm (kmem k) (physical_memory s)"
  obtain h k1 k2 where e: "kernel_start pkg self (split_of k s) s = Some (h, k1)" "kernel_start_mem pkg self k s = Some (h, k2)"
      and ag: "agrees R ?p (kpm k1) (kmem k1) (kmem k2)"
      and up: "h = Up \<longrightarrow> twin R k1 k2 \<and> geometry (kpm k1) = geometry ?pm \<and> pt_ok R (kpm k1) (kmem k1) (pml4 (sys k1)) \<and>
        (\<exists>b. frame_like (gdt (sys k1)) \<and> gdt (sys k1) \<notin> R \<and> gdtr k1 = \<lparr>gdt_limit = 39, gdt_base = b\<rparr> \<and>
           frame_like b \<and> b \<notin> R)"
    using kernel_start_agrees [OF assms, of pkg self] unfolding both_end_def by blast
  have "kpm (split_of k s\<lparr>sys := s\<rparr>) = ?pm" by simp
  then have s: "if h = Up then kernel_up (split_of k s\<lparr>sys := s\<rparr>) k1
      else pmm_free (kpm k1) = {} \<and> card (pmm_free ?pm) \<le> 2 + paging_cost (split_of k s\<lparr>sys := s\<rparr>)"
    using kernel_start_spec [OF assms(1), of pkg self] e(1) by auto
  have r: "read_pmm (kmem k2) ?p = kpm k1" "pmm_apart (kmem k2) ?p" using ag by (simp_all add: agrees_def)
  show ?thesis
  proof (cases "h = Up")
    case True
    then obtain b where u: "twin R k1 k2" "geometry (kpm k1) = geometry ?pm" "pt_ok R (kpm k1) (kmem k1) (pml4 (sys k1))"
        "frame_like (gdt (sys k1))" "gdt (sys k1) \<notin> R" "gdtr k1 = \<lparr>gdt_limit = 39, gdt_base = b\<rparr>" "frame_like b" "b \<notin> R"
      using up by blast
    have k1: "kernel_up (split_of k s\<lparr>sys := s\<rparr>) k1" using s True by simp
    have "kernel_up (split_of k s\<lparr>sys := s\<rparr>) k2" by (rule kernel_up_twin [OF k1 u(1,3-8)])
    moreover have "cr k2 3 = pml4 (sys k1)" using k1 twin_fields(2) [OF u(1)] by (simp add: kernel_up_def identity_mapped_def)
    ultimately show ?thesis using e(2) True r u(2) agrees_pt_ok(1) [OF ag u(3)] by simp
  next
    case False
    then show ?thesis using e(2) r s by simp
  qed
qed

text \<open>The manager of 64 usable frames, its structures in the frame of code, which the kernel maps.\<close>

theorem kernel_start_one_memory_witness:
  "\<exists>k'. kernel_start_mem ''echOS'' 0x200000 (pool_kstate\<lparr>kmem := two_image pool_block code_block\<rparr>)
      (demo_sys\<lparr>physical_memory := 0x8100\<rparr>) = Some (Up, k') \<and>
    pmm_apart (kmem k') 0x8100 \<and> pmm_ok (read_pmm (kmem k') 0x8100)"
proof -
  let ?k = "pool_kstate\<lparr>kmem := two_image pool_block code_block\<rparr>" and ?s = "demo_sys\<lparr>physical_memory := 0x8100\<rparr>"
  have two: "two_blocks pool_block code_block" by (simp add: two_blocks_def pool_block_def code_block_def frame_map_size_def)
  have rd: "read_pmm (two_image pool_block code_block) 0x8100 = pool_pmm" by (simp add: two_read [OF two] pool_pmm_def)
  have k: "kpm pool_kstate = pool_pmm" "fb (sys pool_kstate) = fb demo_sys" by (simp_all add: pool_kstate_def demo_kstate_def)
  have bm: "boot_memory (?k\<lparr>kpm := read_pmm (kmem ?k) (physical_memory ?s), sys := ?s\<rparr>)"
    using pool_boot k by (simp add: boot_memory_def rd)
  have "0x8000 \<notin> pmm_free pool_pmm"
  proof
    assume "0x8000 \<in> pmm_free pool_pmm"
    then obtain i where "i < 64" "(0x8000 :: u64) = frame_addr pool_block i" unfolding pool_free by auto
    then show False using unat_frame_addr [of pool_block i] pmm_ok_nth [OF pool_ok, of 0]
      by (simp add: pool_block_def pool_pmm_def)
  qed
  then have sa: "set_aside {0x8000} (read_pmm (kmem ?k) (physical_memory ?s))" by (simp add: set_aside_def rd)
  have "paging_cost (?k\<lparr>kpm := pool_pmm, sys := ?s\<rparr>) = 17" using pool_cost k by (simp add: paging_cost_def)
  then show ?thesis
    using kernel_start_one_memory [OF bm _ _ sa, of "''echOS''" "0x200000"] two_apart [OF two] two_set_aside [OF two] pool_card
    by (auto simp: rd Let_def pt_ok_def split: if_splits)
qed

end
