(* ===== verification/Idt.thy ===== *)
theory Idt
  imports Cstring
begin

text \<open>
  The interrupt descriptor table, \<^verbatim>\<open>kernel/idt.h\<close> and \<^verbatim>\<open>kernel/idt.c\<close>. Packed
  structures are byte layouts in memory. The allocator that \<^verbatim>\<open>idt_init\<close> is given is a
  parameter; the field \<open>reserved\<close> that \<^verbatim>\<open>idt_entry_create\<close> leaves uninitialised is an
  argument.
\<close>

section \<open>Data\<close>

record idt_entry_t =
  isr1 :: u16
  segment :: u16
  ist :: u8
  iflags :: u8
  isr2 :: u16
  isr3 :: u32
  reserved :: u32

record idt_desc_t =
  idt_limit :: u16
  idt_base :: u64

definition load_idt_entry :: "mem \<Rightarrow> u64 \<Rightarrow> idt_entry_t" where
  "load_idt_entry m p = \<lparr>isr1 = load16 m p, segment = load16 m (p + 2), ist = m (p + 4), iflags = m (p + 5),
     isr2 = load16 m (p + 6), isr3 = load32 m (p + 8), reserved = load32 m (p + 12)\<rparr>"

definition store_idt_entry :: "mem \<Rightarrow> u64 \<Rightarrow> idt_entry_t \<Rightarrow> mem" where
  "store_idt_entry m p e =
     (let m = store16 m p (isr1 e);
          m = store16 m (p + 2) (segment e);
          m = m(p + 4 := ist e);
          m = m(p + 5 := iflags e);
          m = store16 m (p + 6) (isr2 e);
          m = store32 m (p + 8) (isr3 e)
      in store32 m (p + 12) (reserved e))"

section \<open>Operations\<close>

text \<open>\<^verbatim>\<open>sidt\<close> and \<^verbatim>\<open>lidt\<close> read and write the register of the processor.\<close>

definition idt_get :: "idt_desc_t \<Rightarrow> idt_desc_t" where
  "idt_get idtr = idtr"

definition idt_set :: "idt_desc_t \<Rightarrow> idt_desc_t \<Rightarrow> idt_desc_t" where
  "idt_set idtr idt = idt"

definition idt_init :: "('s \<Rightarrow> u64 \<Rightarrow> u64 \<times> 's) \<Rightarrow> 's \<Rightarrow> mem \<Rightarrow> u64 \<times> 's \<times> mem" where
  "idt_init malloc s m =
     (let len = 16 * 256 :: u64;
          (idt, s) = malloc s 10;
          m = store16 m idt (ucast (len - 1));
          (b, s) = malloc s len;
          m = store64 m (idt + 2) b;
          (_, m) = memset m (load64 m (idt + 2)) 0 len
      in (idt, s, m))"

definition idt_entry_create :: "u32 \<Rightarrow> u64 \<Rightarrow> u16 \<Rightarrow> u8 \<Rightarrow> u8 \<Rightarrow> idt_entry_t" where
  "idt_entry_create junk isr seg i fl =
     \<lparr>isr1 = ucast (isr AND 0xFFFF), segment = seg, ist = i, iflags = fl,
      isr2 = ucast (drop_bit 16 isr AND 0xFFFF), isr3 = ucast (drop_bit 32 isr), reserved = junk\<rparr>"

definition idt_entry_add :: "mem \<Rightarrow> u64 \<Rightarrow> u8 \<Rightarrow> idt_entry_t \<Rightarrow> mem" where
  "idt_entry_add m desc index e =
     (let ptr = load64 m (desc + 2) in store_idt_entry m (ptr + 16 * ucast index) e)"

text \<open>
  The address \<^verbatim>\<open>dump_idt_entry\<close> prints: \<^verbatim>\<open>isr2\<close> is promoted to the signed 32-bit
  \<^verbatim>\<open>int\<close> before the shift, and the result is widened with its sign.
\<close>

definition dump_isr :: "idt_entry_t \<Rightarrow> u64" where
  "dump_isr e =
     (let isr = ucast (isr3 e);
          isr = push_bit 32 isr;
          isr = isr OR scast (push_bit 16 (ucast (isr2 e)) :: u32)
      in isr OR ucast (isr1 e))"

definition dump_idt_entry :: "idt_entry_t \<Rightarrow> printed" where
  "dump_idt_entry e =
     [((''isr = 0x%x, segment = 0x%x, ist = 0x%x, flags = 0x%x'' @ nl),
       [PInt (dump_isr e), PInt (ucast (segment e)), PInt (ucast (ist e)), PInt (ucast (iflags e))])]"

text \<open>
  The counter of the loop is 16 bits wide; it ends before 4096, the largest number of entries.
  \<^verbatim>\<open>idt.limit + 1\<close> is computed as \<^verbatim>\<open>int\<close> and does not wrap.
\<close>

function dump_idt_loop :: "mem \<Rightarrow> u64 \<Rightarrow> nat \<Rightarrow> nat \<Rightarrow> printed" where
  "dump_idt_loop m b count counter =
     (if counter < count
      then (''IDT %d: '', [PInt (of_nat counter)]) #
        dump_idt_entry (load_idt_entry m (b + of_nat (counter * 16))) @
        dump_idt_loop m b count (Suc counter)
      else [])"
  by pat_completeness auto
termination
  by (relation "measure (\<lambda>(m, b, count, counter). count - counter)") auto

definition dump_idt :: "mem \<Rightarrow> idt_desc_t \<Rightarrow> printed" where
  "dump_idt m idt =
     (let count = (unat (idt_limit idt) + 1) div 16 in
      ((''IDTR Base: 0x%x, Limit: 0x%x'' @ nl), [PInt (idt_base idt), PInt (ucast (idt_limit idt))]) #
      dump_idt_loop m (idt_base idt) count 0)"

declare dump_idt_loop.simps [simp del]

section \<open>The processor's reading of a gate\<close>

definition gate_offset :: "idt_entry_t \<Rightarrow> u64" where
  "gate_offset e = ucast (isr1 e) OR push_bit 16 (ucast (isr2 e)) OR push_bit 32 (ucast (isr3 e))"

lemma idt_masks: "(0xFFFF :: u64) = mask 16"
  by (simp add: mask_eq_exp_minus_1)

lemma gate_offset_create: "gate_offset (idt_entry_create junk isr seg i fl) = isr"
proof (rule bit_word_eqI)
  fix n :: nat
  consider "n < 16" | "16 \<le> n" "n < 32" | "32 \<le> n" "n < 64" | "64 \<le> n" by linarith
  then show "bit (gate_offset (idt_entry_create junk isr seg i fl)) n = bit isr n"
    by cases (auto simp: gate_offset_def idt_entry_create_def idt_masks bit_simps less_diff_conv2
        dest: bit_imp_le_length)
qed

text \<open>A field written inside the 16 bytes of an entry is read back when later fields are written elsewhere.\<close>

lemma load_byte_upd:
  assumes "\<And>i. i < n \<Longrightarrow> b + of_nat i \<noteq> a"
  shows "load_le (m(a := v)) b n = load_le m b n"
  by (rule load_le_cong) (use assms in auto)

lemma offset_neq:
  assumes "i < 16" and "j < 16" and "i \<noteq> j"
  shows "p + of_nat i \<noteq> p + (of_nat j :: u64)"
proof -
  have "unat (of_nat i :: u64) = i" "unat (of_nat j :: u64) = j"
    using assms by (intro unat_of_nat_u64; simp)+
  then show ?thesis using assms(3) by (metis add_left_cancel)
qed

lemma apart_offsets:
  assumes "i + n \<le> 16" and "j + k \<le> 16" and "i + n \<le> j \<or> j + k \<le> i"
  shows "apart (p + of_nat i) n (p + of_nat j) k"
  unfolding apart_def
proof (intro allI impI)
  fix l assume l: "l < k"
  show "n \<le> unat (p + of_nat j + of_nat l - (p + of_nat i))"
  proof (cases "i + n \<le> j")
    case True
    have "p + of_nat j + of_nat l - (p + of_nat i) = of_nat (j + l - i)"
      using True by (simp add: of_nat_diff)
    moreover have "unat (of_nat (j + l - i) :: u64) = j + l - i" using assms l by (intro unat_of_nat_u64) simp
    ultimately have "unat (p + of_nat j + of_nat l - (p + of_nat i)) = j + l - i" by (simp only:)
    then show ?thesis using True by linarith
  next
    case False
    then have le: "j + l < i" using assms(3) l by simp
    have "p + of_nat j + of_nat l - (p + of_nat i) = of_nat (j + l) - of_nat i" by simp
    moreover have "unat (of_nat (j + l) :: u64) = j + l" "unat (of_nat i :: u64) = i"
      using assms l by (intro unat_of_nat_u64; simp)+
    ultimately have "unat (p + of_nat j + of_nat l - (p + of_nat i)) = 2 ^ 64 + (j + l) - i"
      using le by (simp only: unat_sub_if' size_word_def) simp
    then show ?thesis using assms by simp
  qed
qed

lemma idt_fields_apart:
  "apart p 2 (p + 2) 2" "apart p 2 (p + 6) 2" "apart p 2 (p + 8) 4" "apart p 2 (p + 12) 4"
  "apart (p + 2) 2 p 2" "apart (p + 2) 2 (p + 6) 2" "apart (p + 2) 2 (p + 8) 4" "apart (p + 2) 2 (p + 12) 4"
  "apart (p + 6) 2 p 2" "apart (p + 6) 2 (p + 2) 2" "apart (p + 6) 2 (p + 8) 4" "apart (p + 6) 2 (p + 12) 4"
  "apart (p + 8) 4 p 2" "apart (p + 8) 4 (p + 2) 2" "apart (p + 8) 4 (p + 6) 2" "apart (p + 8) 4 (p + 12) 4"
  "apart (p + 12) 4 p 2" "apart (p + 12) 4 (p + 2) 2" "apart (p + 12) 4 (p + 6) 2" "apart (p + 12) 4 (p + 8) 4"
  using apart_offsets [of 0 2 2 2 p] apart_offsets [of 0 2 6 2 p] apart_offsets [of 0 2 8 4 p]
    apart_offsets [of 0 2 12 4 p] apart_offsets [of 2 2 0 2 p] apart_offsets [of 2 2 6 2 p]
    apart_offsets [of 2 2 8 4 p] apart_offsets [of 2 2 12 4 p] apart_offsets [of 6 2 0 2 p]
    apart_offsets [of 6 2 2 2 p] apart_offsets [of 6 2 8 4 p] apart_offsets [of 6 2 12 4 p]
    apart_offsets [of 8 4 0 2 p] apart_offsets [of 8 4 2 2 p] apart_offsets [of 8 4 6 2 p]
    apart_offsets [of 8 4 12 4 p] apart_offsets [of 12 4 0 2 p] apart_offsets [of 12 4 2 2 p]
    apart_offsets [of 12 4 6 2 p] apart_offsets [of 12 4 8 4 p]
  by simp_all

text \<open>Bytes outside a stored field, and words that do not contain an updated byte.\<close>

lemma store_le_byte:
  assumes "i + n \<le> 16" and "j < 16" and "j < i \<or> i + n \<le> j"
  shows "store_le m (p + of_nat i) n v (p + of_nat j) = m (p + of_nat j)"
  using apart_offsets [of i n j 1 p] assms by (auto simp: apart_def store_le_def)

lemma byte_upd_load:
  assumes "i < 16" and "j + n \<le> 16" and "i < j \<or> j + n \<le> i"
  shows "load_le (m(p + of_nat i := v)) (p + of_nat j) n = load_le m (p + of_nat j) n"
proof (rule load_byte_upd)
  fix k assume "k < n"
  then show "p + of_nat j + of_nat k \<noteq> p + of_nat i"
    using offset_neq [of "j + k" i p] assms by (auto simp: add.assoc)
qed

lemmas idt_field_bytes =
  store_le_byte [of 6 2 4] store_le_byte [of 8 4 4] store_le_byte [of 12 4 4]
  store_le_byte [of 6 2 5] store_le_byte [of 8 4 5] store_le_byte [of 12 4 5]
  byte_upd_load [of 4 0 2] byte_upd_load [of 4 2 2] byte_upd_load [of 5 0 2] byte_upd_load [of 5 2 2]

lemma load_store_idt_entry: "load_idt_entry (store_idt_entry m p e) p = e"
proof -
  have "p + 4 \<noteq> p + (5 :: u64)" using offset_neq [of 4 5 p] by simp
  then show ?thesis
    unfolding load_idt_entry_def store_idt_entry_def Let_def
    by (simp add: load_store_same load_store_other idt_fields_apart idt_field_bytes [where p = p, simplified])
qed

lemma store_le_far:
  assumes "16 \<le> unat (x - p)" and "k + n \<le> 16"
  shows "store_le m (p + of_nat k) n v x = m x"
proof -
  have u: "unat (of_nat k :: u64) = k" using assms(2) by (intro unat_of_nat_u64) simp
  have "unat ((x - p) - of_nat k) = unat (x - p) - k"
    using assms u by (subst unat_sub_le) simp_all
  then have "\<not> unat (x - (p + of_nat k)) < n" using assms by (simp add: diff_diff_eq)
  then show ?thesis by (simp add: store_le_def)
qed

lemma byte_far:
  fixes x p :: u64
  assumes "16 \<le> unat (x - p)" and "k < 16"
  shows "x \<noteq> p + of_nat k"
proof
  assume "x = p + of_nat k"
  then have "unat (x - p) = k" using assms(2) unat_of_nat_u64 [of k] by simp
  then show False using assms by simp
qed

lemma store_idt_entry_far:
  assumes "16 \<le> unat (x - p)"
  shows "store_idt_entry m p e x = m x"
  using byte_far [OF assms, of 4] byte_far [OF assms, of 5]
  by (simp add: store_idt_entry_def Let_def store_le_far [OF assms, of 0 2, simplified]
      store_le_far [OF assms, of 2 2, simplified] store_le_far [OF assms, of 6 2, simplified]
      store_le_far [OF assms, of 8 4, simplified] store_le_far [OF assms, of 12 4, simplified])

lemma load_field_cong:
  assumes "\<And>i. i < 16 \<Longrightarrow> m (p + of_nat i) = m' (p + of_nat i)" and "k + n \<le> 16"
  shows "load_le m (p + of_nat k) n = load_le m' (p + of_nat k) n"
proof (rule load_le_cong)
  fix i assume "i < n"
  then show "m (p + of_nat k + of_nat i) = m' (p + of_nat k + of_nat i)"
    using assms(1) [of "k + i"] assms(2) by (simp add: add.assoc)
qed

lemma load_idt_entry_cong:
  assumes "\<And>i. i < 16 \<Longrightarrow> m (p + of_nat i) = m' (p + of_nat i)"
  shows "load_idt_entry m p = load_idt_entry m' p"
proof -
  have l2: "load16 m (p + of_nat k) = load16 m' (p + of_nat k)" if "k + 2 \<le> 16" for k
    by (rule load_field_cong [where m = m and m' = m' and p = p]) (use assms that in auto)
  have l4: "load32 m (p + of_nat k) = load32 m' (p + of_nat k)" if "k + 4 \<le> 16" for k
    by (rule load_field_cong [where m = m and m' = m' and p = p]) (use assms that in auto)
  show ?thesis
    using assms [of 4] assms [of 5] l2 [of 0] l2 [of 2] l2 [of 6] l4 [of 8] l4 [of 12]
    by (simp add: load_idt_entry_def)
qed

text \<open>A table of 256 gates below the top of memory and apart from its descriptor.\<close>

definition idt_room :: "mem \<Rightarrow> u64 \<Rightarrow> bool" where
  "idt_room m desc \<longleftrightarrow>
     (let b = unat (load64 m (desc + 2)) in
      b + 4096 \<le> 2 ^ 64 \<and> unat desc + 10 \<le> 2 ^ 64 \<and> (b + 4096 \<le> unat desc \<or> unat desc + 10 \<le> b))"

definition idt_entry_at :: "mem \<Rightarrow> u64 \<Rightarrow> u8 \<Rightarrow> idt_entry_t" where
  "idt_entry_at m desc index = load_idt_entry m (load64 m (desc + 2) + 16 * ucast index)"

lemma idt_slot:
  assumes "unat (b :: u64) + 4096 \<le> 2 ^ 64"
  shows "unat (b + 16 * ucast (i :: u8)) = unat b + 16 * unat i" and "16 * unat i + 16 \<le> 4096"
proof -
  have i: "unat i < 256" using unsigned_less [of i, where 'a = nat] by simp
  then show "16 * unat i + 16 \<le> 4096" by simp
  have "unat (ucast i :: u64) = unat i" by (simp add: unsigned_ucast_eq take_bit_nat_eq_self less_trans [OF i])
  then have "unat (16 * ucast i :: u64) = 16 * unat i" using i by (subst unat_mult_nowrap) auto
  then show "unat (b + 16 * ucast i) = unat b + 16 * unat i" using assms i by (subst unat_add_nowrap) auto
qed

lemma idt_entry_add_far:
  assumes "idt_room m desc"
    and "unat x < unat (load64 m (desc + 2)) + 16 * unat i \<or> unat (load64 m (desc + 2)) + 16 * unat i + 16 \<le> unat x"
  shows "idt_entry_add m desc i e x = m x"
proof -
  let ?b = "load64 m (desc + 2)"
  have b: "unat ?b + 4096 \<le> 2 ^ 64" using assms(1) by (simp add: idt_room_def Let_def)
  have "16 \<le> unat (x - (?b + 16 * ucast i))"
    using apartI [of "?b + 16 * ucast i" 16 x 1] assms(2) idt_slot [OF b, of i] b unat_lt_u64 [of x]
    by (auto simp: apart_def)
  then show ?thesis by (simp add: idt_entry_add_def Let_def store_idt_entry_far)
qed

section \<open>Properties\<close>

text \<open>
  C28: After \<^verbatim>\<open>idt_entry_add\<close> of an entry built by \<^verbatim>\<open>idt_entry_create\<close>, the
  processor finds at the index a gate to exactly the handler, with its segment, stack index and
  flags; every other gate and the descriptor are as before.
\<close>

theorem idt_entry_add_installs:
  assumes "idt_room m desc" and "e = idt_entry_create junk isr seg i fl"
    and "m' = idt_entry_add m desc index e"
  shows "gate_offset (idt_entry_at m' desc index) = isr \<and> segment (idt_entry_at m' desc index) = seg \<and>
    ist (idt_entry_at m' desc index) = i \<and> iflags (idt_entry_at m' desc index) = fl \<and>
    (\<forall>j. j \<noteq> index \<longrightarrow> idt_entry_at m' desc j = idt_entry_at m desc j) \<and>
    load16 m' desc = load16 m desc \<and> load64 m' (desc + 2) = load64 m (desc + 2)"
proof -
  let ?b = "load64 m (desc + 2)"
  have r: "unat ?b + 4096 \<le> 2 ^ 64" "unat desc + 10 \<le> 2 ^ 64"
      "unat ?b + 4096 \<le> unat desc \<or> unat desc + 10 \<le> unat ?b"
    using assms(1) by (simp_all add: idt_room_def Let_def)
  note s = idt_slot [OF r(1)] and far = idt_entry_add_far [OF assms(1)]
  have desc_byte: "m' (desc + of_nat k) = m (desc + of_nat k)" if "k < 10" for k
  proof -
    have "unat (desc + of_nat k) = unat desc + k" using r(2) that by (intro unat_add_of_nat) simp
    then show ?thesis unfolding assms(3) using r(3) that s(2) [of index] by (intro far) auto
  qed
  have l: "load16 m' desc = load16 m desc" using desc_byte by (intro load_le_cong) simp
  have p: "load64 m' (desc + 2) = ?b"
    using desc_byte [of "2 + _"] by (intro load_le_cong) (simp add: add.assoc)
  have here: "idt_entry_at m' desc index = e"
    unfolding idt_entry_at_def p by (simp add: assms(3) idt_entry_add_def Let_def load_store_idt_entry)
  have other: "idt_entry_at m' desc j = idt_entry_at m desc j" if "j \<noteq> index" for j
    unfolding idt_entry_at_def p
  proof (rule load_idt_entry_cong)
    fix k :: nat assume k: "k < 16"
    have "unat (?b + 16 * ucast j + of_nat k) = unat ?b + 16 * unat j + k"
      using s [of j] r(1) k by (subst unat_add_of_nat) simp_all
    moreover have "unat j \<noteq> unat index" using that by (simp add: word_unat_eq_iff)
    ultimately show "m' (?b + 16 * ucast j + of_nat k) = m (?b + 16 * ucast j + of_nat k)"
      unfolding assms(3) using k by (intro far) linarith
  qed
  show ?thesis
    using here other l p gate_offset_create [of junk isr seg i fl] by (simp add: assms(2) idt_entry_create_def)
qed

theorem idt_entry_add_installs_witness:
  "gate_offset (idt_entry_at (idt_entry_add (\<lambda>_. 0) 0x8000 14 (idt_entry_create 0 0xFFFF800012345678 8 0 0x8E)) 0x8000 14) =
     0xFFFF800012345678"
proof -
  have "load64 (\<lambda>_. 0) (0x8000 + 2) = 0" by code_simp
  then have "idt_room (\<lambda>_. 0) 0x8000" by (simp add: idt_room_def)
  from idt_entry_add_installs [OF this refl refl, where isr = "0xFFFF800012345678"] show ?thesis by blast
qed

text \<open>
  C29: \<^verbatim>\<open>idt_init\<close>, with an allocator that returns room for the descriptor and for the
  table, apart from each other, gives a descriptor with limit 4095 for a table whose 256 gates are
  all zero, so that no gate is present.
\<close>

theorem idt_init_clear:
  assumes "malloc s 10 = (desc, s1)" and "malloc s1 4096 = (tab, s2)"
    and "unat desc + 10 \<le> 2 ^ 64" and "unat tab + 4096 \<le> 2 ^ 64"
    and "unat tab + 4096 \<le> unat desc \<or> unat desc + 10 \<le> unat tab"
    and "idt_init malloc s m = (desc', s', m')"
  shows "desc' = desc \<and> s' = s2 \<and> load16 m' desc = 4095 \<and> load64 m' (desc + 2) = tab \<and>
    idt_room m' desc \<and>
    (\<forall>i. idt_entry_at m' desc i = \<lparr>isr1 = 0, segment = 0, ist = 0, iflags = 0, isr2 = 0, isr3 = 0, reserved = 0\<rparr>)"
proof -
  let ?m2 = "store64 (store16 m desc 4095) (desc + 2) tab"
  have l: "load64 ?m2 (desc + 2) = tab" by (simp add: load_store_same)
  then have m': "m' = fill ?m2 tab 4096 0" "desc' = desc" "s' = s2"
    using assms(1,2,6) by (auto simp: idt_init_def memset_fill)
  have d2: "unat (desc + 2) = unat desc + 2" using assms(3) by (subst unat_add_nowrap) simp_all
  have "apart tab 4096 desc 2" "apart tab 4096 (desc + 2) 8"
    using assms(3-5) d2 by (intro apartI; linarith)+
  moreover have "apart (desc + 2) 8 desc 2" using assms(3) d2 by (intro apartI) linarith+
  ultimately have d: "load16 m' desc = 4095" "load64 m' (desc + 2) = tab"
    unfolding m' by (simp_all add: load_fill_other load_store_other load_store_same)
  have "load_idt_entry m' (tab + 16 * ucast i) = load_idt_entry (\<lambda>_. 0) (tab + 16 * ucast i)" for i :: u8
  proof (rule load_idt_entry_cong)
    fix k :: nat assume k: "k < 16"
    note s = idt_slot [OF assms(4), of i]
    have "unat (tab + 16 * ucast i + of_nat k) = unat tab + 16 * unat i + k"
      using s assms(4) k by (subst unat_add_of_nat) simp_all
    then have "unat (tab + 16 * ucast i + of_nat k - tab) = 16 * unat i + k"
      by (subst unat_sub_le) simp_all
    then show "m' (tab + 16 * ucast i + of_nat k) = 0" using s(2) k unfolding m' fill_def by simp
  qed
  moreover have "load_idt_entry (\<lambda>_. 0) p =
      \<lparr>isr1 = 0, segment = 0, ist = 0, iflags = 0, isr2 = 0, isr3 = 0, reserved = 0\<rparr>" for p
    by (simp add: load_idt_entry_def numeral_eq_Suc)
  ultimately show ?thesis
    using m' d assms(3-5) by (simp add: idt_entry_at_def idt_room_def Let_def)
qed

text \<open>An allocator that hands out consecutive regions.\<close>

definition bump_malloc :: "u64 \<Rightarrow> u64 \<Rightarrow> u64 \<times> u64" where
  "bump_malloc s n = (s, s + n)"

theorem idt_init_clear_witness:
  "\<exists>s' m'. idt_init bump_malloc 0x9000 (\<lambda>_. 7) = (0x9000, s', m') \<and> load16 m' 0x9000 = 4095 \<and>
    gate_offset (idt_entry_at m' 0x9000 200) = 0"
proof -
  obtain desc' s' m' where r: "idt_init bump_malloc 0x9000 (\<lambda>_. 7) = (desc', s', m')"
    by (metis prod_cases3)
  have "bump_malloc 0x9000 10 = (0x9000, 0x900A)" "bump_malloc 0x900A 4096 = (0x900A, 0xA00A)"
    by (simp_all add: bump_malloc_def)
  from idt_init_clear [OF this _ _ _ r] show ?thesis
    using r by (auto simp: gate_offset_def)
qed

text \<open>
  \<^verbatim>\<open>dump_idt_entry\<close> prints the handler's address unchanged only when its bit 31 is
  clear; otherwise the upper 32 bits of what it prints are all set, whatever they were.
\<close>

theorem dump_isr_value:
  "dump_isr (idt_entry_create junk isr seg i fl) =
     (if bit isr 31 then isr OR 0xFFFFFFFF00000000 else isr)"
proof -
  have h: "(0xFFFFFFFF00000000 :: u64) = mask 64 AND NOT (mask 32)" by (simp add: mask_eq_exp_minus_1)
  show ?thesis
  proof (rule bit_word_eqI)
    fix n :: nat
    assume "n < LENGTH(64)"
    then consider "n < 16" | "16 \<le> n" "n < 32" | "32 \<le> n" "n < 64" by fastforce
    then show "bit (dump_isr (idt_entry_create junk isr seg i fl)) n =
        bit (if bit isr 31 then isr OR 0xFFFFFFFF00000000 else isr) n"
      unfolding h dump_isr_def idt_entry_create_def idt_masks Let_def
      by cases (auto simp: bit_simps less_diff_conv2)
  qed
qed

end
