(* ===== verification/Acpi.thy ===== *)
theory Acpi
  imports Cstring
begin

text \<open>
  The ACPI tables, \<^verbatim>\<open>kernel/acpi/acpi.h\<close>, \<^verbatim>\<open>madt.c\<close> and \<^verbatim>\<open>xsdt.c\<close>. The tables are
  packed structures in memory, written by the firmware; each accessor below is one field. Counting
  the processors of the MADT is a partial function, since a record of length 0 makes it run forever.
\<close>

section \<open>Fields\<close>

text \<open>The header of a system description table: 36 bytes, the length at offset 4.\<close>

definition sdt_length :: "mem \<Rightarrow> u64 \<Rightarrow> u32" where
  "sdt_length m header = load32 m (header + 4)"

text \<open>The RSDP of ACPI 2.0: the address of the XSDT after the 20 bytes of the first version and the length.\<close>

definition rsdp_xsdt_address :: "mem \<Rightarrow> u64 \<Rightarrow> u64" where
  "rsdp_xsdt_address m rsdp = load64 m (rsdp + 24)"

definition madt_entry_type :: "mem \<Rightarrow> u64 \<Rightarrow> u8" where
  "madt_entry_type m entry = m entry"

definition madt_record_length :: "mem \<Rightarrow> u64 \<Rightarrow> u8" where
  "madt_record_length m entry = m (entry + 1)"

text \<open>The entries of the XSDT start after its header.\<close>

definition xsdt_ptr :: "mem \<Rightarrow> u64 \<Rightarrow> nat \<Rightarrow> u64" where
  "xsdt_ptr m xsdt i = load64 m (xsdt + 36 + 8 * of_nat i)"

section \<open>Operations\<close>

partial_function (option) madt_loop :: "mem \<Rightarrow> u64 \<Rightarrow> u64 \<Rightarrow> u64 \<Rightarrow> u64 \<Rightarrow> u64 option" where
  "madt_loop m entries_size pos offset count =
     (if pos < entries_size
      then let count = (if madt_entry_type m offset = 0 then count + 1 else count) in
        madt_loop m entries_size (pos + ucast (madt_record_length m offset))
          (offset + ucast (madt_record_length m offset)) count
      else Some count)"

definition madt_get_processor_local_apic_count :: "mem \<Rightarrow> u64 \<Rightarrow> u64 option" where
  "madt_get_processor_local_apic_count m apic =
     madt_loop m (ucast (sdt_length m apic) - 44) 0 (apic + 44) 0"

function xsdt_loop :: "mem \<Rightarrow> u64 \<Rightarrow> u64 \<Rightarrow> u64 \<Rightarrow> nat \<Rightarrow> u64" where
  "xsdt_loop m xsdt signature tableCount i =
     (if i < unat tableCount
      then let header = xsdt_ptr m xsdt i in
        if memcmp m header signature 4 \<noteq> 0 then xsdt_loop m xsdt signature tableCount (Suc i)
        else header
      else 0)"
  by pat_completeness auto
termination
  by (relation "measure (\<lambda>(m, x, s, n, i). unat n - i)") auto

definition xsdt_get_table :: "mem \<Rightarrow> u64 \<Rightarrow> u64 \<Rightarrow> u64" where
  "xsdt_get_table m rsdp signature =
     (let xsdt = rsdp_xsdt_address m rsdp;
          tableCount = (ucast (sdt_length m xsdt) - 36) div 8
      in xsdt_loop m xsdt signature tableCount 0)"

declare xsdt_loop.simps [simp del]

section \<open>The records of the MADT\<close>

text \<open>
  \<open>madt_records m offset sz rs\<close>: the \<open>sz\<close> bytes at \<open>offset\<close> are exactly the records
  \<open>rs\<close>, each with its type and a length of at least two bytes.
\<close>

fun madt_records :: "mem \<Rightarrow> u64 \<Rightarrow> nat \<Rightarrow> (u8 \<times> nat) list \<Rightarrow> bool" where
  "madt_records m offset sz [] \<longleftrightarrow> sz = 0"
| "madt_records m offset sz ((t, n) # rs) \<longleftrightarrow>
     madt_entry_type m offset = t \<and> unat (madt_record_length m offset) = n \<and> 2 \<le> n \<and> n \<le> sz \<and>
     madt_records m (offset + of_nat n) (sz - n) rs"

lemma madt_loop_records:
  assumes "madt_records m offset (unat sz - unat pos) rs" and "unat pos \<le> unat sz"
  shows "madt_loop m sz pos offset count = Some (count + of_nat (length (filter (\<lambda>(t, n). t = 0) rs)))"
  using assms
proof (induction rs arbitrary: pos offset count)
  case Nil
  then have "\<not> pos < sz" by (simp add: word_less_nat_alt)
  then show ?case by (subst madt_loop.simps) simp
next
  case (Cons r rs)
  obtain t n where r: "r = (t, n)" by (cases r)
  let ?len = "ucast (madt_record_length m offset) :: u64"
  have p: "madt_entry_type m offset = t" "unat (madt_record_length m offset) = n" "2 \<le> n"
      "n \<le> unat sz - unat pos" "madt_records m (offset + of_nat n) (unat sz - unat pos - n) rs"
    using Cons.prems(1) r by simp_all
  have len: "?len = of_nat n"
    using p(2) unat_of_nat_u64 [of n] unsigned_less [of "madt_record_length m offset", where 'a = nat]
    by (simp add: word_unat_eq_iff)
  have lt: "pos < sz" using p(3,4) by (simp add: word_less_nat_alt)
  have "unat pos + n \<le> unat sz" using p(4) Cons.prems(2) by linarith
  then have "unat pos + n < 2 ^ 64" by (rule le_less_trans) simp
  then have u: "unat (pos + of_nat n) = unat pos + n" by (rule unat_add_of_nat)
  have "madt_loop m sz (pos + of_nat n) (offset + of_nat n) c =
      Some (c + of_nat (length (filter (\<lambda>(t, n). t = 0) rs)))" for c
    using p Cons.prems(2) u by (intro Cons.IH) simp_all
  then show ?case
    using lt r p(1) by (subst madt_loop.simps) (simp add: Let_def len)
qed

text \<open>A record of length 0 before the end is never left.\<close>

lemma madt_loop_stuck:
  assumes "madt_loop m sz pos offset count = Some c" and "pos < sz"
  shows "madt_record_length m offset \<noteq> 0"
  using assms
proof (induction rule: madt_loop.raw_induct [rotated, consumes 1])
  case (1 loop m sz pos offset count c)
  then show ?case by (auto simp: Let_def split: if_splits)
qed

section \<open>Properties\<close>

text \<open>
  C30: When the MADT is a sequence of records that exactly fills its length,
  \<^verbatim>\<open>madt_get_processor_local_apic_count\<close> terminates with the number of records of type 0.
\<close>

theorem madt_count_correct:
  assumes "44 \<le> unat (sdt_length m apic)"
    and "madt_records m (apic + 44) (unat (sdt_length m apic) - 44) rs"
  shows "madt_get_processor_local_apic_count m apic =
    Some (of_nat (length (filter (\<lambda>(t, n). t = 0) rs)))"
proof -
  have "unat (ucast (sdt_length m apic) :: u64) = unat (sdt_length m apic)"
    by simp
  then have "unat (ucast (sdt_length m apic) - 44 :: u64) = unat (sdt_length m apic) - 44"
    using assms(1) by (subst unat_sub_le) simp_all
  then show ?thesis
    using madt_loop_records [of m "apic + 44" "ucast (sdt_length m apic) - 44" 0 rs 0] assms(2)
    by (simp add: madt_get_processor_local_apic_count_def)
qed

text \<open>A MADT at 0x1000 with a processor, an I/O APIC and another processor.\<close>

definition demo_madt :: mem where
  "demo_madt = (\<lambda>a.
     if a = 0x1004 then 72 else if a = 0x102D then 8
     else if a = 0x1034 then 1 else if a = 0x1035 then 12
     else if a = 0x1041 then 8 else 0)"

theorem madt_count_correct_witness:
  "madt_get_processor_local_apic_count demo_madt 0x1000 = Some 2"
proof -
  have l: "sdt_length demo_madt 0x1000 = 72" by (simp add: sdt_length_def demo_madt_def load_le_bytes)
  have "madt_records demo_madt (0x1000 + 44) (unat (sdt_length demo_madt 0x1000) - 44) [(0, 8), (1, 12), (0, 8)]"
    unfolding l by (simp add: madt_entry_type_def madt_record_length_def demo_madt_def)
  from madt_count_correct [OF _ this] show ?thesis by (simp add: l)
qed

text \<open>
  C31: A record of length 0 that starts before the end of the MADT makes
  \<^verbatim>\<open>madt_get_processor_local_apic_count\<close> run forever.
\<close>

theorem madt_count_diverges:
  assumes "44 < unat (sdt_length m apic)" and "madt_record_length m (apic + 44) = 0"
  shows "madt_get_processor_local_apic_count m apic = None"
proof (rule ccontr)
  have u: "unat (ucast (sdt_length m apic) - 44 :: u64) = unat (sdt_length m apic) - 44"
    using assms(1) by (subst unat_sub_le) simp_all
  assume "madt_get_processor_local_apic_count m apic \<noteq> None"
  then obtain c where "madt_loop m (ucast (sdt_length m apic) - 44) 0 (apic + 44) 0 = Some c"
    by (auto simp: madt_get_processor_local_apic_count_def)
  moreover have "0 < (ucast (sdt_length m apic) - 44 :: u64)" using u assms(1) by (simp add: word_less_nat_alt)
  ultimately show False using madt_loop_stuck assms(2) by blast
qed

theorem madt_count_diverges_witness:
  "madt_get_processor_local_apic_count (\<lambda>a. if a = 0x1004 then 72 else 0) 0x1000 = None"
proof -
  let ?m = "\<lambda>a :: u64. if a = 0x1004 then 72 else 0 :: u8"
  have "sdt_length ?m 0x1000 = 72" by (simp add: sdt_length_def load_le_bytes)
  then show ?thesis using madt_count_diverges [of ?m "0x1000"] by (simp add: madt_record_length_def)
qed

lemma xsdt_loop_first:
  assumes "i \<le> unat n"
  shows "xsdt_loop m xsdt sg n i =
    (case find (\<lambda>h. memcmp m h sg 4 = 0) (map (xsdt_ptr m xsdt) [i..<unat n]) of Some h \<Rightarrow> h | None \<Rightarrow> 0)"
  using assms
proof (induction m xsdt sg n i rule: xsdt_loop.induct)
  case (1 m xsdt sg n i)
  show ?case
  proof (cases "i < unat n")
    case True
    then have "[i..<unat n] = i # [Suc i..<unat n]" by (rule upt_conv_Cons)
    then show ?thesis using "1.IH" [OF True refl] True by (subst xsdt_loop.simps) (simp add: Let_def)
  next
    case False
    then show ?thesis by (subst xsdt_loop.simps) simp
  qed
qed

text \<open>
  C32: \<^verbatim>\<open>xsdt_get_table\<close> returns the first table of the XSDT whose four signature bytes are
  those asked for, and NULL when there is none.
\<close>

theorem xsdt_get_table_first:
  assumes "36 \<le> unat (sdt_length m (rsdp_xsdt_address m rsdp))"
  shows "xsdt_get_table m rsdp sg =
    (case find (\<lambda>h. \<forall>k < 4. m (h + of_nat k) = m (sg + of_nat k))
       (map (xsdt_ptr m (rsdp_xsdt_address m rsdp))
          [0..<(unat (sdt_length m (rsdp_xsdt_address m rsdp)) - 36) div 8]) of
       Some h \<Rightarrow> h | None \<Rightarrow> 0)"
proof -
  let ?x = "rsdp_xsdt_address m rsdp"
  have "unat (ucast (sdt_length m ?x) - 36 :: u64) = unat (sdt_length m ?x) - 36"
    using assms by (subst unat_sub_le) simp_all
  then have "unat ((ucast (sdt_length m ?x) - 36) div 8 :: u64) = (unat (sdt_length m ?x) - 36) div 8"
    by (simp add: unat_div)
  then show ?thesis
    by (simp add: xsdt_get_table_def Let_def xsdt_loop_first memcmp_eq_0)
qed

text \<open>An RSDP at 0, an XSDT at 0x100 with tables at 0x200 and 0x300, the second one wanted.\<close>

definition demo_xsdt :: mem where
  "demo_xsdt = (\<lambda>a.
     if a = 25 then 1 else if a = 0x104 then 52 else if a = 0x125 then 2 else if a = 0x12D then 3
     else if a = 0x200 then 70 else if a = 0x300 then 65 else if a = 0x400 then 65 else 0)"

theorem xsdt_get_table_first_witness: "xsdt_get_table demo_xsdt 0 0x400 = 0x300"
proof -
  have x: "rsdp_xsdt_address demo_xsdt 0 = 0x100"
    by (simp add: rsdp_xsdt_address_def demo_xsdt_def load_le_bytes)
  have l: "sdt_length demo_xsdt 0x100 = 52" by (simp add: sdt_length_def demo_xsdt_def load_le_bytes)
  have p: "map (xsdt_ptr demo_xsdt 0x100) [0..<2] = [0x200, 0x300]"
    by (simp add: xsdt_ptr_def demo_xsdt_def load_le_bytes upt_rec)
  have "\<not> (\<forall>k < 4. demo_xsdt (0x200 + of_nat k) = demo_xsdt (0x400 + of_nat k))"
    by (auto simp: demo_xsdt_def intro!: exI [of _ 0])
  moreover have "demo_xsdt (0x300 + of_nat k) = demo_xsdt (0x400 + of_nat k)" if "k < 4" for k
  proof -
    have "k = 0 \<or> k = 1 \<or> k = 2 \<or> k = 3" using that by linarith
    then show ?thesis by (auto simp: demo_xsdt_def)
  qed
  ultimately show ?thesis using xsdt_get_table_first [of demo_xsdt 0 "0x400"] by (simp add: x l p)
qed

end
