(* ===== verification/Stack64.thy ===== *)
theory Stack64
  imports Echos_Prelude
begin

text \<open>
  The stack of 64-bit words, \<^verbatim>\<open>include/stack.h\<close> and \<^verbatim>\<open>lib/stack.c\<close>. The structure
  at address \<open>s\<close> holds the array pointer at offset 0, the size at 8 and the stack pointer at 16.
  The contract of a stack is a locale; the abstraction of the structure is the list of its words.
\<close>

section \<open>Operations\<close>

definition stack64_push :: "mem \<Rightarrow> u64 \<Rightarrow> u64 \<Rightarrow> mem" where
  "stack64_push m s value =
     (let m = store64 m (load64 m s + 8 * load64 m (s + 16)) value
      in store64 m (s + 16) (load64 m (s + 16) + 1))"

definition stack64_pop :: "mem \<Rightarrow> u64 \<Rightarrow> u64 \<times> mem" where
  "stack64_pop m s =
     (let m = store64 m (s + 16) (load64 m (s + 16) - 1)
      in (load64 m (load64 m s + 8 * load64 m (s + 16)), m))"

section \<open>The contract of a stack\<close>

text \<open>Popping \<open>k\<close> times.\<close>

primrec pops :: "('s \<Rightarrow> 'a \<times> 's) \<Rightarrow> nat \<Rightarrow> 's \<Rightarrow> 'a list \<times> 's" where
  "pops pop 0 st = ([], st)"
| "pops pop (Suc k) st = (let (v, st) = pop st; (vs, st) = pops pop k st in (v # vs, st))"

text \<open>
  \<open>room st n\<close> says that the state \<open>st\<close> has room for \<open>n\<close> words; pushing within that
  room appends, popping what was pushed removes.
\<close>

locale bounded_stack =
  fixes room :: "'s \<Rightarrow> nat \<Rightarrow> bool"
    and contents :: "'s \<Rightarrow> 'a list"
    and push :: "'s \<Rightarrow> 'a \<Rightarrow> 's"
    and pop :: "'s \<Rightarrow> 'a \<times> 's"
  assumes push_room: "room st n \<Longrightarrow> length (contents st) < n \<Longrightarrow> room (push st v) n"
    and push_contents: "room st n \<Longrightarrow> length (contents st) < n \<Longrightarrow> contents (push st v) = contents st @ [v]"
    and pop_room: "room st n \<Longrightarrow> contents st \<noteq> [] \<Longrightarrow> room (snd (pop st)) n"
    and pop_value: "room st n \<Longrightarrow> contents st \<noteq> [] \<Longrightarrow> fst (pop st) = last (contents st)"
    and pop_contents: "room st n \<Longrightarrow> contents st \<noteq> [] \<Longrightarrow> contents (snd (pop st)) = butlast (contents st)"
begin

lemma push_many:
  assumes "room st n" and "length (contents st) + length vs \<le> n"
  shows "room (fold (\<lambda>v st. push st v) vs st) n \<and>
    contents (fold (\<lambda>v st. push st v) vs st) = contents st @ vs"
  using assms
proof (induction vs arbitrary: st)
  case (Cons v vs)
  then have "room (push st v) n" "contents (push st v) = contents st @ [v]"
    using push_room push_contents by simp_all
  then show ?case using Cons by simp
qed simp

lemma pop_many:
  assumes "room st n" and "contents st = ws @ vs"
  shows "fst (pops pop (length vs) st) = rev vs \<and> contents (snd (pops pop (length vs) st)) = ws \<and>
    room (snd (pops pop (length vs) st)) n"
  using assms
proof (induction vs arbitrary: st rule: rev_induct)
  case (snoc v vs)
  then have "contents st \<noteq> []" by simp
  note p = pop_room [OF snoc.prems(1) this] pop_value [OF snoc.prems(1) this] pop_contents [OF snoc.prems(1) this]
  then have "contents (snd (pop st)) = ws @ vs" "fst (pop st) = v"
    using snoc.prems(2) by (simp_all add: butlast_append)
  from snoc.IH [OF p(1) this(1)] this show ?case by (simp add: split_beta Let_def)
qed simp

text \<open>Pushing a list of words and popping as many gives them back in reverse order.\<close>

lemma push_pop_many:
  assumes "room st n" and "length (contents st) + length vs \<le> n"
  shows "fst (pops pop (length vs) (fold (\<lambda>v st. push st v) vs st)) = rev vs \<and>
    contents (snd (pops pop (length vs) (fold (\<lambda>v st. push st v) vs st))) = contents st"
  using push_many [OF assms] pop_many by blast

end

section \<open>The structure in memory\<close>

text \<open>The words on the stack, and an array of \<open>n\<close> words that does not meet the structure.\<close>

definition stack64_contents :: "u64 \<Rightarrow> mem \<Rightarrow> u64 list" where
  "stack64_contents s m = map (\<lambda>i. load64 m (load64 m s + 8 * of_nat i)) [0..<unat (load64 m (s + 16))]"

definition stack64_room :: "u64 \<Rightarrow> mem \<Rightarrow> nat \<Rightarrow> bool" where
  "stack64_room s m n \<longleftrightarrow>
     unat s + 24 \<le> 2 ^ 64 \<and> unat (load64 m s) + 8 * n \<le> 2 ^ 64 \<and> unat (load64 m (s + 16)) \<le> n \<and>
     (unat (load64 m s) + 8 * n \<le> unat s \<or> unat s + 24 \<le> unat (load64 m s))"

lemma stack64_slot:
  assumes "stack64_room s m n" and "i < n"
  shows "unat (load64 m s + 8 * of_nat i) = unat (load64 m s) + 8 * i"
proof -
  have "unat (load64 m s) + 8 * i < 2 ^ 64" using assms by (auto simp: stack64_room_def)
  then have "unat (load64 m s + of_nat (8 * i)) = unat (load64 m s) + 8 * i" by (rule unat_add_of_nat)
  then show ?thesis by simp
qed

lemma stack64_field:
  assumes "stack64_room s m n"
  shows "unat (s + 16) = unat s + 16"
  using assms by (subst unat_add_nowrap) (auto simp: stack64_room_def)

lemma stack64_fields_apart:
  assumes "stack64_room s m n"
  shows "apart (s + 16) 8 s 8"
  using assms stack64_field [OF assms] by (intro apartI) (auto simp: stack64_room_def)

lemma stack64_slot_apart:
  assumes "stack64_room s m n" and "i < n"
  shows "apart (load64 m s + 8 * of_nat i) 8 s 8" and "apart (load64 m s + 8 * of_nat i) 8 (s + 16) 8"
    and "apart (s + 16) 8 (load64 m s + 8 * of_nat i) 8"
proof -
  note r = assms(1) [unfolded stack64_room_def] and f = stack64_field [OF assms(1)] and u = stack64_slot [OF assms]
  show "apart (load64 m s + 8 * of_nat i) 8 s 8" "apart (load64 m s + 8 * of_nat i) 8 (s + 16) 8"
    "apart (s + 16) 8 (load64 m s + 8 * of_nat i) 8"
    using r f u assms(2) by (intro apartI; linarith)+
qed

lemma stack64_slots_apart:
  assumes "stack64_room s m n" and "i < n" and "j < n" and "i \<noteq> j"
  shows "apart (load64 m s + 8 * of_nat i) 8 (load64 m s + 8 * of_nat j) 8"
  using assms stack64_slot [OF assms(1,2)] stack64_slot [OF assms(1,3)]
  by (intro apartI) (auto simp: stack64_room_def)

lemma stack64_push_loads:
  assumes "stack64_room s m n" and "unat (load64 m (s + 16)) < n"
  shows "load64 (stack64_push m s v) s = load64 m s"
    and "load64 (stack64_push m s v) (s + 16) = load64 m (s + 16) + 1"
    and "i < n \<Longrightarrow> load64 (stack64_push m s v) (load64 m s + 8 * of_nat i) =
      (if i = unat (load64 m (s + 16)) then v else load64 m (load64 m s + 8 * of_nat i))"
proof -
  note top = stack64_slot_apart [OF assms] and f = stack64_fields_apart [OF assms(1)]
  show "load64 (stack64_push m s v) s = load64 m s"
    using top f by (simp add: stack64_push_def Let_def load_store_other)
  show "load64 (stack64_push m s v) (s + 16) = load64 m (s + 16) + 1"
    using top by (simp add: stack64_push_def Let_def load_store_other load_store_same)
  assume i: "i < n"
  show "load64 (stack64_push m s v) (load64 m s + 8 * of_nat i) =
      (if i = unat (load64 m (s + 16)) then v else load64 m (load64 m s + 8 * of_nat i))"
    using stack64_slot_apart(3) [OF assms(1) i] stack64_slots_apart [OF assms i]
    by (auto simp: stack64_push_def Let_def load_store_other load_store_same)
qed

lemma stack64_pop_loads:
  assumes "stack64_room s m n"
  shows "load64 (snd (stack64_pop m s)) s = load64 m s"
    and "load64 (snd (stack64_pop m s)) (s + 16) = load64 m (s + 16) - 1"
    and "i < n \<Longrightarrow> load64 (snd (stack64_pop m s)) (load64 m s + 8 * of_nat i) = load64 m (load64 m s + 8 * of_nat i)"
    and "fst (stack64_pop m s) = load64 (snd (stack64_pop m s)) (load64 m s + 8 * (load64 m (s + 16) - 1))"
  using stack64_fields_apart [OF assms] stack64_slot_apart(3) [OF assms]
  by (simp_all add: stack64_pop_def Let_def load_store_other load_store_same)

lemma length_stack64_contents [simp]: "length (stack64_contents s m) = unat (load64 m (s + 16))"
  by (simp add: stack64_contents_def)

interpretation stack64: bounded_stack "stack64_room s" "stack64_contents s"
  "\<lambda>m v. stack64_push m s v" "\<lambda>m. stack64_pop m s" for s
proof
  fix m n v
  assume room: "stack64_room s m n" and "length (stack64_contents s m) < n"
  then have lt: "unat (load64 m (s + 16)) < n" by simp
  note l = stack64_push_loads [OF room lt, where v = v]
  have "n \<le> 2 ^ 61" using room by (auto simp: stack64_room_def)
  then have u: "unat (load64 m (s + 16) + 1) = Suc (unat (load64 m (s + 16)))"
    using lt by (subst unat_add_nowrap) auto
  show "stack64_room s (stack64_push m s v) n"
    using room lt l(1,2) u by (simp add: stack64_room_def)
  show "stack64_contents s (stack64_push m s v) = stack64_contents s m @ [v]"
    using lt l(3) l(3) [OF lt] unfolding stack64_contents_def l(1,2) u by simp
next
  fix m n
  assume room: "stack64_room s m n" and "stack64_contents s m \<noteq> []"
  then have "length (stack64_contents s m) \<noteq> 0" by (simp del: length_stack64_contents)
  then have pos: "0 < unat (load64 m (s + 16))" by simp
  have le: "unat (load64 m (s + 16)) \<le> n" using room by (simp add: stack64_room_def)
  note l = stack64_pop_loads [OF room]
  have u: "unat (load64 m (s + 16) - 1) = unat (load64 m (s + 16)) - 1"
    using pos by (subst unat_sub_le) simp_all
  then have top: "load64 m (s + 16) - 1 = of_nat (unat (load64 m (s + 16)) - 1)"
    by (metis word_unat_eq_iff unat_of_nat_u64 less_unat_u64 diff_less pos zero_less_one less_imp_diff_less unat_lt_u64)
  show "stack64_room s (snd (stack64_pop m s)) n"
    using room l(1,2) u by (auto simp: stack64_room_def)
  show "fst (stack64_pop m s) = last (stack64_contents s m)"
    using pos le l(3) [of "unat (load64 m (s + 16)) - 1"] unfolding l(4) top
    by (simp add: stack64_contents_def last_map last_upt)
  show "stack64_contents s (snd (stack64_pop m s)) = butlast (stack64_contents s m)"
    using l(3) le pos unfolding stack64_contents_def l(1,2) u
    by (cases "unat (load64 m (s + 16))") simp_all
qed

section \<open>Properties\<close>

text \<open>
  C33: Pushing a list of words onto a stack whose array has room for them appends them, and popping
  as many gives them back, last first, and leaves the words that were there before.
\<close>

theorem stack64_lifo:
  assumes "stack64_room s m n" and "length (stack64_contents s m) + length vs \<le> n"
    and "m1 = fold (\<lambda>v m. stack64_push m s v) vs m"
  shows "stack64_contents s m1 = stack64_contents s m @ vs \<and>
    fst (pops (\<lambda>m. stack64_pop m s) (length vs) m1) = rev vs \<and>
    stack64_contents s (snd (pops (\<lambda>m. stack64_pop m s) (length vs) m1)) = stack64_contents s m"
  using stack64.push_many [OF assms(1,2)] stack64.push_pop_many [OF assms(1,2)] unfolding assms(3) by blast

text \<open>An empty stack structure at 0x100 whose array is at 0x200.\<close>

definition demo_stack :: mem where
  "demo_stack = store64 (store64 (store64 (\<lambda>_. 0) 0x100 0x200) 0x108 8) 0x110 0"

lemma demo_stack_fields: "load64 demo_stack 0x100 = 0x200" "load64 demo_stack (0x100 + 16) = 0"
proof -
  have "apart 0x110 8 0x100 8" "apart 0x108 8 0x100 8" by (rule apartI; simp)+
  then show "load64 demo_stack 0x100 = 0x200" "load64 demo_stack (0x100 + 16) = 0"
    by (simp_all add: demo_stack_def load_store_other load_store_same)
qed

theorem stack64_lifo_witness:
  "fst (pops (\<lambda>m. stack64_pop m 0x100) (length [11, 22, 33 :: u64]) (fold (\<lambda>v m. stack64_push m 0x100 v) [11, 22, 33] demo_stack)) =
     [33, 22, 11]"
proof -
  note l = demo_stack_fields
  have "stack64_room 0x100 demo_stack 8" unfolding stack64_room_def l by simp
  moreover have "length (stack64_contents 0x100 demo_stack) + length [11, 22, 33 :: u64] \<le> 8"
    unfolding length_stack64_contents l by simp
  ultimately show ?thesis using stack64_lifo [OF _ _ refl] by fastforce
qed

text \<open>
  \<^verbatim>\<open>stack64_pop\<close> does not check for an empty stack: the stack pointer wraps around to the
  largest value and the word below the array is returned.
\<close>

theorem stack64_pop_empty:
  assumes "load64 m (s + 16) = 0" and "unat s + 24 \<le> 2 ^ 64" and "unat (load64 m s) \<ge> unat s + 32"
  shows "fst (stack64_pop m s) = load64 m (load64 m s - 8) \<and>
    load64 (snd (stack64_pop m s)) (s + 16) = 0xFFFFFFFFFFFFFFFF"
proof -
  have f: "unat (s + 16) = unat s + 16" using assms(2) by (subst unat_add_nowrap) simp_all
  have b: "unat (load64 m s - 8) = unat (load64 m s) - 8" using assms(3) by (subst unat_sub_le) simp_all
  have "apart (s + 16) 8 s 8" using f assms(2) by (intro apartI) simp_all
  moreover have "apart (s + 16) 8 (load64 m s - 8) 8"
    using f b assms(2,3) less_imp_le [OF unat_lt_u64 [of "load64 m s"]] by (intro apartI) simp_all
  ultimately show ?thesis
    using assms(1) by (simp add: stack64_pop_def Let_def load_store_other load_store_same)
qed

theorem stack64_pop_empty_witness:
  "fst (stack64_pop demo_stack 0x100) = load64 demo_stack (load64 demo_stack 0x100 - 8)"
proof -
  note l = demo_stack_fields
  show ?thesis using stack64_pop_empty [OF l(2)] l(1) by simp
qed

end
