(* ===== verification/Paging_Debug.thy ===== *)
theory Paging_Debug
  imports Paging_Walk
begin

text \<open>
  The dumps of page table entries, \<^verbatim>\<open>kernel/memory/paging_debug.c\<close>, as the calls of the formatted
  output function they make, in order.
\<close>

definition dump_pte :: "u64 \<Rightarrow> printed" where
  "dump_pte e =
     [(''Page table entry: 0x%llx'' @ nl, [PInt e]),
      (''    Physical address: 0x%llx'' @ nl, [PInt (e AND 0xFFFFFFFFF000)]),
      (''    Present: %s'' @ nl, [PStr (if e AND PRESENT_BIT \<noteq> 0 then ''True'' else ''False'')]),
      (''    Writeable: %s'' @ nl, [PStr (if e AND READ_WRITE_BIT \<noteq> 0 then ''True'' else ''False'')]),
      (''    User accessible: %s'' @ nl, [PStr (if e AND USER_SUPERVISOR_BIT \<noteq> 0 then ''False'' else ''True'')]),
      (''    Page level write-through: %s'' @ nl, [PStr (if e AND PAGE_LEVEL_WRITETHROUGH_BIT \<noteq> 0 then ''True'' else ''False'')]),
      (''    Page level cache disable: %s'' @ nl, [PStr (if e AND PAGE_LEVEL_CACHE_DISABLE_BIT \<noteq> 0 then ''True'' else ''False'')]),
      (''    Accessed: %s'' @ nl, [PStr (if e AND ACCESSED_BIT \<noteq> 0 then ''True'' else ''False'')]),
      (''    Dirty: %s'' @ nl, [PStr (if e AND DIRTY_BIT \<noteq> 0 then ''True'' else ''False'')]),
      (''    PAT: %s'' @ nl, [PStr (if e AND PAGE_SIZE_BIT \<noteq> 0 then ''1'' else ''0'')]),
      (''    Global: %s'' @ nl, [PStr (if e AND GLOBAL_PAGE_BIT \<noteq> 0 then ''True'' else ''False'')]),
      (''    NX: %s'' @ nl, [PStr (if e AND NX_BIT \<noteq> 0 then ''True'' else ''False'')])]"

definition dump_paging_bits :: "u64 \<Rightarrow> printed" where
  "dump_paging_bits e =
     [(''    Physical address of table: 0x%llx'' @ nl, [PInt (e AND 0xFFFFFFFFF000)]),
      (''    Present: %s'' @ nl, [PStr (if e AND PRESENT_BIT \<noteq> 0 then ''True'' else ''False'')]),
      (''    Writeable: %s'' @ nl, [PStr (if e AND READ_WRITE_BIT \<noteq> 0 then ''True'' else ''False'')]),
      (''    User accessible: %s'' @ nl, [PStr (if e AND USER_SUPERVISOR_BIT \<noteq> 0 then ''False'' else ''True'')]),
      (''    Page level write-through: %s'' @ nl, [PStr (if e AND PAGE_LEVEL_WRITETHROUGH_BIT \<noteq> 0 then ''True'' else ''False'')]),
      (''    Page level cache disable: %s'' @ nl, [PStr (if e AND PAGE_LEVEL_CACHE_DISABLE_BIT \<noteq> 0 then ''True'' else ''False'')]),
      (''    Accessed: %s'' @ nl, [PStr (if e AND ACCESSED_BIT \<noteq> 0 then ''True'' else ''False'')]),
      (''    Dirty: %s'' @ nl, [PStr (if e AND DIRTY_BIT \<noteq> 0 then ''True'' else ''False'')]),
      (''    Page size: %s'' @ nl, [PStr (if e AND PAGE_SIZE_BIT \<noteq> 0 then ''1'' else ''0'')]),
      (''    Global: %s'' @ nl, [PStr (if e AND GLOBAL_PAGE_BIT \<noteq> 0 then ''True'' else ''False'')]),
      (''    NX: %s'' @ nl, [PStr (if e AND NX_BIT \<noteq> 0 then ''True'' else ''False'')])]"

definition dump_pde :: "u64 \<Rightarrow> printed" where
  "dump_pde e = (''Page directory entry: 0x%llx'' @ nl, [PInt e]) # dump_paging_bits e"

definition dump_pdpe :: "u64 \<Rightarrow> printed" where
  "dump_pdpe e = (''Page directory pointer entry: 0x%llx'' @ nl, [PInt e]) # dump_paging_bits e"

section \<open>What the dumps show\<close>

text \<open>The bits from 12 to 47, those of the address the dumps print.\<close>

lemma dump_mask: "(0xFFFFFFFFF000 :: u64) = mask 48 AND NOT (mask 12)"
  by (rule bit_word_eqI) (simp add: mask_eq_exp_minus_1)

lemma dump_address_eq:
  "e AND 0xFFFFFFFFF000 = get_pt e \<longleftrightarrow> (\<forall>n \<in> {48..<52}. \<not> bit e n)"
proof
  assume eq: "e AND 0xFFFFFFFFF000 = get_pt e"
  show "\<forall>n \<in> {48..<52}. \<not> bit e n"
  proof
    fix n :: nat assume n: "n \<in> {48..<52}"
    have "bit (e AND 0xFFFFFFFFF000) n = bit (get_pt e) n" by (simp only: eq)
    then show "\<not> bit e n"
      using n unfolding dump_mask by (simp add: get_pt_def bit_phys_addr_mask bit_simps)
  qed
next
  assume clear: "\<forall>n \<in> {48..<52}. \<not> bit e n"
  show "e AND 0xFFFFFFFFF000 = get_pt e"
    unfolding dump_mask using clear
    by (intro bit_word_eqI) (auto simp: get_pt_def bit_phys_addr_mask bit_simps)
qed

lemma dump_range: "{48..<52 :: nat} = {48, 49, 50, 51}"
  by auto

text \<open>
  dump_pte prints the entry and, after it, the physical address that get_pt reads from it exactly when
  bits 48 to 51 of the entry are clear; the line for user access says True exactly when the entry is
  reserved for the supervisor.
\<close>
theorem dump_pte_shows:
  "dump_pte e ! 0 = (''Page table entry: 0x%llx'' @ nl, [PInt e]) \<and>
   (dump_pte e ! 1 = (''    Physical address: 0x%llx'' @ nl, [PInt (get_pt e)])) =
     (\<not> bit e 48 \<and> \<not> bit e 49 \<and> \<not> bit e 50 \<and> \<not> bit e 51) \<and>
   (dump_pte e ! 4 = (''    User accessible: %s'' @ nl, [PStr ''True''])) = (\<not> bit e 2)"
proof (intro conjI)
  show "dump_pte e ! 0 = (''Page table entry: 0x%llx'' @ nl, [PInt e])" by (simp add: dump_pte_def)
  show "(dump_pte e ! 1 = (''    Physical address: 0x%llx'' @ nl, [PInt (get_pt e)])) =
      (\<not> bit e 48 \<and> \<not> bit e 49 \<and> \<not> bit e 50 \<and> \<not> bit e 51)"
    using dump_address_eq [of e] by (simp add: dump_pte_def dump_range)
  have "e AND USER_SUPERVISOR_BIT = 0 \<longleftrightarrow> \<not> bit e 2"
    using and_exp_eq_0_iff [of e 2] by (simp add: USER_SUPERVISOR_BIT_def)
  then show "(dump_pte e ! 4 = (''    User accessible: %s'' @ nl, [PStr ''True''])) = (\<not> bit e 2)"
    by (simp add: dump_pte_def)
qed

end
