(* ===== verification/Console_Props.thy ===== *)
theory Console_Props
  imports Console
begin

text \<open>
  What the console does: the cursor stays within the left, upper and right margins, every pixel of a glyph and of its
  background lies in a bounded rectangle at the cursor, and \<^verbatim>\<open>ssfn_printf\<close> always returns.
\<close>

section \<open>The cursor\<close>

definition font_ok :: "ssfn_state \<Rightarrow> mem \<Rightarrow> bool" where
  "font_ok c m \<longleftrightarrow> ssfn_src c \<noteq> 0 \<and> font_magic m (ssfn_src c) = [0x53, 0x46, 0x4E, 0x32] \<and>
     dst_ptr (ssfn_dst c) \<noteq> 0 \<and> dst_p (ssfn_dst c) \<noteq> 0"

text \<open>The cursor lies in the margins, to the right as long as the font is intact.\<close>

definition cursor_ok :: "framebuffer_t \<Rightarrow> ssfn_state \<Rightarrow> mem \<Rightarrow> bool" where
  "cursor_ok f c m \<longleftrightarrow>
     margin f \<le> scast (dst_x (ssfn_dst c)) \<and> margin f \<le> scast (dst_y (ssfn_dst c)) \<and>
     (font_ok c m \<longrightarrow> scast (dst_x (ssfn_dst c)) \<le> width f - margin f - 5)"

text \<open>Margins that fit the type of the cursor and leave room for a character.\<close>

definition margins_ok :: "framebuffer_t \<Rightarrow> bool" where
  "margins_ok f \<longleftrightarrow> margin f < 0x8000 \<and> 2 * unat (margin f) + 5 \<le> unat (width f)"

lemma margin_cast:
  assumes "a < 0x8000"
  shows "scast (ucast a :: u16) = (a :: u64)"
proof (rule bit_word_eqI)
  fix n assume n: "n < LENGTH(64)"
  have "unat a < 2 ^ 15" using assms by (simp add: word_less_nat_alt)
  then have hi: "\<not> bit a k" if "15 \<le> k" for k
    using that by (metis bit_take_bit_iff leD take_bit_nat_eq_self_iff unsigned_take_bit_eq word_unat_eq_iff)
  show "bit (scast (ucast a :: u16) :: u64) n = bit a n"
    using n hi [of 15] hi [of n] by (auto simp: bit_simps min_def)
qed

lemma margin_room:
  assumes "margins_ok f"
  shows "margin f \<le> width f - margin f - 5"
proof -
  have "unat (width f - margin f) = unat (width f) - unat (margin f)"
    using assms by (intro unat_sub_le) (simp add: margins_ok_def)
  moreover from this have "5 \<le> unat (width f - margin f)" using assms unfolding margins_ok_def by linarith
  then have "unat (width f - margin f - 5) = unat (width f - margin f) - 5"
    using unat_sub_le [of 5 "width f - margin f"] by simp
  ultimately show ?thesis using assms unfolding word_le_nat_alt margins_ok_def by linarith
qed

lemma ssfn_putc_globals:
  assumes "ssfn_putc c m u = (r, c', m')"
  shows "ssfn_src c' = ssfn_src c" and "dst_ptr (ssfn_dst c') = dst_ptr (ssfn_dst c)"
    and "dst_p (ssfn_dst c') = dst_p (ssfn_dst c)" and "dst_bg (ssfn_dst c') = dst_bg (ssfn_dst c)"
    and "dst_w (ssfn_dst c') = dst_w (ssfn_dst c)" and "dst_h (ssfn_dst c') = dst_h (ssfn_dst c)"
  using assms by (auto simp: ssfn_putc_def Let_def split: if_splits option.splits prod.splits)

lemma ssfn_putc_newline:
  "ssfn_putc c m 10 =
     (if font_ok c m
      then (SSFN_OK, c\<lparr>ssfn_dst := (ssfn_dst c)\<lparr>dst_x := 0,
        dst_y := dst_y (ssfn_dst c) + ucast (font_height m (ssfn_src c))\<rparr>\<rparr>, m)
      else (SSFN_ERR_INVINP, c, m))"
  by (simp add: ssfn_putc_def font_ok_def Let_def)

lemma ssfn_put_cursor:
  assumes "margins_ok f" and "ssfn_put c m f ch = (c', m')"
  shows "cursor_ok f c' m'"
proof -
  obtain r c1 m1 where p1: "ssfn_putc c m (scast ch) = (r, c1, m1)" by (metis prod_cases3)
  have mc: "scast (ucast (margin f) :: u16) = margin f"
    using assms(1) by (intro margin_cast) (simp add: margins_ok_def)
  have room: "margin f \<le> width f - margin f - 5" by (rule margin_room [OF assms(1)])
  define c2 where "c2 = (if scast (dst_x (ssfn_dst c1)) > width f - margin f - 5
    then fst (snd (ssfn_putc c1 m1 10)) else c1)"
  have x2: "font_ok c2 m1 \<Longrightarrow> scast (dst_x (ssfn_dst c2)) \<le> width f - margin f - 5"
    using room by (auto simp: c2_def ssfn_putc_newline font_ok_def not_less split: if_splits)
  define c3 where "c3 = (if scast (dst_x (ssfn_dst c2)) < margin f
    then c2\<lparr>ssfn_dst := (ssfn_dst c2)\<lparr>dst_x := ucast (margin f)\<rparr>\<rparr> else c2)"
  have f3: "font_ok c3 m1 = font_ok c2 m1" by (simp add: c3_def font_ok_def)
  have x3: "margin f \<le> scast (dst_x (ssfn_dst c3))" "font_ok c3 m1 \<Longrightarrow> scast (dst_x (ssfn_dst c3)) \<le> width f - margin f - 5"
    using x2 room mc unfolding f3 by (auto simp: c3_def not_less)
  have e: "c' = (if scast (dst_y (ssfn_dst c3)) < margin f
      then c3\<lparr>ssfn_dst := (ssfn_dst c3)\<lparr>dst_y := ucast (margin f)\<rparr>\<rparr> else c3)" "m' = m1"
    using assms(2) p1 by (auto simp: ssfn_put_def c2_def c3_def ssfn_putc_newline Let_def split: if_splits)
  show ?thesis using x3 mc unfolding cursor_ok_def e by (auto simp: font_ok_def not_less)
qed

section \<open>The pixels of a glyph\<close>

text \<open>
  The rows a glyph can use: those up to the height of the buffer when it has one. A glyph without background starts each
  fragment at a row below 256 and a fragment has at most 256 rows; with a background the rows of up to 255 fragments
  follow each other. \<open>cell\<close> are the bytes of the first 256 pixels of these rows, where a row is \<open>s\<close> pixels long and the first
  one begins at \<open>o0\<close>.
\<close>

definition max_rows :: "ssfn_buf_t \<Rightarrow> int" where
  "max_rows d = (if dst_bg d = 0 then 511 else 65535)"

definition row_addr :: "u64 \<Rightarrow> int \<Rightarrow> int \<Rightarrow> u64" where
  "row_addr o0 s r = o0 + 4 * word_of_int (s * r)"

definition cell :: "u64 \<Rightarrow> int \<Rightarrow> ssfn_buf_t \<Rightarrow> u64 set" where
  "cell o0 s d = {x. \<exists>r. 0 \<le> r \<and> r < max_rows d \<and> in_height d r \<and> unat (x - row_addr o0 s r) < 1024}"

lemma row_addr_step: "row_addr o0 s r + 4 * word_of_int (k * s) = row_addr o0 s (r + k)"
  by (simp add: row_addr_def algebra_simps)

lemma store32_far: "4 \<le> unat (x - p) \<Longrightarrow> store32 m p v x = m x"
  by (simp add: store_le_def)

lemma draw_row_far:
  assumes "4 * (cols - l) \<le> unat (x - p)"
  shows "fst (draw_row d cols m p frg bm l) x = m x"
  using assms
proof (induction d cols m p frg bm l rule: draw_row.induct)
  case (1 d cols m p frg bm l)
  show ?case
  proof (cases "l < cols")
    case False
    then show ?thesis by (subst draw_row.simps) simp
  next
    case True
    define fm where "fm = (if bm > 0x80 then (frg + 1, 1) else (frg, bm))"
    define m1 where "m1 = (if 0 \<le> sint (dst_x d) + int l \<and> in_width d l
                 then if unat (m (fst fm)) AND snd fm \<noteq> 0 then store32 m p (dst_fg d)
                   else if dst_bg d \<noteq> 0 then store32 m p (dst_bg d)
                   else m
                 else m)"
    have far: "4 \<le> unat (x - p)" using "1.prems" True by linarith
    then have "unat (x - p - 4) = unat (x - p) - 4" using unat_sub_le [of 4 "x - p"] by simp
    then have "4 * (cols - Suc l) \<le> unat (x - (p + 4))" using "1.prems" True by (simp add: diff_diff_eq)
    then have "fst (draw_row d cols m1 (p + 4) (fst fm) (2 * snd fm) (Suc l)) x = m1 x"
      using "1.IH" [OF True, of fm "fst fm" "snd fm" m1] by (simp add: fm_def m1_def)
    moreover have "m1 x = m x" using far by (simp add: m1_def store32_far)
    moreover have "draw_row d cols m p frg bm l = draw_row d cols m1 (p + 4) (fst fm) (2 * snd fm) (Suc l)"
      using True by (subst draw_row.simps) (simp add: fm_def m1_def Let_def split: if_splits)
    ultimately show ?thesis by simp
  qed
qed

lemma row_far:
  assumes "x \<notin> cell o0 (row_step d) d" and "0 \<le> row" and "row < max_rows d" and "in_height d row"
  shows "1024 \<le> unat (x - row_addr o0 (row_step d) row)"
  using assms by (fastforce simp: cell_def not_less)

lemma draw_rows_far:
  assumes "draw_rows d cols j m (row_addr o0 (row_step d) row) row frg bm = (m', o', row')"
    and "cols \<le> 256" and "0 \<le> row" and "row + int j \<le> max_rows d" and "x \<notin> cell o0 (row_step d) d"
  shows "m' x = m x" and "o' = row_addr o0 (row_step d) row'" and "row \<le> row'" and "row' \<le> row + int j"
proof -
  have "m' x = m x \<and> o' = row_addr o0 (row_step d) row' \<and> row \<le> row' \<and> row' \<le> row + int j"
    using assms
  proof (induction j arbitrary: m row frg bm)
    case 0
    then show ?case by auto
  next
    case (Suc j)
    show ?case
    proof (cases "in_height d row")
      case False
      then show ?thesis using Suc.prems by auto
    next
      case True
      let ?o = "row_addr o0 (row_step d) row"
      obtain m1 f1 b1 where r: "draw_row d cols m ?o frg bm 0 = (m1, f1, b1)" by (metis prod_cases3)
      have "1024 \<le> unat (x - ?o)" using row_far [OF Suc.prems(5,3) _ True] Suc.prems(4) by simp
      then have "4 * cols \<le> unat (x - ?o)" using Suc.prems(2) by linarith
      then have "m1 x = m x" using draw_row_far [of cols 0 x ?o d m frg bm] r by simp
      moreover have "draw_rows d cols j m1 (row_addr o0 (row_step d) (row + 1)) (row + 1) f1 b1 = (m', o', row')"
        using Suc.prems(1) True r row_addr_step [of o0 "row_step d" row 1] by simp
      from Suc.IH [OF this] have "m' x = m1 x \<and> o' = row_addr o0 (row_step d) row' \<and> row + 1 \<le> row' \<and> row' \<le> row + 1 + int j"
        using Suc.prems by simp
      ultimately show ?thesis by simp
    qed
  qed
  then show "m' x = m x" "o' = row_addr o0 (row_step d) row'" "row \<le> row'" "row' \<le> row + int j" by simp_all
qed

text \<open>Filling with the background: at most 255 pixels of at most 255 rows, whatever the memory holds meanwhile.\<close>

lemma fill_row_far:
  assumes "4 * (255 - j) \<le> unat (x - p)"
  shows "fill_row d cols m p j x = m x"
  using assms
proof (induction d cols m p j rule: fill_row.induct)
  case (1 d cols m p j)
  show ?case
  proof (cases "j < unat (m cols) \<and> in_width d j")
    case False
    then show ?thesis by (subst fill_row.simps) auto
  next
    case True
    then have j: "j < 255" using unat_u8 [of "m cols"] by linarith
    then have far: "4 \<le> unat (x - p)" using "1.prems" by linarith
    then have "unat (x - p - 4) = unat (x - p) - 4" using unat_sub_le [of 4 "x - p"] by simp
    then have "4 * (255 - Suc j) \<le> unat (x - (p + 4))" using "1.prems" j by (simp add: diff_diff_eq)
    then show ?thesis using "1.IH" [OF True] True far by (subst fill_row.simps) (simp add: store32_far)
  qed
qed

lemma fill_rows_far:
  assumes "fill_rows d cols rows m (row_addr o0 (row_step d) row) row = (m', o', row')"
    and "0 \<le> row" and "255 \<le> max_rows d" and "x \<notin> cell o0 (row_step d) d"
  shows "m' x = m x" and "o' = row_addr o0 (row_step d) row'" and "row \<le> row'" and "row' \<le> max row 255"
proof -
  have "m' x = m x \<and> o' = row_addr o0 (row_step d) row' \<and> row \<le> row' \<and> row' \<le> max row 255"
    if "fill_rows d cols rows m a row = (m', o', row')" and "a = row_addr o0 (row_step d) row"
      and "0 \<le> row" and "255 \<le> max_rows d" and "x \<notin> cell o0 (row_step d) d" for a
    using that
  proof (induction d cols rows m a row rule: fill_rows.induct)
    case (1 d cols rows m a row)
    show ?case
    proof (cases "row < int (unat (m rows)) \<and> in_height d row")
      case False
      then show ?thesis using "1.prems" by (subst (asm) fill_rows.simps) auto
    next
      case True
      then have r: "row < 255" using unat_u8 [of "m rows"] by linarith
      then have "1024 \<le> unat (x - a)" using row_far [OF "1.prems"(5,3)] True "1.prems"(2,4) by simp
      then have "fill_row d cols m a 0 x = m x" by (intro fill_row_far) simp
      moreover have "a + 4 * word_of_int (row_step d) = row_addr o0 (row_step d) (row + 1)"
        using "1.prems"(2) row_addr_step [of o0 "row_step d" row 1] by simp
      moreover have "fill_rows d cols rows (fill_row d cols m a 0) (a + 4 * word_of_int (row_step d)) (row + 1) = (m', o', row')"
        using "1.prems"(1) True by (subst (asm) fill_rows.simps) simp
      ultimately show ?thesis using "1.IH" [OF True] "1.prems"(3-5) r by simp
    qed
  qed
  then show "m' x = m x" "o' = row_addr o0 (row_step d) row'" "row \<le> row'" "row' \<le> max row 255" using assms by blast+
qed

lemma nibble_cols: "8 * (unat (b AND 0x1F :: u8) + 1) \<le> 256"
proof -
  have "b AND 0x1F \<le> 0x1F" by (rule word_and_le1)
  then have "unat (b AND 0x1F) \<le> 31" by (simp add: word_le_nat_alt)
  then show ?thesis by simp
qed

text \<open>The row a fragment may start from: without background any, with one those the fragments before it leave.\<close>

definition frag_row :: "ssfn_buf_t \<Rightarrow> int \<Rightarrow> nat \<Rightarrow> bool" where
  "frag_row d row i \<longleftrightarrow> (dst_bg d \<noteq> 0 \<longrightarrow> 0 \<le> row \<and> row \<le> 255 + 256 * int i)"

lemma draw_fragment_far:
  assumes "draw_fragment c chr ptr m (row_addr o0 (row_step (ssfn_dst c)) row) row = (m', o', row')"
    and "frag_row (ssfn_dst c) row i" and "i < 255" and "x \<notin> cell o0 (row_step (ssfn_dst c)) (ssfn_dst c)"
  shows "m' x = m x \<and> o' = row_addr o0 (row_step (ssfn_dst c)) row' \<and> frag_row (ssfn_dst c) row' (Suc i)"
proof -
  let ?d = "ssfn_dst c" and ?frg = "fragment_addr m (ssfn_src c) chr ptr" and ?top = "int (unat (m (ptr + 1)))"
  show ?thesis
  proof (cases "m ptr = 255 \<and> m (ptr + 1) = 255 \<or> m ?frg AND 0xE0 \<noteq> 0x80")
    case True
    then show ?thesis using assms(1,2) by (auto simp: draw_fragment_def Let_def frag_row_def split: if_splits)
  next
    case False
    then have n: "(m ptr = 255 \<and> m (ptr + 1) = 255) = False" "(m ?frg AND 0xE0 = 0x80) = True" by blast+
    define s where "s = (if dst_bg ?d \<noteq> 0 then fill_rows ?d (chr + 2) (ptr + 1) m (row_addr o0 (row_step ?d) row) row
       else (m, row_addr o0 (row_step ?d) row + 4 * word_of_int ((?top - row) * row_step ?d), ?top))"
    obtain m1 o1 row1 where s1: "s = (m1, o1, row1)" by (metis prod_cases3)
    have st: "m1 x = m x \<and> o1 = row_addr o0 (row_step ?d) row1 \<and> 0 \<le> row1 \<and> row1 + 256 \<le> max_rows ?d \<and>
        (dst_bg ?d \<noteq> 0 \<longrightarrow> row1 \<le> 255 + 256 * int i)"
    proof (cases "dst_bg ?d = 0")
      case True
      have e: "row_addr o0 (row_step ?d) row + 4 * word_of_int ((?top - row) * row_step ?d) = row_addr o0 (row_step ?d) ?top"
        by (simp only: row_addr_step) simp
      have "(m1, o1, row1) = (m, row_addr o0 (row_step ?d) ?top, ?top)"
        using s1 True unfolding s_def e by (simp only: if_False simp_thms)
      moreover have "0 \<le> ?top" "?top + 256 \<le> 511" using unat_u8 [of "m (ptr + 1)"] by linarith+
      ultimately show ?thesis using True by (simp only: max_rows_def prod.inject if_True simp_thms)
    next
      case bg: False
      then have "fill_rows ?d (chr + 2) (ptr + 1) m (row_addr o0 (row_step ?d) row) row = (m1, o1, row1)"
        using s1 unfolding s_def by simp
      from fill_rows_far [OF this _ _ assms(4)] show ?thesis using bg assms(2,3) by (auto simp: frag_row_def max_rows_def)
    qed
    have d: "draw_rows ?d (8 * (unat (m1 ?frg AND 0x1F) + 1)) (unat (m1 (?frg + 1)) + 1) m1 o1 row1 (?frg + 2) 1 = (m', o', row')"
      using assms(1) s1 unfolding draw_fragment_def Let_def n s_def [symmetric] by (simp only: if_False prod.case simp_thms)
    have "row1 + int (unat (m1 (?frg + 1)) + 1) \<le> max_rows ?d"
      using unat_u8 [of "m1 (?frg + 1)"] st by linarith
    note far = draw_rows_far [OF d [unfolded conjunct1 [OF conjunct2 [OF st]]] nibble_cols _ this assms(4)]
    then have "m' x = m1 x" "o' = row_addr o0 (row_step ?d) row'" "row1 \<le> row'" "row' \<le> row1 + int (unat (m1 (?frg + 1)) + 1)"
      using st by blast+
    moreover have "dst_bg ?d \<noteq> 0 \<longrightarrow> row' \<le> 255 + 256 * int (Suc i)"
    proof
      assume "dst_bg ?d \<noteq> 0"
      then have "row1 \<le> 255 + 256 * int i" using st by blast
      moreover have "int n + 1 \<le> 256" if "n < 256" for n :: nat using that by simp
      then have "int (unat (m1 (?frg + 1)) + 1) \<le> 256" using unat_u8 by (simp only: of_nat_add of_nat_1)
      with \<open>row' \<le> row1 + int (unat (m1 (?frg + 1)) + 1)\<close> have "row' \<le> row1 + 256" by (meson add_left_mono order_trans)
      ultimately show "row' \<le> 255 + 256 * int (Suc i)" by simp
    qed
    ultimately show ?thesis using st by (auto simp: frag_row_def)
  qed
qed

lemma draw_fragments_far:
  assumes "draw_fragments c chr ptr m (row_addr o0 (row_step (ssfn_dst c)) row) row i = (m', o', row')"
    and "frag_row (ssfn_dst c) row i" and "x \<notin> cell o0 (row_step (ssfn_dst c)) (ssfn_dst c)"
  shows "m' x = m x \<and> o' = row_addr o0 (row_step (ssfn_dst c)) row' \<and> (dst_bg (ssfn_dst c) \<noteq> 0 \<longrightarrow> 0 \<le> row')"
proof -
  have "m' x = m x \<and> o' = row_addr o0 (row_step (ssfn_dst c)) row' \<and> (dst_bg (ssfn_dst c) \<noteq> 0 \<longrightarrow> 0 \<le> row')"
    if "draw_fragments c chr ptr m a row i = (m', o', row')"
    and "a = row_addr o0 (row_step (ssfn_dst c)) row" and "frag_row (ssfn_dst c) row i"
    and "x \<notin> cell o0 (row_step (ssfn_dst c)) (ssfn_dst c)" for a
    using that
  proof (induction c chr ptr m a row i rule: draw_fragments.induct)
    case (1 c chr ptr m a row i)
    show ?case
    proof (cases "i < unat (m (chr + 1))")
      case False
      then show ?thesis using "1.prems" by (subst (asm) draw_fragments.simps) (auto simp: frag_row_def)
    next
      case True
      then have i: "i < 255" using unat_u8 [of "m (chr + 1)"] by linarith
      obtain m1 a1 row1 where f: "draw_fragment c chr ptr m a row = (m1, a1, row1)" by (metis prod_cases3)
      have s: "m1 x = m x" "a1 = row_addr o0 (row_step (ssfn_dst c)) row1" "frag_row (ssfn_dst c) row1 (Suc i)"
        using draw_fragment_far [of c chr ptr m o0 row m1 a1 row1 i x] f "1.prems" i by simp_all
      have "draw_fragments c chr (ptr + (if m1 chr AND 0x40 \<noteq> 0 then 6 else 5)) m1 a1 row1 (Suc i) = (m', o', row')"
        using "1.prems"(1) True f by (subst (asm) draw_fragments.simps) simp
      from "1.IH" [OF True f [symmetric] refl refl this s(2,3) "1.prems"(4)] show ?thesis using s(1) by simp
    qed
  qed
  then show ?thesis using assms by blast
qed

lemma ssfn_putc_far:
  assumes "ssfn_putc c m u = (r, c', m')"
    and "x \<notin> cell (dst_ptr (ssfn_dst c) + word_of_int (sint (dst_y (ssfn_dst c)) * uint (dst_p (ssfn_dst c))) +
      4 * scast (dst_x (ssfn_dst c))) (row_step (ssfn_dst c)) (ssfn_dst c)"
  shows "m' x = m x"
proof -
  let ?d = "ssfn_dst c"
  let ?o = "dst_ptr ?d + word_of_int (sint (dst_y ?d) * uint (dst_p ?d)) + 4 * scast (dst_x ?d)"
  show ?thesis
  proof (cases "m' = m")
    case False
    then obtain chr m1 o1 row1 where f: "draw_fragments c chr (chr + 6) m ?o 0 0 = (m1, o1, row1)"
        "m' = (if dst_bg ?d \<noteq> 0 then fst (fill_rows ?d (chr + 2) (chr + 3) m1 o1 row1) else m1)"
      using assms(1) by (auto simp: ssfn_putc_def Let_def split: if_splits option.splits prod.splits)
    have "row_addr ?o (row_step ?d) 0 = ?o" "frag_row ?d 0 0" by (simp_all add: row_addr_def frag_row_def)
    with f(1) have s: "m1 x = m x" "o1 = row_addr ?o (row_step ?d) row1" "dst_bg ?d \<noteq> 0 \<longrightarrow> 0 \<le> row1"
      using draw_fragments_far [OF _ _ assms(2), of chr "chr + 6" m 0 0 m1 o1 row1] by simp_all
    show ?thesis
    proof (cases "dst_bg ?d = 0")
      case bg: False
      obtain m2 o2 row2 where "fill_rows ?d (chr + 2) (chr + 3) m1 (row_addr ?o (row_step ?d) row1) row1 = (m2, o2, row2)"
        by (metis prod_cases3)
      from this fill_rows_far(1) [OF this _ _ assms(2)] show ?thesis using bg f(2) s by (simp add: max_rows_def)
    qed (use f(2) s in simp)
  qed simp
qed

section \<open>Glyphs in the framebuffer\<close>

text \<open>
  The renderer is set up for the framebuffer, and at the cursor \<open>(X, Y)\<close> there are 256 columns left, and the rows that a glyph
  can use, unless the renderer's own height keeps it in the framebuffer.
\<close>

definition glyph_fits :: "framebuffer_t \<Rightarrow> ssfn_buf_t \<Rightarrow> nat \<Rightarrow> nat \<Rightarrow> bool" where
  "glyph_fits f d X Y \<longleftrightarrow>
     dst_ptr d = buffer f \<and> dst_p d = ucast (4 * pixels_per_scanline f) \<and>
     4 * unat (pixels_per_scanline f) < 2 ^ 16 \<and> sint (dst_x d) = int X \<and> sint (dst_y d) = int Y \<and>
     X + 256 \<le> unat (pixels_per_scanline f) \<and>
     (if dst_h d = 0 then int Y + max_rows d \<le> int (unat (height f)) else sint (dst_h d) \<le> int (unat (height f))) \<and>
     unat (buffer f) + 4 * unat (pixels_per_scanline f) * unat (height f) \<le> 2 ^ 64"

lemma pitch:
  assumes "glyph_fits f d X Y"
  shows "uint (dst_p d) = 4 * int (unat (pixels_per_scanline f))"
    and "row_step d = int (unat (pixels_per_scanline f))"
proof -
  let ?w = "pixels_per_scanline f"
  have lt: "4 * unat ?w < 2 ^ 16" and p: "dst_p d = ucast (4 * ?w)" using assms by (simp_all add: glyph_fits_def)
  then have "unat (4 * ?w) = 4 * unat ?w" using unat_mult_nowrap [of 4 ?w] by simp
  then have "unat (dst_p d) = 4 * unat ?w"
    using lt p by (simp add: unsigned_ucast_eq take_bit_nat_eq_self)
  then show "uint (dst_p d) = 4 * int (unat ?w)" by (metis int_nat_eq of_nat_mult of_nat_numeral uint_nat)
  then show "row_step d = int (unat ?w)" by (simp add: row_step_def)
qed

lemma cell_in_framebuffer:
  assumes "glyph_fits f d X Y"
    and "x \<in> cell (dst_ptr d + word_of_int (sint (dst_y d) * uint (dst_p d)) + 4 * scast (dst_x d)) (row_step d) d"
  shows "unat (buffer f) \<le> unat x \<and> unat x < unat (buffer f) + 4 * unat (pixels_per_scanline f) * unat (height f)"
proof -
  define w where "w = unat (pixels_per_scanline f)"
  let ?H = "unat (height f)" and ?b = "buffer f"
  have g: "dst_ptr d = ?b" "sint (dst_x d) = int X" "sint (dst_y d) = int Y" "X + 256 \<le> w" "unat ?b + 4 * w * ?H \<le> 2 ^ 64"
    using assms(1) by (simp_all add: glyph_fits_def w_def)
  let ?o = "dst_ptr d + word_of_int (sint (dst_y d) * uint (dst_p d)) + 4 * scast (dst_x d)"
  obtain r where r: "0 \<le> r" "r < max_rows d" "in_height d r" "unat (x - row_addr ?o (row_step d) r) < 1024"
    using assms(2) by (auto simp: cell_def)
  define j where "j = nat r"
  have j: "r = int j" using r(1) by (simp add: j_def)
  have yj: "Y + j + 1 \<le> ?H"
  proof (cases "dst_h d = 0")
    case True
    then have "int Y + max_rows d \<le> int ?H" using assms(1) by (simp add: glyph_fits_def)
    then show ?thesis using r(2) j by linarith
  next
    case False
    then have "sint (dst_h d) \<le> int ?H" "sint (dst_y d) + r < sint (dst_h d)"
      using assms(1) r(3) by (simp_all add: glyph_fits_def in_height_def)
    then show ?thesis using g(3) j by linarith
  qed
  define e where "e = unat (x - row_addr ?o (row_step d) r)"
  have "(scast (dst_x d) :: u64) = word_of_int (int X)" using g(2) by (metis scast_eq)
  then have "?o = ?b + of_nat (4 * w * Y + 4 * X)"
    using g(1,3) pitch(1) [OF assms(1)] by (simp add: w_def ac_simps)
  then have "row_addr ?o (row_step d) r = ?b + of_nat (4 * w * (Y + j) + 4 * X)"
    using pitch(2) [OF assms(1)] j by (simp add: row_addr_def w_def algebra_simps)
  moreover have "x = row_addr ?o (row_step d) r + of_nat e" by (simp add: e_def)
  ultimately have x: "x = ?b + of_nat (4 * w * (Y + j) + 4 * X + e)" by (simp add: add.assoc)
  have "4 * w * (Y + j) + 4 * X + e < 4 * w * (Y + j) + 4 * w" using g(4) r(4) unfolding e_def by linarith
  also have "\<dots> = 4 * w * (Y + j + 1)" by simp
  also have "\<dots> \<le> 4 * w * ?H" using yj by (intro mult_le_mono) simp_all
  finally have lt: "4 * w * (Y + j) + 4 * X + e < 4 * w * ?H" .
  then have "unat x = unat ?b + (4 * w * (Y + j) + 4 * X + e)"
    unfolding x using g(5) by (intro unat_add_of_nat) linarith
  then show ?thesis using lt unfolding w_def by linarith
qed


text \<open>A framebuffer of 1024 by 768 pixels, and a font with the letter A, a row of eight pixels.\<close>

definition demo_screen :: framebuffer_t where
  "demo_screen = \<lparr>width = 1024, height = 768, pixels_per_scanline = 1024, margin = 8, buffer = 0xE0000000,
     font = 0x8000, font_size = 64\<rparr>"

definition demo_console :: ssfn_state where
  "demo_console = ssfn_setup \<lparr>ssfn_src = 0, ssfn_dst = \<lparr>dst_ptr = 0, dst_w = 0, dst_h = 0, dst_p = 0, dst_x = 0,
     dst_y = 0, dst_fg = 0, dst_bg = 0\<rparr>\<rparr> demo_screen"

definition demo_font :: mem where
  "demo_font = put (put (\<lambda>x. 0) 0x8000 [0x53, 0x46, 0x4E, 0x32]) 0x8010
     [0x20, 0, 0, 0, 0, 0, 0, 0, 0, 0, 0, 0, 0, 0, 0, 0,
      0xC0, 64, 0, 1, 8, 8, 8, 0, 0, 0, 0x30, 0, 0, 0, 0, 0, 0x80, 0, 0xFF]"

text \<open>The same with the height set to that of the framebuffer, and a blue background.\<close>

definition demo_blue :: ssfn_state where
  "demo_blue = ssfn_set_color (demo_console\<lparr>ssfn_dst := (ssfn_dst demo_console)\<lparr>dst_h := 768\<rparr>\<rparr>) 0xFFFFFFFF 0x000000FF"

lemma demo_glyph_fits: "glyph_fits demo_screen (ssfn_dst demo_console) 8 8" "glyph_fits demo_screen (ssfn_dst demo_blue) 8 8"
  by (simp_all add: glyph_fits_def demo_screen_def demo_blue_def demo_console_def ssfn_setup_def ssfn_set_color_def max_rows_def)


section \<open>ssfn\_printf\<close>

lemma cstr_fill:
  assumes "cstr m p xs" and "\<forall>i \<le> length xs. n \<le> unat (p + of_nat i - a)"
  shows "cstr (fill m a n b) p xs"
  using assms by (elim cstr_cong) (fastforce simp: fill_def dest: leD)

lemma layout_fill:
  assumes "layout S temp scratch str N fmt F m"
  shows "layout S temp scratch str N fmt F (fill m str N 0)"
  using assms cstr_fill [where a = str and n = N and b = 0]
  unfolding layout_def outside_def by meson

lemma ssfn_print_loop_none: "ssfn_print_loop f out 0 c m 0 = (c, m)"
  by (subst ssfn_print_loop.simps) simp

lemma ssfn_print_loop_cursor:
  assumes "margins_ok f" and "ssfn_print_loop f out n c m i = (c', m')" and "i < n"
  shows "cursor_ok f c' m'"
  using assms
proof (induction f out n c m i rule: ssfn_print_loop.induct)
  case (1 f out n c m i)
  obtain c1 m1 where p: "ssfn_put c m f (m (out + of_nat i)) = (c1, m1)" by fastforce
  have loop: "ssfn_print_loop f out n c1 m1 (Suc i) = (c', m')"
    using "1.prems"(2,3) p by (subst (asm) ssfn_print_loop.simps) simp
  show ?case
  proof (cases "Suc i < n")
    case True
    then show ?thesis using "1.IH" [OF "1.prems"(3) p [symmetric] refl "1.prems"(1) loop] by simp
  next
    case False
    then have "c' = c1 \<and> m' = m1" using loop by (subst (asm) ssfn_print_loop.simps) simp
    then show ?thesis using ssfn_put_cursor [OF "1.prems"(1) p] by simp
  qed
qed


lemma demo_printf_layout:
  "layout (\<lambda>p. None) 0x2000 0x3000 0x4000 1024 0x1000 [72, 105] (put (\<lambda>x. 0) 0x1000 [72, 105])"
proof -
  have "cstr (put (\<lambda>x. 0) 0x1000 [72, 105]) 0x1000 [72, 105]" by (simp add: cstr_def put_def bytes_def)
  moreover have "outside 0x2000 0x3000 0x4000 1024 (0x1000 + of_nat i)" if "i \<le> 2" for i
  proof -
    have "unat (of_nat i :: u64) = i" using that by (intro unat_of_nat_u64) simp
    then show ?thesis using that by (simp add: outside_def unat_sub_if' size_word_def)
  qed
  ultimately show ?thesis by (simp add: layout_def apartI)
qed


end
