(* ===== verification/Efi_Services.thy ===== *)
theory Efi_Services
  imports Physical "HOL-Library.Multiset"
begin

text \<open>
  The firmware as the boot stage sees it. The services are a parameter of the model: a function
  from a call and the state of the firmware to its reply and the next state. What it hands out in
  memory (descriptors of the memory map, graphics modes, configuration tables) is read through
  further functions of the same record. The state of the boot stage keeps the calls it has made
  with their replies, in order. The wrappers of \<^verbatim>\<open>efi_malloc.c\<close> follow.
\<close>

section \<open>Calls and replies\<close>

datatype efi_status =
    EFI_SUCCESS | EFI_INVALID_PARAMETER | EFI_UNSUPPORTED | EFI_BUFFER_TOO_SMALL | EFI_OUT_OF_RESOURCES
  | EFI_NOT_FOUND | EFI_NOT_STARTED | EFI_END_OF_FILE | Other_error u64 | Warning u64

text \<open>The macro of the firmware interface: a warning is not an error.\<close>

fun EFI_ERROR :: "efi_status \<Rightarrow> bool" where
  "EFI_ERROR EFI_SUCCESS = False"
| "EFI_ERROR (Warning w) = False"
| "EFI_ERROR s = True"

text \<open>An argument of the firmware's formatted output.\<close>

datatype efi_arg = AInt u64 | AStatus efi_status

datatype efi_call =
    AllocatePool u64
  | FreePool u64
  | GetMemoryMap u64 u64
  | ExitBootServices u64
  | Print string "efi_arg list"
  | ClearScreen
  | SetWatchdogTimer
  | LocateHandleBuffer
  | HandleProtocol u64
  | OpenVolume u64
  | OpenFile u64 string
  | CloseFile u64
  | GetInfo u64
  | ReadFile u64 u64 u64
  | LocateProtocol
  | QueryMode u64 u64
  | SetMode u64 u64

text \<open>
  A reply: the status, and the values of the output parameters. What they are for which call is said
  where the call is made.
\<close>

record efi_reply =
  status :: efi_status
  out1 :: u64
  out2 :: u64
  out3 :: u64
  out_list :: "u64 list"

text \<open>Types of memory regions and the descriptor of a region in the memory map.\<close>

datatype efi_memory_type =
    EfiLoaderCode | EfiLoaderData | EfiBootServicesCode | EfiBootServicesData | EfiConventionalMemory
  | EfiACPIReclaimMemory | EfiACPIMemoryNVS | EfiRuntimeServicesCode | EfiRuntimeServicesData
  | EfiMemoryMappedIO | EfiMemoryMappedIOPortSpace | EfiOtherMemory u32

text \<open>The numbers the interface gives the types.\<close>

fun type_code :: "efi_memory_type \<Rightarrow> u32" where
  "type_code EfiLoaderCode = 1"
| "type_code EfiLoaderData = 2"
| "type_code EfiBootServicesCode = 3"
| "type_code EfiBootServicesData = 4"
| "type_code EfiRuntimeServicesCode = 5"
| "type_code EfiRuntimeServicesData = 6"
| "type_code EfiConventionalMemory = 7"
| "type_code EfiACPIReclaimMemory = 9"
| "type_code EfiACPIMemoryNVS = 10"
| "type_code EfiMemoryMappedIO = 11"
| "type_code EfiMemoryMappedIOPortSpace = 12"
| "type_code (EfiOtherMemory n) = n"

record efi_memory_descriptor =
  Type :: efi_memory_type
  PhysicalStart :: u64
  VirtualStart :: u64
  NumberOfPages :: u64
  Attribute :: u64

record gop_mode =
  MaxMode :: u32
  Mode :: u32
  HorizontalResolution :: u32
  VerticalResolution :: u32
  PixelsPerScanLine :: u32
  FrameBufferBase :: u64

text \<open>
  \<open>tables\<close> lists the configuration tables: whether the GUID is that of the ACPI 2.0 table, and the
  pointer.
\<close>

record 'w firmware =
  serve :: "efi_call \<Rightarrow> 'w \<Rightarrow> efi_reply \<times> 'w"
  descriptor_at :: "'w \<Rightarrow> u64 \<Rightarrow> efi_memory_descriptor"
  mode_of :: "'w \<Rightarrow> u64 \<Rightarrow> gop_mode"
  tables :: "'w \<Rightarrow> (bool \<times> u64) list"

record 'w efi =
  trace :: "(efi_call \<times> efi_reply) list"
  world :: 'w

definition invoke :: "'w firmware \<Rightarrow> efi_call \<Rightarrow> 'w efi \<Rightarrow> efi_reply \<times> 'w efi" where
  "invoke fw call e =
     (let (r, w) = serve fw call (world e) in (r, \<lparr>trace = trace e @ [(call, r)], world = w\<rparr>))"

text \<open>A call whose reply is not used.\<close>

definition perform :: "'w firmware \<Rightarrow> efi_call \<Rightarrow> 'w efi \<Rightarrow> 'w efi" where
  "perform fw call e = snd (invoke fw call e)"

section \<open>efi\_malloc and efi\_free\<close>

text \<open>The handle is the first output of \<^verbatim>\<open>AllocatePool\<close>.\<close>

definition efi_malloc :: "'w firmware \<Rightarrow> u64 \<Rightarrow> 'w efi \<Rightarrow> u64 \<times> 'w efi" where
  "efi_malloc fw poolSize e =
     (let (r, e) = invoke fw (AllocatePool poolSize) e in
      if status r = EFI_OUT_OF_RESOURCES
      then (0, perform fw (Print (''out of resources for pool'' @ nl) []) e)
      else if status r = EFI_INVALID_PARAMETER
      then (0, perform fw (Print (''invalid pool type'' @ nl) []) e)
      else if EFI_ERROR (status r)
      then (0, perform fw (Print (''AllocatePool failed: 0x%lx'' @ nl) [AStatus (status r)]) e)
      else (out1 r, e))"

definition efi_free :: "'w firmware \<Rightarrow> u64 \<Rightarrow> 'w efi \<Rightarrow> 'w efi" where
  "efi_free fw handle e = perform fw (FreePool handle) e"

section \<open>Accounting for the pool\<close>

text \<open>
  The pool memory that is allocated after a sequence of calls: \<^verbatim>\<open>AllocatePool\<close> and
  \<^verbatim>\<open>LocateHandleBuffer\<close> hand it out, \<^verbatim>\<open>FreePool\<close> takes it back.
\<close>

fun pool_step :: "efi_call \<times> efi_reply \<Rightarrow> u64 multiset \<Rightarrow> u64 multiset" where
  "pool_step (AllocatePool n, r) P = (if status r = EFI_SUCCESS then add_mset (out1 r) P else P)"
| "pool_step (LocateHandleBuffer, r) P = (if status r = EFI_SUCCESS then add_mset (out1 r) P else P)"
| "pool_step (FreePool h, r) P = P - {#h#}"
| "pool_step (c, r) P = P"

definition pool :: "'w efi \<Rightarrow> u64 multiset" where
  "pool e = fold pool_step (trace e) {#}"

text \<open>
  What the interface documents of the two calls that allocate: they succeed with a pointer that is not NULL,
  or report an error, never a warning.
\<close>

definition allocates :: "'w firmware \<Rightarrow> bool" where
  "allocates fw \<longleftrightarrow> (\<forall>c w. (c = LocateHandleBuffer \<or> (\<exists>n. c = AllocatePool n)) \<longrightarrow>
     (status (fst (serve fw c w)) = EFI_SUCCESS \<and> out1 (fst (serve fw c w)) \<noteq> 0) \<or>
     EFI_ERROR (status (fst (serve fw c w))))"

lemma invoke_pool:
  assumes "invoke fw c e = (r, e')"
  shows "pool e' = pool_step (c, r) (pool e)"
  using assms by (auto simp: invoke_def pool_def Let_def split: prod.splits)

lemma perform_pool: "\<exists>r. pool (perform fw c e) = pool_step (c, r) (pool e)"
  by (metis invoke_pool perform_def prod.collapse)

lemma pool_print [simp]: "pool (perform fw (Print s args) e) = pool e"
  using perform_pool [of fw "Print s args" e] by simp

lemma pool_free_call [simp]: "pool (perform fw (FreePool h) e) = pool e - {#h#}"
  using perform_pool [of fw "FreePool h" e] by simp

lemma allocatesD:
  assumes "allocates fw" and "invoke fw c e = (r, e')" and "c = LocateHandleBuffer \<or> (\<exists>n. c = AllocatePool n)"
  shows "(status r = EFI_SUCCESS \<and> out1 r \<noteq> 0) \<or> EFI_ERROR (status r)"
  using assms unfolding allocates_def invoke_def by (metis (mono_tags, lifting) case_prod_beta fst_conv)

text \<open>\<^verbatim>\<open>efi_malloc\<close> returns new pool memory or NULL, and then allocates nothing.\<close>

lemma efi_malloc_pool:
  assumes "allocates fw" and "efi_malloc fw n e = (p, e')"
  shows "pool e' = (if p = 0 then pool e else add_mset p (pool e))"
proof -
  obtain r e1 where i: "invoke fw (AllocatePool n) e = (r, e1)" by fastforce
  have "(status r = EFI_SUCCESS \<and> out1 r \<noteq> 0) \<or> EFI_ERROR (status r)" using allocatesD [OF assms(1) i] by blast
  then show ?thesis using assms(2) i invoke_pool [OF i] by (auto simp: efi_malloc_def Let_def split: if_splits)
qed

lemma efi_malloc_served:
  assumes "allocates fw" and "efi_malloc fw n e = (p, e')" and "p \<noteq> 0"
  shows "\<exists>w r w'. serve fw (AllocatePool n) w = (r, w') \<and> status r = EFI_SUCCESS \<and> out1 r = p"
proof -
  obtain r e1 where i: "invoke fw (AllocatePool n) e = (r, e1)" by fastforce
  have "(status r = EFI_SUCCESS \<and> out1 r \<noteq> 0) \<or> EFI_ERROR (status r)" using allocatesD [OF assms(1) i] by blast
  then have "status r = EFI_SUCCESS \<and> out1 r = p" using assms(2,3) i by (auto simp: efi_malloc_def split: if_splits)
  moreover obtain w' where "serve fw (AllocatePool n) (world e) = (r, w')"
    using i by (auto simp: invoke_def Let_def split: prod.splits)
  ultimately show ?thesis by blast
qed

lemma efi_free_pool [simp]: "pool (efi_free fw p e) = pool e - {#p#}"
  by (simp add: efi_free_def)

end
