(* ===== verification/Efi_Memory.thy ===== *)
theory Efi_Memory
  imports Efi_Services
begin

text \<open>
  The memory map of the firmware, \<^verbatim>\<open>efi-stage/efi_mmap.c\<close>. The loops over the map and the loop that
  asks for it again with a larger buffer are partial functions: \<^const>\<open>None\<close> is a loop that never ends.
\<close>

section \<open>Data\<close>

record efi_mmap_t =
  map_start :: u64
  map_end :: u64
  map_size :: u64
  map_key :: u64
  descriptorSize :: u64

section \<open>getEFIMemoryMap\<close>

text \<open>
  The outputs of \<^verbatim>\<open>GetMemoryMap\<close> are the values of the size, the key and the descriptor size after the
  call.
\<close>

definition set_map :: "efi_reply \<Rightarrow> efi_mmap_t \<Rightarrow> efi_mmap_t" where
  "set_map r mmap = mmap\<lparr>map_size := out1 r, map_key := out2 r, descriptorSize := out3 r\<rparr>"

partial_function (option) getmap_loop ::
  "'w firmware \<Rightarrow> efi_mmap_t \<Rightarrow> u64 \<Rightarrow> 'w efi \<Rightarrow> (efi_status \<times> efi_mmap_t \<times> u64 \<times> 'w efi) option" where
  "getmap_loop fw mmap memoryMap e =
     (let (r, e) = invoke fw (GetMemoryMap (map_size mmap) memoryMap) e;
          mmap = set_map r mmap
      in
      if status r = EFI_SUCCESS then Some (EFI_SUCCESS, mmap, memoryMap, e)
      else if status r \<noteq> EFI_BUFFER_TOO_SMALL then Some (status r, mmap, memoryMap, e)
      else
        let e = (if memoryMap \<noteq> 0 then perform fw (FreePool memoryMap) e else e);
            mmap = mmap\<lparr>map_size := map_size mmap + 2 * descriptorSize mmap\<rparr>;
            (r, e) = invoke fw (AllocatePool (map_size mmap)) e
        in
        if status r \<noteq> EFI_SUCCESS then Some (status r, mmap, 0, e)
        else getmap_loop fw mmap (out1 r) e)"

definition getEFIMemoryMap :: "'w firmware \<Rightarrow> efi_mmap_t \<Rightarrow> 'w efi \<Rightarrow> (efi_status \<times> efi_mmap_t \<times> 'w efi) option" where
  "getEFIMemoryMap fw mmap e = do {
     (result, mmap, memoryMap, e) \<leftarrow> getmap_loop fw mmap 0 e;
     if result \<noteq> EFI_SUCCESS
     then do {
       let e = (if memoryMap \<noteq> 0 then perform fw (FreePool memoryMap) e else e);
       Some (result, mmap\<lparr>map_start := 0, map_end := 0\<rparr>, e)
     }
     else Some (result, mmap\<lparr>map_start := memoryMap, map_end := memoryMap + map_size mmap\<rparr>, e)
   }"

section \<open>getPageCountByType\<close>

text \<open>
  The type asked for is 8 bits wide, the one of the descriptor 32; so is the total, while the numbers of pages have
  64 bits.
\<close>

partial_function (option) page_count_loop ::
  "'w firmware \<Rightarrow> efi_mmap_t \<Rightarrow> u8 \<Rightarrow> u64 \<Rightarrow> u32 \<Rightarrow> 'w efi \<Rightarrow> (u32 \<times> 'w efi) option" where
  "page_count_loop fw mmap type offset totalPages e =
     (if offset < map_end mmap
      then
        let desc = descriptor_at fw (world e) offset in
        if type_code (Type desc) \<noteq> ucast type
        then page_count_loop fw mmap type (offset + descriptorSize mmap) totalPages e
        else
          let e = perform fw (Print (''Physical start: 0x%lx, Virtual start: 0x%lx    %d pages'' @ nl)
            [AInt (PhysicalStart desc), AInt (VirtualStart desc), AInt (NumberOfPages desc)]) e
          in page_count_loop fw mmap type (offset + descriptorSize mmap)
               (totalPages + ucast (NumberOfPages (descriptor_at fw (world e) offset))) e
      else Some (totalPages, e))"

definition getPageCountByType :: "'w firmware \<Rightarrow> efi_mmap_t \<Rightarrow> u8 \<Rightarrow> 'w efi \<Rightarrow> (u32 \<times> 'w efi) option" where
  "getPageCountByType fw mmap type e = page_count_loop fw mmap type (map_start mmap) 0 e"

section \<open>The pool while the map is fetched\<close>

text \<open>
  The map grows by less than two descriptors when its buffer is allocated: a buffer of the size the
  firmware asked for and two more descriptors is enough at the next call.
\<close>

definition map_settles :: "'w firmware \<Rightarrow> bool" where
  "map_settles fw \<longleftrightarrow> (\<forall>w w' w'' n b n' b'.
     status (fst (serve fw (GetMemoryMap n b) w)) = EFI_BUFFER_TOO_SMALL \<and>
     n' = out1 (fst (serve fw (GetMemoryMap n b) w)) + 2 * out3 (fst (serve fw (GetMemoryMap n b) w)) \<and>
     w' \<in> {snd (serve fw (GetMemoryMap n b) w), snd (serve fw (FreePool b) (snd (serve fw (GetMemoryMap n b) w)))} \<and>
     w'' = snd (serve fw (AllocatePool n') w') \<longrightarrow>
     status (fst (serve fw (GetMemoryMap n' b') w'')) \<noteq> EFI_BUFFER_TOO_SMALL)"

text \<open>The pool memory a pointer stands for.\<close>

definition own :: "u64 \<Rightarrow> u64 multiset" where
  "own p = (if p = 0 then {#} else {#p#})"

lemma pool_get_map:
  assumes "invoke fw (GetMemoryMap n b) e = (r, e')"
  shows "pool e' = pool e"
  using invoke_pool [OF assms] by simp

lemma getmap_loop_pool:
  assumes "getmap_loop fw mmap b e = Some res" and "allocates fw" and "pool e = P + own b"
  shows "case res of (st, mmap', b', e') \<Rightarrow> pool e' = P + own b'"
  using assms
proof (induction arbitrary: P rule: getmap_loop.raw_induct [rotated, consumes 1])
  case (1 loop fw mmap b e res)
  obtain r e1 where g: "invoke fw (GetMemoryMap (map_size mmap) b) e = (r, e1)" by fastforce
  have p1: "pool e1 = P + own b" using pool_get_map [OF g] "1.prems"(2) by simp
  show ?case
  proof (cases "status r = EFI_BUFFER_TOO_SMALL")
    case False
    then show ?thesis using "1.hyps" g p1 by (auto simp: Let_def split: if_splits)
  next
    case True
    define e2 where "e2 = (if b \<noteq> 0 then perform fw (FreePool b) e1 else e1)"
    have p2: "pool e2 = P" using p1 by (simp add: e2_def own_def)
    define n where "n = out1 r + 2 * out3 r"
    obtain r2 e3 where a: "invoke fw (AllocatePool n) e2 = (r2, e3)" by fastforce
    have al: "(status r2 = EFI_SUCCESS \<and> out1 r2 \<noteq> 0) \<or> EFI_ERROR (status r2)" using allocatesD [OF "1.prems"(1) a] by blast
    have p3: "pool e3 = (if status r2 = EFI_SUCCESS then P + own (out1 r2) else P)"
      using invoke_pool [OF a] p2 al by (auto simp: own_def)
    show ?thesis
    proof (cases "status r2 = EFI_SUCCESS")
      case False
      then show ?thesis
        using "1.hyps" g True a p3 by (auto simp: Let_def set_map_def e2_def [symmetric] n_def own_def)
    next
      case ok: True
      have "loop fw (set_map r mmap\<lparr>map_size := n\<rparr>) (out1 r2) e3 = Some res"
        using "1.hyps" g True a ok by (simp add: Let_def set_map_def e2_def [symmetric] n_def)
      from "1.IH" [OF this "1.prems"(1)] p3 ok show ?thesis by simp
    qed
  qed
qed

lemma getmap_loop_returns:
  assumes "map_settles fw"
  shows "\<exists>res. getmap_loop fw mmap b e = Some res"
proof -
  obtain r e1 where g: "invoke fw (GetMemoryMap (map_size mmap) b) e = (r, e1)" by fastforce
  define e2 where "e2 = (if b \<noteq> 0 then perform fw (FreePool b) e1 else e1)"
  define n where "n = out1 r + 2 * out3 r"
  obtain r2 e3 where a: "invoke fw (AllocatePool n) e2 = (r2, e3)" by fastforce
  obtain r3 e4 where g2: "invoke fw (GetMemoryMap n (out1 r2)) e3 = (r3, e4)" by fastforce
  let ?mmap = "set_map r mmap\<lparr>map_size := n\<rparr>"
  have s1: "getmap_loop fw mmap b e = getmap_loop fw ?mmap (out1 r2) e3"
    if "status r = EFI_BUFFER_TOO_SMALL" and "status r2 = EFI_SUCCESS"
    using that g a by (subst getmap_loop.simps) (simp add: Let_def set_map_def e2_def [symmetric] n_def)
  have w: "fst (serve fw (GetMemoryMap (map_size mmap) b) (world e)) = r"
    "snd (serve fw (GetMemoryMap (map_size mmap) b) (world e)) = world e1"
    "world e3 = snd (serve fw (AllocatePool n) (world e2))" "r3 = fst (serve fw (GetMemoryMap n (out1 r2)) (world e3))"
    using g a g2 by (auto simp: invoke_def Let_def split: prod.splits)
  have "world e2 \<in> {world e1, snd (serve fw (FreePool b) (world e1))}"
    by (auto simp: e2_def perform_def invoke_def Let_def split: prod.splits)
  then have "status r3 \<noteq> EFI_BUFFER_TOO_SMALL" if "status r = EFI_BUFFER_TOO_SMALL"
    using assms that w unfolding map_settles_def n_def by metis
  then have s2: "\<exists>res. getmap_loop fw ?mmap (out1 r2) e3 = Some res" if "status r = EFI_BUFFER_TOO_SMALL"
    using that g2 by (subst getmap_loop.simps) (auto simp: Let_def)
  show ?thesis
  proof (cases "status r = EFI_BUFFER_TOO_SMALL \<and> status r2 = EFI_SUCCESS")
    case True
    then show ?thesis using s1 s2 by simp
  next
    case False
    then show ?thesis using g a
      by (subst getmap_loop.simps) (auto simp: Let_def set_map_def e2_def [symmetric] n_def split: if_splits)
  qed
qed

section \<open>Properties\<close>

lemma getEFIMemoryMap_spec:
  assumes "allocates fw" and "map_settles fw"
  shows "\<exists>st mmap' e'. getEFIMemoryMap fw mmap e = Some (st, mmap', e') \<and>
    map_end mmap' = (if st = EFI_SUCCESS then map_start mmap' + map_size mmap' else 0) \<and>
    (st = EFI_SUCCESS \<or> map_start mmap' = 0) \<and> pool e' = pool e + own (map_start mmap')"
proof -
  obtain st mmap1 b e1 where l: "getmap_loop fw mmap 0 e = Some (st, mmap1, b, e1)"
    using getmap_loop_returns [OF assms(2)] by (metis prod_cases4)
  have "pool e1 = pool e + own b" using getmap_loop_pool [OF l assms(1), of "pool e"] by (simp add: own_def)
  then show ?thesis using l by (auto simp: getEFIMemoryMap_def own_def Let_def)
qed

text \<open>
  C39: getEFIMemoryMap returns when the map settles; it leaves the buffer of the map as the only new pool memory,
  and none after a failure, when start and end are 0.
\<close>
theorem getEFIMemoryMap_pool:
  assumes "allocates fw" and "map_settles fw"
  shows "\<exists>st mmap' e'. getEFIMemoryMap fw mmap e = Some (st, mmap', e') \<and>
    map_end mmap' = (if st = EFI_SUCCESS then map_start mmap' + map_size mmap' else 0) \<and>
    (st = EFI_SUCCESS \<or> map_start mmap' = 0) \<and> pool e' = pool e + own (map_start mmap')"
  using assms by (rule getEFIMemoryMap_spec)

text \<open>A firmware with a map of four descriptors that counts the regions it has handed out.\<close>

definition reply :: "efi_status \<Rightarrow> u64 \<Rightarrow> u64 \<Rightarrow> u64 \<Rightarrow> efi_reply" where
  "reply st a b c = \<lparr>status = st, out1 = a, out2 = b, out3 = c, out_list = []\<rparr>"

fun demo_serve :: "efi_call \<Rightarrow> nat \<Rightarrow> efi_reply \<times> nat" where
  "demo_serve (AllocatePool n) w =
     (if n < 0x10000000 then reply EFI_SUCCESS 0x9000 0 0 else reply EFI_OUT_OF_RESOURCES 0 0 0, Suc w)"
| "demo_serve (GetMemoryMap n b) w =
     (if n < 160 then reply EFI_BUFFER_TOO_SMALL 160 0 40
      else if b = 0x9000 then reply EFI_SUCCESS 160 7 40 else reply EFI_INVALID_PARAMETER 0 0 0, w)"
| "demo_serve LocateHandleBuffer w = (\<lparr>status = EFI_SUCCESS, out1 = 0x9000, out2 = 0, out3 = 0, out_list = [1]\<rparr>, Suc w)"
| "demo_serve c w = (reply EFI_SUCCESS 0x5000 0 0, w)"

definition demo_descriptor :: "nat \<Rightarrow> u64 \<Rightarrow> efi_memory_descriptor" where
  "demo_descriptor w a =
     \<lparr>Type = (if a = 0x9000 then EfiConventionalMemory else if a = 0x9028 then EfiLoaderData else EfiMemoryMappedIO),
      PhysicalStart = (if a = 0x9000 then 0 else if a = 0x9028 then 0x100000 else 0x200000 + 0x1000 * (a - 0x9050)),
      VirtualStart = 0, NumberOfPages = (if a = 0x9000 then 100 else if a = 0x9028 then 64 else 1), Attribute = 0\<rparr>"

definition demo_firmware :: "nat firmware" where
  "demo_firmware = \<lparr>serve = demo_serve, descriptor_at = demo_descriptor,
     mode_of = (\<lambda>w g. \<lparr>MaxMode = 1, Mode = 0, HorizontalResolution = 1024, VerticalResolution = 768,
       PixelsPerScanLine = 1024, FrameBufferBase = 0xE0000000\<rparr>),
     tables = (\<lambda>w. [(False, 0x100), (True, 0xF0000)])\<rparr>"

lemma demo_allocates: "allocates demo_firmware"
  by (auto simp: allocates_def demo_firmware_def reply_def split: if_splits)

lemma demo_settles: "map_settles demo_firmware"
  by (auto simp: map_settles_def demo_firmware_def reply_def split: if_splits)

theorem getEFIMemoryMap_pool_witness:
  "\<exists>st mmap' e'. getEFIMemoryMap demo_firmware \<lparr>map_start = 0, map_end = 0, map_size = 0, map_key = 0, descriptorSize = 0\<rparr>
       \<lparr>trace = [], world = 0\<rparr> = Some (st, mmap', e') \<and> pool e' = own (map_start mmap')"
  using getEFIMemoryMap_pool [OF demo_allocates demo_settles,
      of "\<lparr>map_start = 0, map_end = 0, map_size = 0, map_key = 0, descriptorSize = 0\<rparr>" "\<lparr>trace = [], world = 0\<rparr>"]
  by (auto simp: pool_def)

end
