(* ===== verification/Efi_Pmm.thy ===== *)
theory Efi_Pmm
  imports Efi_Memory
begin

text \<open>
  The boot stage's construction of the frame allocator, \<^verbatim>\<open>efi-stage/efi_pmm.c\<close>: the storage is
  sized from a provisional memory map and filled from the final one. The storage is one
  allocation; its parts are at the addresses the code computes, and the blocks and the words of the
  bitmaps are those of the allocator's model.
\<close>

section \<open>Data\<close>

definition PMM_BLOCK_SLACK :: u64 where
  "PMM_BLOCK_SLACK = 16"

record pmm_storage =
  physical_memory_ptr :: u64
  block_capacity :: u64
  bitmap :: u64
  bitmap_words :: u64

fun is_ram_type :: "efi_memory_type \<Rightarrow> bool" where
  "is_ram_type EfiLoaderCode = True"
| "is_ram_type EfiLoaderData = True"
| "is_ram_type EfiBootServicesCode = True"
| "is_ram_type EfiBootServicesData = True"
| "is_ram_type EfiConventionalMemory = True"
| "is_ram_type t = False"

section \<open>reserve\_pmm\<close>

partial_function (option) reserve_loop ::
  "(u64 \<Rightarrow> efi_memory_descriptor) \<Rightarrow> efi_mmap_t \<Rightarrow> u64 \<Rightarrow> u64 \<Rightarrow> u64 \<Rightarrow> (u64 \<times> u64) option" where
  "reserve_loop rd mmap offset blks ram_frames =
     (if offset < map_end mmap
      then
        let desc = rd offset;
            blks = (if NumberOfPages desc \<noteq> 0 then blks + 1 else blks);
            ram_frames = (if is_ram_type (Type desc) then ram_frames + NumberOfPages desc else ram_frames)
        in reserve_loop rd mmap (offset + descriptorSize mmap) blks ram_frames
      else Some (blks, ram_frames))"

text \<open>
  The sizes of \<^verbatim>\<open>pmm\<close>, of a pointer and of \<^verbatim>\<open>pm_block\<close> are 16, 8 and 48 bytes.
\<close>

definition pmm_bytes :: "u64 \<Rightarrow> u64 \<Rightarrow> u64" where
  "pmm_bytes capacity words = 16 + capacity * 8 + capacity * 48 + words * 8"

definition reserve_pmm :: "'w firmware \<Rightarrow> 'w efi \<Rightarrow> (efi_status \<times> pmm_storage option \<times> 'w efi) option" where
  "reserve_pmm fw e = do {
     (result, mmap, e) \<leftarrow> getEFIMemoryMap fw \<lparr>map_start = 0, map_end = 0, map_size = 0, map_key = 0, descriptorSize = 0\<rparr> e;
     if result \<noteq> EFI_SUCCESS
     then Some (result, None, perform fw (Print (''Error getting EFI memory map.'' @ nl) []) e)
     else do {
       (blks, ram_frames) \<leftarrow> reserve_loop (descriptor_at fw (world e)) mmap (map_start mmap) 0 0;
       let e = efi_free fw (map_start mmap) e;
       let capacity = blks + PMM_BLOCK_SLACK;
       let words = ram_frames div 64 + capacity;
       let bytes = pmm_bytes capacity words;
       let (p, e) = efi_malloc fw bytes e;
       if p = 0
       then Some (EFI_OUT_OF_RESOURCES, None,
         perform fw (Print (''Could not allocate %d bytes for the PMM.'' @ nl) [AInt bytes]) e)
       else Some (EFI_SUCCESS,
         Some \<lparr>physical_memory_ptr = p, block_capacity = capacity, bitmap = p + 16 + capacity * 8 + capacity * 48,
           bitmap_words = words\<rparr>, e)
     }
   }"

section \<open>build\_pmm\<close>

fun block_type :: "efi_memory_type \<Rightarrow> pm_type" where
  "block_type EfiConventionalMemory = PM_USABLE"
| "block_type EfiLoaderCode = PM_RECLAIMABLE"
| "block_type EfiLoaderData = PM_RECLAIMABLE"
| "block_type EfiBootServicesCode = PM_RECLAIMABLE"
| "block_type EfiBootServicesData = PM_RECLAIMABLE"
| "block_type EfiACPIReclaimMemory = PM_ACPI_RECLAIM"
| "block_type EfiACPIMemoryNVS = PM_ACPI_NVS"
| "block_type EfiRuntimeServicesCode = PM_FIRMWARE"
| "block_type EfiRuntimeServicesData = PM_FIRMWARE"
| "block_type EfiMemoryMappedIO = PM_MMIO"
| "block_type EfiMemoryMappedIOPortSpace = PM_MMIO"
| "block_type (EfiOtherMemory t) = PM_RESERVED"

text \<open>
  The block of a descriptor before it gets a bitmap, and the bitmap of a usable block: all frames free, the bits past
  the end and the frame at address 0 used.
\<close>

definition init_block :: "efi_memory_descriptor \<Rightarrow> pm_block" where
  "init_block desc =
     \<lparr>address = PhysicalStart desc, frames_total = NumberOfPages desc, frames_free = 0, map_ptr = 0, map_words = [],
      btype = block_type (Type desc), attributes = Attribute desc\<rparr>"

definition usable_block :: "pm_block \<Rightarrow> efi_memory_descriptor \<Rightarrow> u64 \<Rightarrow> pm_block option" where
  "usable_block block desc words = do {
     let block = block\<lparr>map_words := replicate (unat words) 0\<rparr>;
     let block = block\<lparr>frames_free := NumberOfPages desc\<rparr>;
     block \<leftarrow> (if NumberOfPages desc mod 64 \<noteq> 0
       then map_set block (unat (words - 1)) (push_bit (unat (NumberOfPages desc mod 64)) (- 1))
       else Some block);
     if address block = 0
     then do {
       w \<leftarrow> map_get block 0;
       block \<leftarrow> map_set block 0 (w OR 1);
       Some (block\<lparr>frames_free := frames_free block - 1\<rparr>)
     }
     else Some block
   }"

text \<open>
  The rest of the loop body for a descriptor with pages: the new block, the next free word of the bitmap
  storage and the number of words left.
\<close>

definition build_block :: "efi_memory_descriptor \<Rightarrow> u64 \<Rightarrow> u64 \<Rightarrow> (pm_block \<times> u64 \<times> u64) option" where
  "build_block desc next_map words_left =
     (let block = init_block desc in
      if btype block \<noteq> PM_USABLE \<and> btype block \<noteq> PM_RECLAIMABLE then Some (block, next_map, words_left)
      else
        let words = frame_map_size (NumberOfPages desc) in
        if words > words_left then Some (block, next_map, words_left)
        else
          let block = block\<lparr>map_ptr := next_map\<rparr>;
              next_map = next_map + 8 * words;
              words_left = words_left - words
          in
          if btype block = PM_RECLAIMABLE
          then Some (block\<lparr>map_words := replicate (unat words) (- 1)\<rparr>, next_map, words_left)
          else map_option (\<lambda>b. (b, next_map, words_left)) (usable_block block desc words))"

partial_function (option) build_loop ::
  "(u64 \<Rightarrow> efi_memory_descriptor) \<Rightarrow> efi_mmap_t \<Rightarrow> u64 \<Rightarrow> u64 \<Rightarrow> pmm \<Rightarrow> u64 \<Rightarrow> u64 \<Rightarrow> pmm option" where
  "build_loop rd mmap capacity offset pm next_map words_left =
     (if offset < map_end mmap
      then
        let desc = rd offset in
        if NumberOfPages desc = 0
        then build_loop rd mmap capacity (offset + descriptorSize mmap) pm next_map words_left
        else if block_count pm = capacity then Some pm
        else Option.bind (build_block desc next_map words_left) (\<lambda>(block, next_map, words_left).
          Option.bind (aset (blocks pm) (unat (block_count pm)) block) (\<lambda>bs.
            build_loop rd mmap capacity (offset + descriptorSize mmap)
              (pm\<lparr>blocks := bs, block_count := block_count pm + 1\<rparr>) next_map words_left))
      else Some pm)"

text \<open>\<open>pm\<close> is the storage, with blocks of any contents.\<close>

definition build_pmm :: "(u64 \<Rightarrow> efi_memory_descriptor) \<Rightarrow> pmm_storage \<Rightarrow> pmm \<Rightarrow> efi_mmap_t \<Rightarrow> pmm option" where
  "build_pmm rd storage pm mmap =
     build_loop rd mmap (block_capacity storage) (map_start mmap) (pm\<lparr>block_count := 0\<rparr>)
       (bitmap storage) (bitmap_words storage)"

section \<open>Dumps\<close>

text \<open>The addresses of the manager and of its blocks are parameters.\<close>

definition dump_pmm :: "u64 \<Rightarrow> (nat \<Rightarrow> u64) \<Rightarrow> pmm \<Rightarrow> printed" where
  "dump_pmm at block_at pm =
     [(''Memory map at 0x%llx has %d blocks.'' @ nl, [PInt at, PInt (block_count pm)])] @
     map (\<lambda>i. let b = blocks pm ! i in
       (''Block %d: Address - 0x%llx, Phys. address - 0x%llx, total frames - %d, free frames - %d'' @ nl,
        [PInt (of_nat i), PInt (block_at i), PInt (address b), PInt (frames_total b), PInt (frames_free b)]))
       [0..<unat (block_count pm)] @
     [(''Total frames: %d'' @ nl, [PInt (\<Sum>i\<leftarrow>[0..<unat (block_count pm)]. frames_total (blocks pm ! i))])]"

text \<open>The call for different block counts has no arguments, though its format asks for two.\<close>

definition compare_pmm :: "u64 \<Rightarrow> u64 \<Rightarrow> pmm \<Rightarrow> pmm \<Rightarrow> printed" where
  "compare_pmm at_a at_b a b =
     [(''Comparing physical memory maps at a:0x%llx and b:0x%llx'' @ nl, [PInt at_a, PInt at_b])] @
     (if block_count a \<noteq> block_count b then [(''Block count - a: %d, b: %d'' @ nl, [])] else []) @
     concat (map (\<lambda>i. let a_block = blocks a ! i; b_block = blocks b ! i in
       (if frames_total a_block \<noteq> frames_total b_block
        then [(''Block %d frames_total - a: %d, b: %d'' @ nl,
               [PInt (of_nat i), PInt (frames_total a_block), PInt (frames_total b_block)])] else []) @
       (if frames_free a_block \<noteq> frames_free b_block
        then [(''Block %d frames_free - a: %d, b: %d'' @ nl,
               [PInt (of_nat i), PInt (frames_free a_block), PInt (frames_free b_block)])] else []))
       [0..<unat (if block_count a > block_count b then block_count b else block_count a)])"

end
