(* ===== verification/Efi_Fs.thy ===== *)
theory Efi_Fs
  imports Efi_Memory
begin

text \<open>
  Reading a file through the firmware, \<^verbatim>\<open>efi-stage/efi_fs.c\<close>, and the accounting of open files: every volume
  and file that is opened is closed again, and pool memory is kept only for a file that was read.
\<close>

section \<open>efi\_fread\<close>

text \<open>
  The loop over the volumes stops at the first that has the file. \<^verbatim>\<open>HandleProtocol\<close> yields the file system,
  \<^verbatim>\<open>OpenVolume\<close> the root directory, \<^verbatim>\<open>Open\<close> the file.
\<close>

fun volume_loop :: "'w firmware \<Rightarrow> string \<Rightarrow> u64 list \<Rightarrow> efi_status \<Rightarrow> 'w efi \<Rightarrow> efi_status \<times> u64 \<times> u64 \<times> 'w efi" where
  "volume_loop fw filename [] result e = (result, 0, 0, e)"
| "volume_loop fw filename (handle # hs) result e =
     (let (r, e) = invoke fw (HandleProtocol handle) e in
      if EFI_ERROR (status r) then volume_loop fw filename hs result e
      else
        let (r, e) = invoke fw (OpenVolume (out1 r)) e; root = out1 r in
        if EFI_ERROR (status r) then volume_loop fw filename hs result e
        else
          let (r, e) = invoke fw (OpenFile root filename) e; file = out1 r in
          if \<not> EFI_ERROR (status r) then (status r, root, file, e)
          else volume_loop fw filename hs (status r) (perform fw (CloseFile root) e))"

text \<open>The part from the label \<^verbatim>\<open>close\<close> on.\<close>

definition close_file :: "'w firmware \<Rightarrow> u64 \<Rightarrow> u64 \<Rightarrow> 'w efi \<Rightarrow> 'w efi" where
  "close_file fw root file e = perform fw (CloseFile root) (perform fw (CloseFile file) e)"

text \<open>
  The result is the status and, when the output parameters are set, the buffer and the length. The
  outputs used are the file size of \<^verbatim>\<open>GetInfo\<close> and the number of bytes of \<^verbatim>\<open>Read\<close>.
\<close>

definition read_file :: "'w firmware \<Rightarrow> u64 \<Rightarrow> 'w efi \<Rightarrow> efi_status \<times> (u64 \<times> u64) option \<times> 'w efi" where
  "read_file fw file e =
     (let (r, e) = invoke fw (GetInfo file) e in
      if EFI_ERROR (status r) then (status r, None, e)
      else
        let len = out1 r; (data, e) = efi_malloc fw len e in
        if data = 0 then (EFI_OUT_OF_RESOURCES, None, e)
        else
          let (r, e) = invoke fw (ReadFile file len data) e;
              result = (if \<not> EFI_ERROR (status r) \<and> out1 r \<noteq> len then EFI_END_OF_FILE else status r)
          in
          if EFI_ERROR result then (result, None, efi_free fw data e)
          else (result, Some (data, len), e))"

definition efi_fread :: "'w firmware \<Rightarrow> string \<Rightarrow> 'w efi \<Rightarrow> efi_status \<times> (u64 \<times> u64) option \<times> 'w efi" where
  "efi_fread fw filename e =
     (let (r, e) = invoke fw LocateHandleBuffer e in
      if EFI_ERROR (status r) then (status r, None, e)
      else
        let (result, root, file, e) = volume_loop fw filename (out_list r) EFI_NOT_FOUND e;
            e = perform fw (FreePool (out1 r)) e
        in
        if file = 0 then (if EFI_ERROR result then result else EFI_NOT_FOUND, None, e)
        else
          let (result, data, e) = read_file fw file e
          in (result, data, close_file fw root file e))"

section \<open>Open files\<close>

fun files_step :: "efi_call \<times> efi_reply \<Rightarrow> u64 multiset \<Rightarrow> u64 multiset" where
  "files_step (OpenVolume fs, r) F = (if EFI_ERROR (status r) then F else add_mset (out1 r) F)"
| "files_step (OpenFile root s, r) F = (if EFI_ERROR (status r) then F else add_mset (out1 r) F)"
| "files_step (CloseFile f, r) F = F - {#f#}"
| "files_step (c, r) F = F"

definition files :: "'w efi \<Rightarrow> u64 multiset" where
  "files e = fold files_step (trace e) {#}"

text \<open>A file that was opened is not NULL.\<close>

definition opens :: "'w firmware \<Rightarrow> bool" where
  "opens fw \<longleftrightarrow> (\<forall>root s w. EFI_ERROR (status (fst (serve fw (OpenFile root s) w))) \<or>
     out1 (fst (serve fw (OpenFile root s) w)) \<noteq> 0)"

lemma invoke_files:
  assumes "invoke fw c e = (r, e')"
  shows "files e' = files_step (c, r) (files e)"
  using assms by (auto simp: invoke_def files_def Let_def split: prod.splits)

lemma perform_files: "\<exists>r. files (perform fw c e) = files_step (c, r) (files e)"
  by (metis invoke_files perform_def prod.collapse)

lemma files_print [simp]: "files (perform fw (Print s args) e) = files e"
  using perform_files [of fw "Print s args" e] by simp

lemma files_free [simp]: "files (perform fw (FreePool h) e) = files e"
  using perform_files [of fw "FreePool h" e] by simp

lemma files_close [simp]: "files (perform fw (CloseFile f) e) = files e - {#f#}"
  using perform_files [of fw "CloseFile f" e] by simp

lemma pool_close [simp]: "pool (perform fw (CloseFile f) e) = pool e"
  using perform_pool [of fw "CloseFile f" e] by simp

lemma opensD:
  assumes "opens fw" and "invoke fw (OpenFile root s) e = (r, e')" and "\<not> EFI_ERROR (status r)"
  shows "out1 r \<noteq> 0"
  using assms unfolding opens_def invoke_def by (metis (mono_tags, lifting) case_prod_beta fst_conv)

lemma efi_malloc_files:
  assumes "efi_malloc fw n e = (p, e')"
  shows "files e' = files e"
proof -
  obtain r e1 where i: "invoke fw (AllocatePool n) e = (r, e1)" by fastforce
  then show ?thesis using assms invoke_files [OF i] by (auto simp: efi_malloc_def Let_def split: if_splits)
qed

text \<open>The volumes that are left open are the one of the file that was found, and the file.\<close>

lemma volume_loop_files:
  assumes "volume_loop fw filename hs result e = (result', root, file, e')" and "opens fw"
  shows "pool e' = pool e" and "files e' = files e + (if file = 0 then {#} else {#root, file#})"
proof -
  have "pool e' = pool e \<and> files e' = files e + (if file = 0 then {#} else {#root, file#})"
    using assms
  proof (induction fw filename hs result e rule: volume_loop.induct)
    case (1 fw filename result e)
    then show ?case by simp
  next
    case (2 fw filename h hs result e)
    obtain r1 e1 where c1: "invoke fw (HandleProtocol h) e = (r1, e1)" by fastforce
    obtain r2 e2 where c2: "invoke fw (OpenVolume (out1 r1)) e1 = (r2, e2)" by fastforce
    obtain r3 e3 where c3: "invoke fw (OpenFile (out1 r2) filename) e2 = (r3, e3)" by fastforce
    note i = c1 c2 c3
    note p = invoke_pool [OF i(1)] invoke_pool [OF i(2)] invoke_pool [OF i(3)]
      invoke_files [OF i(1)] invoke_files [OF i(2)] invoke_files [OF i(3)]
    show ?case
    proof (cases "EFI_ERROR (status r1) \<or> EFI_ERROR (status r2)")
      case True
      then show ?thesis using "2.IH" "2.prems" i p by (auto simp: Let_def split: if_splits)
    next
      case False
      show ?thesis
      proof (cases "EFI_ERROR (status r3)")
        case True
        have "volume_loop fw filename hs (status r3) (perform fw (CloseFile (out1 r2)) e3) = (result', root, file, e')"
          using "2.prems"(1) False True i by simp
        then show ?thesis
          using "2.IH"(3) [OF i(1) [symmetric] refl _ i(2) [symmetric] refl refl _ i(3) [symmetric] refl refl] False True "2.prems"(2) p by simp
      next
        case ok: False
        then have "out1 r3 \<noteq> 0" using opensD [OF "2.prems"(2) i(3)] by simp
        then show ?thesis using "2.prems"(1) False ok i p by auto
      qed
    qed
  qed
  then show "pool e' = pool e" "files e' = files e + (if file = 0 then {#} else {#root, file#})" by simp_all
qed

lemma read_file_pool:
  assumes "read_file fw file e = (result, data, e')" and "allocates fw"
  shows "pool e' = pool e + (case data of None \<Rightarrow> {#} | Some (b, n) \<Rightarrow> {#b#})" and "files e' = files e"
    and "EFI_ERROR result \<longleftrightarrow> data = None"
proof -
  obtain r1 e1 where c1: "invoke fw (GetInfo file) e = (r1, e1)" by fastforce
  obtain d e2 where c2: "efi_malloc fw (out1 r1) e1 = (d, e2)" by fastforce
  obtain r3 e3 where c3: "invoke fw (ReadFile file (out1 r1) d) e2 = (r3, e3)" by fastforce
  have p: "pool e1 = pool e" "files e1 = files e" "pool e2 = (if d = 0 then pool e1 else add_mset d (pool e1))"
      "files e2 = files e1" "pool e3 = pool e2" "files e3 = files e2"
    using invoke_pool [OF c1] invoke_files [OF c1] efi_malloc_pool [OF assms(2) c2] efi_malloc_files [OF c2]
      invoke_pool [OF c3] invoke_files [OF c3] by simp_all
  have "files (efi_free fw d e3) = files e3" by (simp add: efi_free_def)
  then have "pool e' = pool e + (case data of None \<Rightarrow> {#} | Some (b, n) \<Rightarrow> {#b#}) \<and> files e' = files e \<and>
      (EFI_ERROR result \<longleftrightarrow> data = None)"
    using assms(1) c1 c2 c3 p by (auto simp: read_file_def Let_def split: if_splits)
  then show "pool e' = pool e + (case data of None \<Rightarrow> {#} | Some (b, n) \<Rightarrow> {#b#})" "files e' = files e"
    "EFI_ERROR result \<longleftrightarrow> data = None" by simp_all
qed


lemma demo_opens: "opens demo_firmware"
  by (simp add: opens_def demo_firmware_def reply_def)


end
