(* ===== verification/Efi_Main.thy ===== *)
theory Efi_Main
  imports Efi_Pmm Efi_Fs Kernel
begin

text \<open>
  The boot stage, \<^verbatim>\<open>efi-stage/efi_video.c\<close> and \<^verbatim>\<open>efi-stage/main.c\<close>: finding the framebuffer and the ACPI
  tables, reading font and kernel, reserving the frame allocator's storage, leaving the firmware and
  filling the allocator from the final memory map. It ends in the kernel or in a \<^verbatim>\<open>hlt\<close> loop.
  Reading through a NULL pointer has no result.
\<close>

section \<open>efi\_video.c\<close>

definition get_gop :: "'w firmware \<Rightarrow> 'w efi \<Rightarrow> u64 \<times> 'w efi" where
  "get_gop fw e =
     (let (r, e) = invoke fw LocateProtocol e in
      if EFI_ERROR (status r)
      then (0, perform fw (Print (''Unable to locate Graphics Output Protocol'' @ nl) []) e)
      else (out1 r, e))"

text \<open>
  The information is the output of the last query that did not fail; it is not set before the first one.
  The current mode is compared with the index, without any effect.
\<close>

partial_function (option) graphics_info_loop ::
  "'w firmware \<Rightarrow> u64 \<Rightarrow> u64 \<Rightarrow> u64 option \<Rightarrow> 'w efi \<Rightarrow> (u64 option \<times> 'w efi) option" where
  "graphics_info_loop fw gop i info e =
     (if i < ucast (MaxMode (mode_of fw (world e) gop))
      then
        let (r, e) = invoke fw (QueryMode gop i) e;
            info = (if EFI_ERROR (status r) then info else Some (out1 r));
            (r, info, e) =
              (if EFI_ERROR (status r) \<and> status r = EFI_NOT_STARTED
               then let e = perform fw (SetMode gop 9) e;
                        (r, e) = invoke fw (QueryMode gop i) e
                 in (r, if EFI_ERROR (status r) then info else Some (out1 r), e)
               else (r, info, e))
        in
        if EFI_ERROR (status r)
        then graphics_info_loop fw gop (i + 1) info
          (perform fw (Print (''ERROR: Bad response from QueryMode(%d). EFI_ERROR: %d'' @ nl) [AInt i, AStatus (status r)]) e)
        else graphics_info_loop fw gop (i + 1) info e
      else Some (info, e))"

definition get_graphics_info :: "'w firmware \<Rightarrow> 'w efi \<Rightarrow> (u64 option \<times> 'w efi) option" where
  "get_graphics_info fw e =
     (let (gop, e) = get_gop fw e in
      if gop = 0 then None else graphics_info_loop fw gop 0 None e)"

text \<open>\<open>junk\<close> is the uninitialised local variable, whose font fields the function does not set.\<close>

definition framebuffer_init :: "'w firmware \<Rightarrow> framebuffer_t \<Rightarrow> u64 \<Rightarrow> 'w efi \<Rightarrow> (framebuffer_t \<times> 'w efi) option" where
  "framebuffer_init fw junk mrg e =
     (let (gop, e) = get_gop fw e; md = mode_of fw (world e) gop in
      if gop = 0 then None
      else Some (junk\<lparr>width := ucast (HorizontalResolution md), height := ucast (VerticalResolution md),
        pixels_per_scanline := ucast (PixelsPerScanLine md), buffer := FrameBufferBase md, margin := mrg\<rparr>, e))"

section \<open>main.c\<close>

fun display_error :: "'w firmware \<Rightarrow> efi_status \<Rightarrow> 'w efi \<Rightarrow> 'w efi" where
  "display_error fw EFI_SUCCESS e = perform fw (Print (''EFI_SUCCESS'' @ nl) []) e"
| "display_error fw EFI_INVALID_PARAMETER e = perform fw (Print (''EFI_INVALID_PARAMETER'' @ nl) []) e"
| "display_error fw EFI_UNSUPPORTED e = perform fw (Print (''EFI_UNSUPPORTED'' @ nl) []) e"
| "display_error fw EFI_BUFFER_TOO_SMALL e = perform fw (Print (''EFI_BUFFER_TOO_SMALL'' @ nl) []) e"
| "display_error fw result e = perform fw (Print (''Unknown result = 0x%x'' @ nl) [AStatus result]) e"

text \<open>The counter is 16 bits wide, the number of tables 64.\<close>

partial_function (option) rsdp2_loop :: "(bool \<times> u64) list \<Rightarrow> u16 \<Rightarrow> u64 option" where
  "rsdp2_loop ts counter =
     (if unat counter < length ts
      then if \<not> fst (ts ! unat counter) then rsdp2_loop ts (counter + 1) else Some (snd (ts ! unat counter))
      else Some 0)"

definition get_rsdp2 :: "'w firmware \<Rightarrow> 'w efi \<Rightarrow> u64 option" where
  "get_rsdp2 fw e = rsdp2_loop (tables fw (world e)) 0"

text \<open>How the boot stage ends: with a message, silently, or in the kernel.\<close>

datatype boot_end = Hanging | Halted | Kernel_started colonel_t pmm

definition hang :: "'w firmware \<Rightarrow> 'w efi \<Rightarrow> (boot_end \<times> 'w efi) option" where
  "hang fw e = Some (Hanging, perform fw (Print (''Hanging now.'' @ nl) []) e)"

text \<open>The loop that leaves the firmware. On success the second component is the final memory map.\<close>

partial_function (option) exit_loop ::
  "'w firmware \<Rightarrow> u64 \<Rightarrow> u64 \<Rightarrow> efi_mmap_t \<Rightarrow> 'w efi \<Rightarrow> (boot_end \<times> efi_mmap_t option \<times> 'w efi) option" where
  "exit_loop fw map_capacity map_buffer mm e =
     (let (r, e) = invoke fw (GetMemoryMap map_capacity map_buffer) e;
          mm = set_map r mm
      in
      if status r \<noteq> EFI_SUCCESS
      then Option.bind (hang fw (perform fw (Print (''GetMemoryMap failed: 0x%lx'' @ nl) [AStatus (status r)]) e))
        (\<lambda>(b, e). Some (b, None, e))
      else
        let (r, e) = invoke fw (ExitBootServices (map_key mm)) e in
        if status r = EFI_SUCCESS then Some (Halted, Some mm, e)
        else if status r \<noteq> EFI_INVALID_PARAMETER then Some (Halted, None, e)
        else exit_loop fw map_capacity map_buffer mm e)"

text \<open>The files, with \<^verbatim>\<open>CHR 0x5C\<close> the backslash.\<close>

definition font_path :: string where
  "font_path = CHR 0x5C # ''EFI'' @ CHR 0x5C # ''boot'' @ CHR 0x5C # ''unifont.sfn''"

definition kernel_path :: string where
  "kernel_path = CHR 0x5C # ''EFI'' @ CHR 0x5C # ''boot'' @ CHR 0x5C # ''libkernel.so''"

text \<open>
  The last part of \<^verbatim>\<open>efi_main\<close>, from the loop on. \<open>block0\<close> is the contents of a block that is not yet written.
\<close>

definition exit_and_start ::
  "'w firmware \<Rightarrow> pm_block \<Rightarrow> colonel_t \<Rightarrow> pmm_storage \<Rightarrow> u64 \<Rightarrow> u64 \<Rightarrow> efi_mmap_t \<Rightarrow> 'w efi \<Rightarrow> (boot_end \<times> 'w efi) option" where
  "exit_and_start fw block0 s st map_capacity map_buffer mm e =
     Option.bind (exit_loop fw map_capacity map_buffer mm e) (\<lambda>(b, m, e).
       case m of
         None \<Rightarrow> Some (b, e)
       | Some mm \<Rightarrow>
           let mm = mm\<lparr>map_start := map_buffer, map_end := map_buffer + map_size mm\<rparr>;
               s = s\<lparr>colonel_t.mmap_key := map_key mm\<rparr>
           in
           Option.bind (build_pmm (descriptor_at fw (world e)) st
               \<lparr>blocks = replicate (unat (block_capacity st)) block0, block_count = 0\<rparr> mm)
             (\<lambda>pm. Some (Kernel_started (s\<lparr>physical_memory := physical_memory_ptr st\<rparr>) pm, e)))"

text \<open>
  \<open>sys0\<close>, \<open>fb0\<close> and \<open>block0\<close> are the contents of memory that was allocated or declared but not yet written.
\<close>

definition efi_main :: "'w firmware \<Rightarrow> colonel_t \<Rightarrow> framebuffer_t \<Rightarrow> pm_block \<Rightarrow> 'w efi \<Rightarrow> (boot_end \<times> 'w efi) option" where
  "efi_main fw sys0 fb0 block0 e =
     (let e = perform fw ClearScreen e;
          e = perform fw SetWatchdogTimer e;
          (result, font_file, e) = efi_fread fw font_path e
      in
      if result \<noteq> EFI_SUCCESS then hang fw (perform fw (Print (''Couldn't open '' @ font_path @ nl) []) e)
      else
        let (result, kernel_file, e) = efi_fread fw kernel_path e in
        if result \<noteq> EFI_SUCCESS then hang fw (perform fw (Print (''Couldn't open '' @ kernel_path @ nl) []) e)
        else
          let (system, e) = efi_malloc fw 128 e in
          if system = 0 then hang fw e
          else do {
            rsdp \<leftarrow> get_rsdp2 fw e;
            if rsdp = 0 then hang fw (perform fw (Print (''Could not get pointer to RSDP2.'' @ nl) []) e)
            else do {
              (f, e) \<leftarrow> framebuffer_init fw fb0 10 e;
              (font_data, font_len) \<leftarrow> font_file;
              let s = sys0\<lparr>rsdp2 := rsdp, fb := f\<lparr>font_size := font_len, font := font_data\<rparr>\<rparr>;
              (result, store, e) \<leftarrow> reserve_pmm fw e;
              if result \<noteq> EFI_SUCCESS
              then hang fw (perform fw (Print (''Could not reserve physical memory manager.'' @ nl) []) e)
              else do {
                st \<leftarrow> store;
                let (r, e) = invoke fw (GetMemoryMap 0 0) e;
                let mm = set_map r \<lparr>map_start = 0, map_end = 0, map_size = 0, map_key = 0, descriptorSize = 0\<rparr>;
                let map_capacity = map_size mm + 8 * descriptorSize mm;
                let (map_buffer, e) = efi_malloc fw map_capacity e;
                if map_buffer = 0 then hang fw e
                else exit_and_start fw block0 s st map_capacity map_buffer mm e
              }
            }
          })"

end
