(* ===== verification/Efi_Pmm_Props.thy ===== *)
theory Efi_Pmm_Props
  imports Efi_Pmm
begin

text \<open>
  The frame allocator the boot stage builds is well-formed, its free frames are those of conventional
  memory but for the frame at address 0, and the storage sized from a provisional map is enough for
  a final map with few more regions.
\<close>

section \<open>One block\<close>

text \<open>What the firmware documents of a region: it lies on frame boundaries in the 52-bit physical address space.\<close>

definition region_ok :: "efi_memory_descriptor \<Rightarrow> bool" where
  "region_ok d \<longleftrightarrow> unat (PhysicalStart d) mod 4096 = 0 \<and>
     unat (PhysicalStart d) + 4096 * unat (NumberOfPages d) \<le> 2 ^ 52"

definition region_frames :: "efi_memory_descriptor \<Rightarrow> u64 set" where
  "region_frames d = (\<lambda>k. PhysicalStart d + of_nat k * frame_size) ` {0..<unat (NumberOfPages d)}"

text \<open>The bitmap of a usable block: the bits past the last frame are set.\<close>

lemma tail_bits:
  assumes "length ws = (n + 63) div 64" and "k < 64 * length ws" and "\<forall>w \<in> set ws. w = (0 :: u64)"
  shows "bit ((if n mod 64 \<noteq> 0 then ws[length ws - 1 := push_bit (n mod 64) (- 1)] else ws) ! (k div 64)) (k mod 64)
    \<longleftrightarrow> n \<le> k"
proof -
  let ?l = "length ws"
  have kd: "k div 64 < ?l" using assms(2) by (simp add: less_mult_imp_div_less mult.commute)
  then have z: "ws ! (k div 64) = 0" using assms(3) by simp
  have ks: "k = 64 * (k div 64) + k mod 64" by simp
  show ?thesis
  proof (cases "n mod 64 = 0")
    case True
    then have "64 * ((n + 63) div 64) = n" by presburger
    then have "64 * ?l = n" using assms(1) by simp
    then show ?thesis using True z assms(2) by simp
  next
    case False
    define q where "q = n div 64"
    have n: "n = 64 * q + n mod 64" by (simp add: q_def)
    have "64 * (q + 1) \<le> n + 63" "n + 63 < 64 * Suc (q + 1)"
      using False n mod_less_divisor [of 64 n] by (simp_all add: Suc_le_eq)
    then have "(n + 63) div 64 = q + 1" by (intro div_nat_eqI)
    then have l: "?l = Suc q" using assms(1) by simp
    show ?thesis
    proof (cases "k div 64 = q")
      case True
      have "n \<le> k \<longleftrightarrow> n mod 64 \<le> k mod 64" using True n ks by linarith
      then show ?thesis using True False l by (simp add: bit_simps not_less)
    next
      case neq: False
      then have "k div 64 < q" using kd l by simp
      then have "k < 64 * q" by (simp add: less_mult_imp_div_less div_less_iff_less_mult mult.commute)
      then have "k < n" using n by linarith
      then show ?thesis using neq False l z by simp
    qed
  qed
qed

text \<open>A block describes a region: its place, its type, a sound bitmap, and which of its frames are free.\<close>

definition block_for :: "efi_memory_descriptor \<Rightarrow> pm_block \<Rightarrow> bool" where
  "block_for d b \<longleftrightarrow> address b = PhysicalStart d \<and> frames_total b = NumberOfPages d \<and>
     btype b = block_type (Type d) \<and> block_ok b \<and>
     block_free b = (if Type d = EfiConventionalMemory \<and> map_ptr b \<noteq> 0 then region_frames d - {0} else {})"

lemma block_frames_region:
  "address b = PhysicalStart d \<Longrightarrow> frames_total b = NumberOfPages d \<Longrightarrow> block_frames b = region_frames d"
  by (simp add: block_frames_def region_frames_def frame_addr_def)

lemma region_pages:
  assumes "region_ok d"
  shows "unat (NumberOfPages d) \<le> 2 ^ 40" and "unat (frame_map_size (NumberOfPages d)) = (unat (NumberOfPages d) + 63) div 64"
proof -
  show n: "unat (NumberOfPages d) \<le> 2 ^ 40" using assms by (simp add: region_ok_def)
  then show "unat (frame_map_size (NumberOfPages d)) = (unat (NumberOfPages d) + 63) div 64"
    by (intro frame_map_size_unat) simp
qed

lemma usable_block_free:
  assumes r: "region_ok d" and n: "NumberOfPages d \<noteq> 0" and p: "map_ptr b \<noteq> 0"
    and b: "address b = PhysicalStart d" "frames_total b = NumberOfPages d"
  shows "\<exists>b'. usable_block b d (frame_map_size (NumberOfPages d)) = Some b' \<and>
    address b' = address b \<and> frames_total b' = frames_total b \<and> btype b' = btype b \<and> map_ptr b' = map_ptr b \<and>
    block_ok b' \<and> block_free b' = region_frames d - {0}"
proof -
  let ?w = "frame_map_size (NumberOfPages d)" and ?n = "unat (NumberOfPages d)"
  have n0: "0 < ?n" using n by (simp add: unat_gt_0)
  note w = region_pages(2) [OF r]
  have w0: "0 < unat ?w" using n0 unfolding w by (simp add: div_greater_zero_iff)
  have m: "unat (NumberOfPages d mod 64) = ?n mod 64" by (simp add: unat_mod)
  have m0: "NumberOfPages d mod 64 \<noteq> 0 \<longleftrightarrow> ?n mod 64 \<noteq> 0" using m by (simp add: word_unat_eq_iff)
  have last: "unat (?w - 1) = unat ?w - 1" using w0 unat_sub_le [of 1 ?w] by simp
  define ws where "ws = replicate (unat ?w) (0 :: u64)"
  define bu where "bu = b\<lparr>map_words := (if ?n mod 64 \<noteq> 0 then ws[length ws - 1 := push_bit (?n mod 64) (- 1)] else ws),
    frames_free := NumberOfPages d\<rparr>"
  have len: "length (map_words bu) = unat ?w" by (simp add: bu_def ws_def)
  have used: "used_bit bu k \<longleftrightarrow> ?n \<le> k" if "k < 64 * unat ?w" for k
    using tail_bits [of ws ?n k] that w by (simp add: used_bit_def bu_def ws_def)
  have "?n \<le> 64 * unat ?w" unfolding w by linarith
  then have idx: "free_idx bu = {0..<?n}" using used p b by (auto simp: free_idx_def bu_def)
  have okb: "block_ok bu"
    using r b used len idx by (auto simp: block_ok_def region_ok_def map_ok_def bu_def)
  have free: "block_free bu = region_frames d"
    using idx b by (simp add: block_free_def region_frames_def frame_addr_def bu_def)
  have u: "usable_block b d ?w = (if address b = 0 then Some (take_frame bu 0) else Some bu)"
    using p w0 last m m0 map_set_mark [of bu 0] len
    by (auto simp: usable_block_def map_set_def bu_def ws_def take_frame_def mark_def)
  show ?thesis
  proof (cases "address b = 0")
    case True
    have k: "0 \<in> free_idx bu" using idx n0 by simp
    have "frame_addr bu 0 = 0" using True by (simp add: frame_addr_def bu_def)
    then show ?thesis
      using u True block_ok_take_frame [OF okb k] block_free_take_frame [OF okb k] free by (simp add: bu_def)
  next
    case False
    have "0 \<notin> region_frames d"
    proof
      assume "0 \<in> region_frames d"
      then have "0 \<in> block_frames bu" using b block_frames_region [of bu d] by (simp add: bu_def)
      from block_frames_bounds(1) [OF okb this] have "unat (address bu) = 0" by simp
      then show False using False by (simp add: bu_def unsigned_eq_0_iff)
    qed
    then show ?thesis using u False okb free by (simp add: bu_def)
  qed
qed

lemma ram_block_type: "is_ram_type t \<longleftrightarrow> block_type t = PM_USABLE \<or> block_type t = PM_RECLAIMABLE"
  by (cases t) simp_all

lemma usable_iff: "block_type t = PM_USABLE \<longleftrightarrow> t = EfiConventionalMemory"
  by (cases t) simp_all

lemma init_block_for:
  assumes "region_ok d"
  shows "block_for d (init_block d)"
  using assms by (simp add: block_for_def init_block_def block_ok_def region_ok_def block_free_def free_idx_def)

lemma reclaimable_block_for:
  assumes r: "region_ok d" and t: "block_type (Type d) = PM_RECLAIMABLE"
  shows "block_for d (init_block d\<lparr>map_ptr := p, map_words := replicate (unat (frame_map_size (NumberOfPages d))) (- 1)\<rparr>)"
    (is "block_for d ?b")
proof -
  have ub: "used_bit ?b k" if "k < 64 * unat (frame_map_size (NumberOfPages d))" for k
  proof -
    have "k div 64 < unat (frame_map_size (NumberOfPages d))" using that by (simp add: less_mult_imp_div_less mult.commute)
    then show ?thesis by (simp add: used_bit_def)
  qed
  have "unat (NumberOfPages d) \<le> 64 * unat (frame_map_size (NumberOfPages d))"
    unfolding region_pages(2) [OF r] by linarith
  then have idx: "free_idx ?b = {}" using ub by (auto simp: free_idx_def init_block_def)
  have "Type d \<noteq> EfiConventionalMemory" using t by auto
  moreover have "block_ok ?b"
    using r idx ub by (auto simp: block_ok_def region_ok_def map_ok_def init_block_def)
  ultimately show ?thesis using idx by (simp add: block_for_def init_block_def block_free_def)
qed

text \<open>The words of the bitmap storage a region needs.\<close>

definition need :: "efi_memory_descriptor \<Rightarrow> nat" where
  "need d = (if is_ram_type (Type d) then (unat (NumberOfPages d) + 63) div 64 else 0)"

definition storage_ok :: "u64 \<Rightarrow> u64 \<Rightarrow> bool" where
  "storage_ok next_map words_left \<longleftrightarrow> next_map \<noteq> 0 \<and> unat next_map + 8 * unat words_left < 2 ^ 64"

lemma storage_ok_step:
  assumes "storage_ok next_map words_left" and "words \<le> words_left"
  shows "storage_ok (next_map + 8 * words) (words_left - words)"
    and "unat (words_left - words) = unat words_left - unat words"
proof -
  have le: "unat words \<le> unat words_left" using assms(2) by (simp add: word_le_nat_alt)
  then show l: "unat (words_left - words) = unat words_left - unat words" by (rule unat_sub_le)
  have "unat (8 * words) = 8 * unat words"
    using le assms(1) unat_mult_nowrap [of 8 words] by (simp add: storage_ok_def)
  moreover from this have n: "unat (next_map + 8 * words) = unat next_map + 8 * unat words"
    using le assms(1) unat_add_nowrap [of next_map "8 * words"] by (simp add: storage_ok_def)
  ultimately show "storage_ok (next_map + 8 * words) (words_left - words)"
    using le assms(1) l unfolding storage_ok_def word_unat_eq_iff by (simp add: diff_mult_distrib2)
qed

lemma build_block_for:
  assumes r: "region_ok d" and n: "NumberOfPages d \<noteq> 0" and s: "storage_ok next_map words_left"
  shows "\<exists>b next_map' words_left'. build_block d next_map words_left = Some (b, next_map', words_left') \<and>
    block_for d b \<and> storage_ok next_map' words_left' \<and>
    (need d \<le> unat words_left \<longrightarrow>
      unat words_left' = unat words_left - need d \<and> (is_ram_type (Type d) \<longrightarrow> map_ptr b \<noteq> 0))"
proof -
  let ?b = "init_block d" and ?w = "frame_map_size (NumberOfPages d)"
  have bt: "btype ?b = block_type (Type d)" by (simp add: init_block_def)
  have nd: "need d = unat ?w" if "is_ram_type (Type d)" using that region_pages(2) [OF r] by (simp add: need_def)
  have p: "next_map \<noteq> 0" using s by (simp add: storage_ok_def)
  consider "\<not> is_ram_type (Type d)" | "is_ram_type (Type d)" "?w > words_left"
    | "block_type (Type d) = PM_RECLAIMABLE" "\<not> ?w > words_left" | "block_type (Type d) = PM_USABLE" "\<not> ?w > words_left"
    using ram_block_type by blast
  then show ?thesis
  proof cases
    case 1
    then show ?thesis using s init_block_for [OF r] by (simp add: build_block_def bt ram_block_type need_def)
  next
    case 2
    then show ?thesis
      using s init_block_for [OF r] nd by (auto simp: build_block_def bt ram_block_type word_less_nat_alt)
  next
    case 3
    then show ?thesis
      using storage_ok_step [OF s leI [OF 3(2)]] reclaimable_block_for [OF r 3(1), of next_map] nd p
      by (simp add: build_block_def bt ram_block_type Let_def)
  next
    case 4
    obtain b where b: "usable_block (?b\<lparr>map_ptr := next_map\<rparr>) d ?w = Some b"
        "address b = PhysicalStart d" "frames_total b = NumberOfPages d" "btype b = PM_USABLE" "map_ptr b = next_map"
        "block_ok b" "block_free b = region_frames d - {0}"
      using usable_block_free [OF r n, of "?b\<lparr>map_ptr := next_map\<rparr>"] p 4(1) by (auto simp: init_block_def)
    have "Type d = EfiConventionalMemory" using 4(1) usable_iff by simp
    then have "block_for d b" using b p 4(1) by (simp add: block_for_def)
    then show ?thesis
      using storage_ok_step [OF s leI [OF 4(2)]] nd p 4 b(1,5) by (simp add: build_block_def bt ram_block_type Let_def)
  qed
qed

section \<open>The loop\<close>

text \<open>The memory map as the list of its descriptors.\<close>

definition holds_map :: "(u64 \<Rightarrow> efi_memory_descriptor) \<Rightarrow> efi_mmap_t \<Rightarrow> efi_memory_descriptor list \<Rightarrow> bool" where
  "holds_map rd mmap ds \<longleftrightarrow> descriptorSize mmap \<noteq> 0 \<and>
     unat (map_start mmap) + length ds * unat (descriptorSize mmap) < 2 ^ 64 \<and>
     map_end mmap = map_start mmap + of_nat (length ds) * descriptorSize mmap \<and>
     (\<forall>i < length ds. rd (map_start mmap + of_nat i * descriptorSize mmap) = ds ! i)"

lemma map_offset:
  assumes "holds_map rd mmap ds" and "i \<le> length ds"
  shows "unat (map_start mmap + of_nat i * descriptorSize mmap) = unat (map_start mmap) + i * unat (descriptorSize mmap)"
proof -
  have "i * unat (descriptorSize mmap) \<le> length ds * unat (descriptorSize mmap)" using assms(2) by simp
  then have lt: "unat (map_start mmap) + i * unat (descriptorSize mmap) < 2 ^ 64"
    using assms(1) unfolding holds_map_def by linarith
  have "(of_nat i * descriptorSize mmap :: u64) = of_nat (i * unat (descriptorSize mmap))" by simp
  then show ?thesis using lt by (simp only: unat_add_of_nat)
qed

lemma map_offset_less:
  assumes "holds_map rd mmap ds" and "i \<le> length ds"
  shows "map_start mmap + of_nat i * descriptorSize mmap < map_end mmap \<longleftrightarrow> i < length ds"
proof -
  have e: "map_end mmap = map_start mmap + of_nat (length ds) * descriptorSize mmap" and "descriptorSize mmap \<noteq> 0"
    using assms(1) by (simp_all add: holds_map_def)
  then have "0 < unat (descriptorSize mmap)" by (simp add: unat_gt_0)
  then show ?thesis
    unfolding word_less_nat_alt e map_offset [OF assms] map_offset [OF assms(1) order_refl] by simp
qed

text \<open>The regions that get a block, and the blocks made so far.\<close>

definition nonempty :: "efi_memory_descriptor list \<Rightarrow> efi_memory_descriptor list" where
  "nonempty ds = filter (\<lambda>d. NumberOfPages d \<noteq> 0) ds"

definition built :: "pmm \<Rightarrow> efi_memory_descriptor list \<Rightarrow> bool" where
  "built pm qs \<longleftrightarrow> block_count pm = of_nat (length qs) \<and> length qs \<le> length (blocks pm) \<and>
     (\<forall>j < length qs. block_for (qs ! j) (blocks pm ! j))"

definition mapped_from :: "nat \<Rightarrow> pmm \<Rightarrow> efi_memory_descriptor list \<Rightarrow> bool" where
  "mapped_from i pm qs \<longleftrightarrow>
     (\<forall>j. i \<le> j \<longrightarrow> j < length qs \<longrightarrow> is_ram_type (Type (qs ! j)) \<longrightarrow> map_ptr (blocks pm ! j) \<noteq> 0)"

definition build_post where
  "build_post pm qs rs words_left res \<longleftrightarrow>
     (\<exists>pm'. res = Some pm' \<and> built pm' (qs @ rs) \<and> length (blocks pm') = length (blocks pm) \<and>
        (\<forall>j < length qs. blocks pm' ! j = blocks pm ! j) \<and>
        (sum_list (map need rs) \<le> unat words_left \<longrightarrow> mapped_from (length qs) pm' (qs @ rs)))"

lemma built_add:
  assumes "built pm qs" and "length qs < length (blocks pm)" and "block_for d b"
  shows "built (pm\<lparr>blocks := (blocks pm)[length qs := b], block_count := block_count pm + 1\<rparr>) (qs @ [d])"
  using assms by (auto simp: built_def nth_append nth_list_update add.commute less_Suc_eq)

text \<open>One more block, and then the rest.\<close>

lemma build_post_step:
  assumes "build_post (pm\<lparr>blocks := (blocks pm)[length qs := b], block_count := block_count pm + 1\<rparr>) (qs @ [d]) rs left' res"
    and "length qs < length (blocks pm)"
    and "need d \<le> unat left \<Longrightarrow> unat left' = unat left - need d \<and> (is_ram_type (Type d) \<longrightarrow> map_ptr b \<noteq> 0)"
  shows "build_post pm qs (d # rs) left res"
proof -
  obtain pm' where p: "res = Some pm'" "built pm' (qs @ d # rs)" "length (blocks pm') = length (blocks pm)"
      "\<forall>j < Suc (length qs). blocks pm' ! j = (blocks pm)[length qs := b] ! j"
      "sum_list (map need rs) \<le> unat left' \<longrightarrow> mapped_from (Suc (length qs)) pm' (qs @ d # rs)"
    using assms(1) by (auto simp: build_post_def)
  have old: "\<forall>j < length qs. blocks pm' ! j = blocks pm ! j" using p(4) by (metis less_SucI nth_list_update_neq less_irrefl)
  have new: "blocks pm' ! length qs = b" using p(4) assms(2) by simp
  have "mapped_from (length qs) pm' (qs @ d # rs)" if le: "need d + sum_list (map need rs) \<le> unat left"
    unfolding mapped_from_def
  proof (intro allI impI)
    fix j assume j: "length qs \<le> j" "j < length (qs @ d # rs)" "is_ram_type (Type ((qs @ d # rs) ! j))"
    have s: "unat left' = unat left - need d" "is_ram_type (Type d) \<longrightarrow> map_ptr b \<noteq> 0" using assms(3) le by simp_all
    show "map_ptr (blocks pm' ! j) \<noteq> 0"
    proof (cases "j = length qs")
      case True
      then show ?thesis using j(3) s(2) new by simp
    next
      case False
      then show ?thesis using p(5) s(1) le j unfolding mapped_from_def by simp
    qed
  qed
  then show ?thesis using p(1-3) old by (simp add: build_post_def)
qed

text \<open>The round of the loop for a region that gets a block.\<close>

lemma build_loop_region:
  assumes "region_ok (rd offset)" and "NumberOfPages (rd offset) \<noteq> 0" and "offset < map_end mmap"
    and "built pm qs" and "storage_ok next_map left" and "length (blocks pm) = unat cap" and "length qs < unat cap"
  obtains b next' left' where
    "build_loop rd mmap cap offset pm next_map left =
      build_loop rd mmap cap (offset + descriptorSize mmap)
        (pm\<lparr>blocks := (blocks pm)[length qs := b], block_count := block_count pm + 1\<rparr>) next' left'"
    and "block_for (rd offset) b" and "storage_ok next' left'"
    and "need (rd offset) \<le> unat left \<Longrightarrow>
      unat left' = unat left - need (rd offset) \<and> (is_ram_type (Type (rd offset)) \<longrightarrow> map_ptr b \<noteq> 0)"
proof -
  have q: "length qs < 2 ^ 64" using assms(7) less_unat_u64 by blast
  have bc: "unat (block_count pm) = length qs" "block_count pm \<noteq> cap"
    using assms(4,7) unat_of_nat_u64 [OF q] by (auto simp: built_def)
  from build_block_for [OF assms(1,2,5)] obtain b next' left' where
    b: "build_block (rd offset) next_map left = Some (b, next', left')" "block_for (rd offset) b" "storage_ok next' left'"
      "need (rd offset) \<le> unat left \<Longrightarrow> unat left' = unat left - need (rd offset) \<and> (is_ram_type (Type (rd offset)) \<longrightarrow> map_ptr b \<noteq> 0)"
    by blast
  have "build_loop rd mmap cap offset pm next_map left =
      build_loop rd mmap cap (offset + descriptorSize mmap)
        (pm\<lparr>blocks := (blocks pm)[length qs := b], block_count := block_count pm + 1\<rparr>) next' left'"
    using assms(2,3,6,7) bc b(1) by (subst build_loop.simps) simp
  then show ?thesis using that b(2-4) by blast
qed

lemma build_loop_post:
  assumes "holds_map rd mmap ds" and "\<forall>d \<in> set ds. region_ok d" and "k \<le> length ds"
    and "built pm qs" and "storage_ok next_map left" and "length (blocks pm) = unat cap" and "length qs \<le> unat cap"
  shows "build_post pm qs (take (unat cap - length qs) (nonempty (drop k ds))) left
    (build_loop rd mmap cap (map_start mmap + of_nat k * descriptorSize mmap) pm next_map left)"
  using assms(3-7)
proof (induction "length ds - k" arbitrary: k pm qs next_map left)
  case 0
  then have "k = length ds" by simp
  then have "\<not> map_start mmap + of_nat k * descriptorSize mmap < map_end mmap"
    using map_offset_less [OF assms(1) "0.prems"(1)] by simp
  then have "build_loop rd mmap cap (map_start mmap + of_nat k * descriptorSize mmap) pm next_map left = Some pm"
    by (subst build_loop.simps) simp
  then show ?case using "0.prems" \<open>k = length ds\<close> by (simp add: build_post_def nonempty_def mapped_from_def)
next
  case (Suc n)
  let ?o = "map_start mmap + of_nat k * descriptorSize mmap" and ?d = "ds ! k"
  have k: "k < length ds" using Suc.hyps(2) by simp
  have o: "?o < map_end mmap" using map_offset_less [OF assms(1) Suc.prems(1)] k by simp
  have o': "?o + descriptorSize mmap = map_start mmap + of_nat (Suc k) * descriptorSize mmap" by (simp add: algebra_simps)
  have rd: "rd ?o = ?d" using assms(1) k by (simp add: holds_map_def)
  have dr: "drop k ds = ?d # drop (Suc k) ds" using k by (simp add: Cons_nth_drop_Suc)
  note IH = Suc.hyps(1) [of "Suc k"]
  consider "NumberOfPages ?d = 0" | "NumberOfPages ?d \<noteq> 0" "length qs = unat cap"
    | "NumberOfPages ?d \<noteq> 0" "length qs < unat cap" using Suc.prems(5) by linarith
  then show ?case
  proof cases
    case 1
    have "build_loop rd mmap cap ?o pm next_map left =
        build_loop rd mmap cap (map_start mmap + of_nat (Suc k) * descriptorSize mmap) pm next_map left"
      unfolding o' [symmetric] using o rd 1 by (subst build_loop.simps) simp
    moreover have "nonempty (drop k ds) = nonempty (drop (Suc k) ds)" using dr 1 by (simp add: nonempty_def)
    moreover have "n = length ds - Suc k" using Suc.hyps(2) by simp
    ultimately show ?thesis using IH [of pm qs next_map left] Suc.prems k by (simp only: Suc_le_eq)
  next
    case 2
    have "block_count pm = cap" using Suc.prems(2) 2(2) by (simp add: built_def)
    then show ?thesis
      using Suc.prems(2) 2 o rd by (subst build_loop.simps) (simp add: build_post_def mapped_from_def)
  next
    case 3
    have "region_ok (rd ?o)" "NumberOfPages (rd ?o) \<noteq> 0" using assms(2) k rd 3(1) by simp_all
    from build_loop_region [where rd = rd and offset = ?o, OF this o Suc.prems(2-4) 3(2)] obtain b next' left' where
      loop: "build_loop rd mmap cap ?o pm next_map left = build_loop rd mmap cap (?o + descriptorSize mmap)
          (pm\<lparr>blocks := (blocks pm)[length qs := b], block_count := block_count pm + 1\<rparr>) next' left'"
      and b: "block_for ?d b" "storage_ok next' left'"
        "need ?d \<le> unat left \<Longrightarrow> unat left' = unat left - need ?d \<and> (is_ram_type (Type ?d) \<longrightarrow> map_ptr b \<noteq> 0)"
      unfolding rd by blast
    let ?pm = "pm\<lparr>blocks := (blocks pm)[length qs := b], block_count := block_count pm + 1\<rparr>"
    have l: "length qs < length (blocks pm)" using 3(2) Suc.prems(4) by simp
    have "build_post ?pm (qs @ [?d]) (take (unat cap - length (qs @ [?d])) (nonempty (drop (Suc k) ds))) left'
        (build_loop rd mmap cap (map_start mmap + of_nat (Suc k) * descriptorSize mmap) ?pm next' left')"
      using Suc.hyps(2) k 3(2) Suc.prems(4) by (intro IH built_add [OF Suc.prems(2) l b(1)] b(2)) simp_all
    moreover have "take (unat cap - length qs) (nonempty (drop k ds)) =
        ?d # take (unat cap - length (qs @ [?d])) (nonempty (drop (Suc k) ds))"
      using dr 3 by (simp add: nonempty_def take_Cons')
    ultimately show ?thesis using build_post_step [OF _ l b(3)] loop o' by simp
  qed
qed

section \<open>Properties\<close>

text \<open>Regions do not overlap.\<close>

definition region_apart :: "efi_memory_descriptor \<Rightarrow> efi_memory_descriptor \<Rightarrow> bool" where
  "region_apart d c \<longleftrightarrow>
     unat (PhysicalStart d) + 4096 * unat (NumberOfPages d) \<le> unat (PhysicalStart c) \<or>
     unat (PhysicalStart c) + 4096 * unat (NumberOfPages c) \<le> unat (PhysicalStart d)"

definition map_ok_regions :: "efi_memory_descriptor list \<Rightarrow> bool" where
  "map_ok_regions ds \<longleftrightarrow> (\<forall>d \<in> set ds. region_ok d) \<and> sorted_wrt region_apart (nonempty ds)"

definition conventional_frames :: "efi_memory_descriptor list \<Rightarrow> u64 set" where
  "conventional_frames ds = (\<Union>d \<in> {d \<in> set ds. Type d = EfiConventionalMemory}. region_frames d)"

text \<open>The storage has a block for every region and a word for every 64 frames of RAM.\<close>

definition storage_fits :: "pmm_storage \<Rightarrow> efi_memory_descriptor list \<Rightarrow> bool" where
  "storage_fits st ds \<longleftrightarrow> length (nonempty ds) \<le> unat (block_capacity st) \<and>
     sum_list (map need (nonempty ds)) \<le> unat (bitmap_words st)"

lemma built_pmm_ok:
  assumes "built pm qs" and "sorted_wrt region_apart qs" and "length qs < 2 ^ 64"
  shows "pmm_ok pm"
proof -
  have bc: "unat (block_count pm) = length qs" using assms(1,3) by (simp add: built_def unat_of_nat_u64)
  have "blocks_apart (blocks pm ! i) (blocks pm ! j)" if "i < length qs" "j < i" for i j
  proof -
    have "region_apart (qs ! j) (qs ! i)" using assms(2) that by (simp add: sorted_wrt_nth_less)
    moreover have "block_for (qs ! i) (blocks pm ! i)" "block_for (qs ! j) (blocks pm ! j)"
      using assms(1) that by (simp_all add: built_def)
    ultimately show ?thesis by (auto simp: region_apart_def blocks_apart_def block_for_def)
  qed
  moreover have "block_ok (blocks pm ! i)" if "i < length qs" for i
    using assms(1) that by (simp add: built_def block_for_def)
  moreover have "length qs \<le> length (blocks pm)" using assms(1) by (simp add: built_def)
  ultimately show ?thesis by (simp add: pmm_ok_def bc)
qed

lemma region_frames_empty: "NumberOfPages d = 0 \<Longrightarrow> region_frames d = {}"
  by (simp add: region_frames_def)

lemma built_free:
  assumes "built pm qs" and "length qs < 2 ^ 64" and "set qs \<subseteq> set ds"
  shows "pmm_free pm \<subseteq> conventional_frames ds - {0}"
    and "mapped_from 0 pm qs \<Longrightarrow> qs = nonempty ds \<Longrightarrow> pmm_free pm = conventional_frames ds - {0}"
proof -
  have bc: "unat (block_count pm) = length qs" using assms(1,2) by (simp add: built_def unat_of_nat_u64)
  have f: "block_free (blocks pm ! i) =
      (if Type (qs ! i) = EfiConventionalMemory \<and> map_ptr (blocks pm ! i) \<noteq> 0 then region_frames (qs ! i) - {0} else {})"
    if "i < length qs" for i
    using assms(1) that by (simp add: built_def block_for_def)
  show sub: "pmm_free pm \<subseteq> conventional_frames ds - {0}"
  proof
    fix a assume "a \<in> pmm_free pm"
    then obtain i where i: "i < length qs" "a \<in> block_free (blocks pm ! i)" by (auto simp: pmm_free_def bc)
    then have "Type (qs ! i) = EfiConventionalMemory" "a \<in> region_frames (qs ! i) - {0}"
      using f [OF i(1)] by (auto split: if_splits)
    moreover have "qs ! i \<in> set ds" using assms(3) i(1) by auto
    ultimately show "a \<in> conventional_frames ds - {0}" by (auto simp: conventional_frames_def)
  qed
  assume m: "mapped_from 0 pm qs" and q: "qs = nonempty ds"
  have "conventional_frames ds - {0} \<subseteq> pmm_free pm"
  proof
    fix a assume "a \<in> conventional_frames ds - {0}"
    then obtain d where d: "d \<in> set ds" "Type d = EfiConventionalMemory" "a \<in> region_frames d - {0}"
      by (auto simp: conventional_frames_def)
    then have "d \<in> set qs" using q region_frames_empty by (auto simp: nonempty_def)
    then obtain i where i: "i < length qs" "qs ! i = d" by (auto simp: in_set_conv_nth)
    then have "map_ptr (blocks pm ! i) \<noteq> 0" using m d(2) by (simp add: mapped_from_def)
    then show "a \<in> pmm_free pm" using f [OF i(1)] i d by (auto simp: pmm_free_def bc)
  qed
  then show "pmm_free pm = conventional_frames ds - {0}" using sub by blast
qed

text \<open>Every block of the manager is a region of the map.\<close>

definition blocks_from :: "efi_memory_descriptor list \<Rightarrow> pmm \<Rightarrow> bool" where
  "blocks_from ds pm \<longleftrightarrow> (\<forall>i < unat (block_count pm). \<exists>d \<in> set ds. address (blocks pm ! i) = PhysicalStart d \<and>
     frames_total (blocks pm ! i) = NumberOfPages d \<and> btype (blocks pm ! i) = block_type (Type d))"

lemma built_blocks_from:
  assumes "built pm qs" and "length qs < 2 ^ 64" and "set qs \<subseteq> set ds"
  shows "blocks_from ds pm"
  unfolding blocks_from_def
proof (intro allI impI)
  fix i
  assume "i < unat (block_count pm)"
  then have i: "i < length qs" using assms(1,2) by (simp add: built_def unat_of_nat_u64)
  then have "qs ! i \<in> set ds" using assms(3) by auto
  then show "\<exists>d \<in> set ds. address (blocks pm ! i) = PhysicalStart d \<and>
     frames_total (blocks pm ! i) = NumberOfPages d \<and> btype (blocks pm ! i) = block_type (Type d)"
    using assms(1) i by (auto simp: built_def block_for_def)
qed

lemma build_pmm_spec:
  assumes "holds_map rd mmap ds" and "map_ok_regions ds" and "length (blocks pm) = unat (block_capacity st)"
    and "storage_ok (bitmap st) (bitmap_words st)"
  shows "\<exists>pm'. build_pmm rd st pm mmap = Some pm' \<and> pmm_ok pm' \<and> blocks_from ds pm' \<and>
    pmm_free pm' \<subseteq> conventional_frames ds - {0} \<and>
    (storage_fits st ds \<longrightarrow> pmm_free pm' = conventional_frames ds - {0})"
proof -
  let ?pm = "pm\<lparr>block_count := 0\<rparr>" and ?qs = "take (unat (block_capacity st)) (nonempty ds)"
  have r: "\<forall>d \<in> set ds. region_ok d" and ap: "sorted_wrt region_apart (nonempty ds)"
    using assms(2) by (simp_all add: map_ok_regions_def)
  have "build_post ?pm [] ?qs (bitmap_words st)
      (build_loop rd mmap (block_capacity st) (map_start mmap) ?pm (bitmap st) (bitmap_words st))"
    using build_loop_post [OF assms(1) r _ _ assms(4), of 0 ?pm "[]" "block_capacity st"] assms(3)
    by (simp add: built_def)
  then obtain pm' where pm': "build_pmm rd st pm mmap = Some pm'" "built pm' ?qs"
      "sum_list (map need ?qs) \<le> unat (bitmap_words st) \<longrightarrow> mapped_from 0 pm' ?qs"
    by (auto simp: build_post_def build_pmm_def)
  have "length ?qs \<le> unat (block_capacity st)" by simp
  also have "\<dots> < 2 ^ 64" by simp
  finally have len: "length ?qs < 2 ^ 64" .
  have sub: "set ?qs \<subseteq> set ds" using set_take_subset by (fastforce simp: nonempty_def)
  have "pmm_ok pm'" using built_pmm_ok [OF pm'(2) _ len] ap by (simp add: sorted_wrt_take)
  moreover have "pmm_free pm' = conventional_frames ds - {0}" if "storage_fits st ds"
    using that built_free(2) [OF pm'(2) len sub] pm'(3) by (simp add: storage_fits_def)
  ultimately show ?thesis
    using pm'(1) built_free(1) [OF pm'(2) len sub] built_blocks_from [OF pm'(2) len sub] by blast
qed

text \<open>
  C10: for every memory map whose regions lie on frame boundaries and do not overlap, build_pmm ends
  with a well-formed frame allocator; each of its blocks is a region of the map, its free frames are frames of
  conventional memory, never the one at address 0, and all the others of them when the storage has room for every
  region.
\<close>
theorem build_pmm_free:
  assumes "holds_map rd mmap ds" and "map_ok_regions ds" and "length (blocks pm) = unat (block_capacity st)"
    and "storage_ok (bitmap st) (bitmap_words st)"
  shows "\<exists>pm'. build_pmm rd st pm mmap = Some pm' \<and> pmm_ok pm' \<and> blocks_from ds pm' \<and>
    pmm_free pm' \<subseteq> conventional_frames ds - {0} \<and>
    (storage_fits st ds \<longrightarrow> pmm_free pm' = conventional_frames ds - {0})"
  using assms by (rule build_pmm_spec)

text \<open>The map of the demonstration firmware: conventional memory from 0, loader data, two device registers.\<close>

definition demo_map :: "efi_memory_descriptor list" where
  "demo_map = map (demo_descriptor 0) [0x9000, 0x9028, 0x9050, 0x9078]"

definition demo_mmap :: efi_mmap_t where
  "demo_mmap = \<lparr>map_start = 0x9000, map_end = 0x90A0, map_size = 160, map_key = 7, descriptorSize = 40\<rparr>"

definition demo_storage :: pmm_storage where
  "demo_storage = \<lparr>physical_memory_ptr = 0xA000, block_capacity = 4, bitmap = 0xB000, bitmap_words = 3\<rparr>"

lemma demo_holds_map: "holds_map (demo_descriptor w) demo_mmap demo_map"
proof -
  have "demo_descriptor w (map_start demo_mmap + of_nat i * descriptorSize demo_mmap) = demo_map ! i"
    if "i < length demo_map" for i
  proof -
    have "i < 4" using that by (simp add: demo_map_def)
    then consider "i = 0" | "i = 1" | "i = 2" | "i = 3" by linarith
    then show ?thesis by cases (simp_all add: demo_mmap_def demo_map_def demo_descriptor_def)
  qed
  then show ?thesis by (simp add: holds_map_def demo_mmap_def demo_map_def)
qed

lemma demo_map_regions: "map_ok_regions demo_map"
  by (simp add: map_ok_regions_def demo_map_def demo_descriptor_def region_ok_def nonempty_def region_apart_def)

theorem build_pmm_free_witness:
  "\<exists>pm'. build_pmm (demo_descriptor 0) demo_storage \<lparr>blocks = replicate 4 (init_block (demo_descriptor 0 0)), block_count = 0\<rparr>
       demo_mmap = Some pm' \<and> pmm_ok pm' \<and> pmm_free pm' = conventional_frames demo_map - {0}"
proof -
  have "storage_fits demo_storage demo_map"
    by (simp add: storage_fits_def demo_storage_def demo_map_def demo_descriptor_def nonempty_def need_def)
  moreover have "storage_ok (bitmap demo_storage) (bitmap_words demo_storage)"
    by (simp add: storage_ok_def demo_storage_def)
  moreover have "length (blocks \<lparr>blocks = replicate 4 (init_block (demo_descriptor 0 0)), block_count = 0\<rparr>) =
      unat (block_capacity demo_storage)" by (simp add: demo_storage_def)
  ultimately show ?thesis using build_pmm_free [OF demo_holds_map demo_map_regions] by blast
qed

section \<open>The size of the storage\<close>

definition ram_pages :: "efi_memory_descriptor list \<Rightarrow> nat" where
  "ram_pages ds = sum_list (map (\<lambda>d. unat (NumberOfPages d)) (filter (\<lambda>d. is_ram_type (Type d)) ds))"

lemma reserve_loop_sum:
  assumes "holds_map rd mmap ds" and "k \<le> length ds"
  shows "reserve_loop rd mmap (map_start mmap + of_nat k * descriptorSize mmap) c f =
    Some (c + of_nat (length (nonempty (drop k ds))), f + of_nat (ram_pages (drop k ds)))"
  using assms(2)
proof (induction "length ds - k" arbitrary: k c f)
  case 0
  then have "k = length ds" by simp
  then show ?case
    using map_offset_less [OF assms(1) "0.prems"] by (subst reserve_loop.simps) (simp add: nonempty_def ram_pages_def)
next
  case (Suc n)
  let ?o = "map_start mmap + of_nat k * descriptorSize mmap" and ?d = "ds ! k"
  have k: "k < length ds" using Suc.hyps(2) by simp
  have o: "?o < map_end mmap" using map_offset_less [OF assms(1) Suc.prems] k by simp
  have o': "?o + descriptorSize mmap = map_start mmap + of_nat (Suc k) * descriptorSize mmap" by (simp add: algebra_simps)
  have rd: "rd ?o = ?d" using assms(1) k by (simp add: holds_map_def)
  have dr: "drop k ds = ?d # drop (Suc k) ds" using k by (simp add: Cons_nth_drop_Suc)
  let ?c = "if NumberOfPages ?d \<noteq> 0 then c + 1 else c" and ?f = "if is_ram_type (Type ?d) then f + NumberOfPages ?d else f"
  have "reserve_loop rd mmap ?o c f = reserve_loop rd mmap (?o + descriptorSize mmap) ?c ?f"
    using o rd by (subst reserve_loop.simps) (simp add: Let_def)
  also have "\<dots> = Some (?c + of_nat (length (nonempty (drop (Suc k) ds))), ?f + of_nat (ram_pages (drop (Suc k) ds)))"
    unfolding o' using Suc.hyps(2) k by (intro Suc.hyps(1)) simp_all
  also have "\<dots> = Some (c + of_nat (length (nonempty (drop k ds))), f + of_nat (ram_pages (drop k ds)))"
    unfolding dr by (simp add: nonempty_def ram_pages_def add.assoc)
  finally show ?case .
qed

lemma need_sum: "64 * sum_list (map need (nonempty ds)) \<le> ram_pages ds + 63 * length (nonempty ds)"
proof (induction ds)
  case (Cons d ds)
  have "64 * need d \<le> (if is_ram_type (Type d) then unat (NumberOfPages d) else 0) + 63" by (simp add: need_def)
  then show ?case using Cons.IH by (auto simp: nonempty_def ram_pages_def)
qed (simp add: nonempty_def ram_pages_def)

lemma words_enough:
  assumes "ram_pages ds' \<le> r" and "length (nonempty ds') \<le> c"
  shows "sum_list (map need (nonempty ds')) \<le> r div 64 + c"
proof -
  have "64 * sum_list (map need (nonempty ds')) \<le> r + 63 * c" using need_sum [of ds'] assms by linarith
  moreover have "r < 64 * (r div 64 + 1)" by simp
  ultimately show ?thesis by linarith
qed

text \<open>The storage as \<^verbatim>\<open>reserve_pmm\<close> sizes it from \<open>ds\<close> fits every map with at most 16 more regions.\<close>

lemma reserved_fits:
  assumes "length (nonempty ds) < 2 ^ 32" and "ram_pages ds \<le> 2 ^ 40"
    and "block_capacity st = of_nat (length (nonempty ds)) + PMM_BLOCK_SLACK"
    and "bitmap_words st = of_nat (ram_pages ds) div 64 + block_capacity st"
    and "length (nonempty ds') \<le> length (nonempty ds) + 16" and "ram_pages ds' \<le> ram_pages ds"
  shows "storage_fits st ds'"
proof -
  let ?n = "length (nonempty ds)" and ?r = "ram_pages ds"
  have n: "unat (of_nat ?n :: u64) = ?n" "unat (of_nat ?r :: u64) = ?r"
    using assms(1,2) by (intro unat_of_nat_u64; simp)+
  have c: "unat (block_capacity st) = ?n + 16"
    using assms(1,3) n(1) unat_add_nowrap [of "of_nat ?n" 16] by (simp add: PMM_BLOCK_SLACK_def)
  have "unat (of_nat ?r div 64 :: u64) = ?r div 64" using n(2) by (simp add: unat_div)
  moreover have "?r div 64 \<le> 2 ^ 34" using assms(2) by simp
  ultimately have "unat (bitmap_words st) = ?r div 64 + (?n + 16)"
    using assms(1,4) c unat_add_nowrap [of "of_nat ?r div 64" "block_capacity st"] by simp
  then show ?thesis using c assms(5,6) words_enough [OF assms(6,5)] by (simp add: storage_fits_def)
qed

text \<open>What \<^verbatim>\<open>reserve_pmm\<close> computes from a map, and that the storage is one allocation.\<close>

definition reserved_for :: "'w firmware \<Rightarrow> efi_memory_descriptor list \<Rightarrow> pmm_storage \<Rightarrow> bool" where
  "reserved_for fw ds st \<longleftrightarrow>
     block_capacity st = of_nat (length (nonempty ds)) + PMM_BLOCK_SLACK \<and>
     bitmap_words st = of_nat (ram_pages ds) div 64 + block_capacity st \<and>
     bitmap st = physical_memory_ptr st + 16 + block_capacity st * 8 + block_capacity st * 48 \<and>
     physical_memory_ptr st \<noteq> 0 \<and>
     (\<exists>w r w'. serve fw (AllocatePool (pmm_bytes (block_capacity st) (bitmap_words st))) w = (r, w') \<and>
        status r = EFI_SUCCESS \<and> out1 r = physical_memory_ptr st)"

text \<open>
  The last call was a successful request for memory with room, from the pointer it returned on, for a manager of 16
  bytes, for as many pointers and blocks as the capacity (of 8 and 48 bytes), and then, at \<open>bitmap\<close>, for the words.
\<close>

definition storage_allocated :: "pmm_storage \<Rightarrow> 'w efi \<Rightarrow> bool" where
  "storage_allocated st e \<longleftrightarrow> (\<exists>t n r. trace e = t @ [(AllocatePool n, r)] \<and> status r = EFI_SUCCESS \<and>
     out1 r = physical_memory_ptr st \<and> physical_memory_ptr st \<noteq> 0 \<and>
     bitmap st = physical_memory_ptr st + of_nat (16 + unat (block_capacity st) * (8 + 48)) \<and>
     16 + unat (block_capacity st) * (8 + 48) + unat (bitmap_words st) * 8 \<le> unat n)"

lemma unat_reserved:
  assumes "c < 2 ^ 32" and "r \<le> 2 ^ 40"
  shows "unat (of_nat c + PMM_BLOCK_SLACK) = c + 16"
    and "unat (of_nat r div 64 + (of_nat c + PMM_BLOCK_SLACK)) = r div 64 + (c + 16)"
    and "unat (pmm_bytes (of_nat c + PMM_BLOCK_SLACK) (of_nat r div 64 + (of_nat c + PMM_BLOCK_SLACK))) =
      16 + (c + 16) * (8 + 48) + (r div 64 + (c + 16)) * 8"
proof -
  have e: "(of_nat c + PMM_BLOCK_SLACK :: u64) = of_nat (c + 16)" by (simp add: PMM_BLOCK_SLACK_def)
  have "r div 64 \<le> 2 ^ 34" using div_le_mono [OF assms(2), of 64] by simp
  then have lt: "16 + (c + 16) * 56 + (r div 64 + (c + 16)) * 8 < 2 ^ 64" using assms(1) by simp
  have "unat (of_nat r :: u64) = r" using assms(2) by (intro unat_of_nat_u64) simp
  moreover have "unat (of_nat (r div 64) :: u64) = r div 64" using lt by (intro unat_of_nat_u64) simp
  ultimately have d: "(of_nat r div 64 :: u64) = of_nat (r div 64)" by (simp add: word_unat_eq_iff unat_div)
  have w: "(of_nat r div 64 + (of_nat c + PMM_BLOCK_SLACK) :: u64) = of_nat (r div 64 + (c + 16))"
    unfolding d e of_nat_add [symmetric] ..
  have b: "pmm_bytes (of_nat (c + 16)) (of_nat (r div 64 + (c + 16))) = of_nat (16 + (c + 16) * 56 + (r div 64 + (c + 16)) * 8)"
    by (simp add: pmm_bytes_def algebra_simps)
  show "unat (of_nat c + PMM_BLOCK_SLACK) = c + 16" unfolding e using lt by (intro unat_of_nat_u64) simp
  show "unat (of_nat r div 64 + (of_nat c + PMM_BLOCK_SLACK)) = r div 64 + (c + 16)"
    unfolding w using lt by (intro unat_of_nat_u64) simp
  show "unat (pmm_bytes (of_nat c + PMM_BLOCK_SLACK) (of_nat r div 64 + (of_nat c + PMM_BLOCK_SLACK))) =
      16 + (c + 16) * (8 + 48) + (r div 64 + (c + 16)) * 8"
    unfolding w unfolding e b using lt by (simp only: unat_of_nat_u64) simp
qed

lemma efi_malloc_trace:
  assumes "allocates fw" and "efi_malloc fw n e = (p, e')" and "p \<noteq> 0"
  shows "\<exists>r. trace e' = trace e @ [(AllocatePool n, r)] \<and> status r = EFI_SUCCESS \<and> out1 r = p"
proof -
  obtain r e1 where i: "invoke fw (AllocatePool n) e = (r, e1)" by fastforce
  have "(status r = EFI_SUCCESS \<and> out1 r \<noteq> 0) \<or> EFI_ERROR (status r)" using allocatesD [OF assms(1) i] by blast
  moreover have "trace e1 = trace e @ [(AllocatePool n, r)]" using i by (auto simp: invoke_def Let_def split: prod.splits)
  ultimately show ?thesis using assms(2,3) i by (auto simp: efi_malloc_def split: if_splits)
qed

lemma reserve_pmm_spec:
  assumes "allocates fw" and "map_settles fw" and "length ds < 2 ^ 32" and "ram_pages ds \<le> 2 ^ 40"
    and "\<forall>mmap e1. getEFIMemoryMap fw \<lparr>map_start = 0, map_end = 0, map_size = 0, map_key = 0, descriptorSize = 0\<rparr> e =
      Some (EFI_SUCCESS, mmap, e1) \<longrightarrow> map_start mmap \<noteq> 0 \<and> holds_map (descriptor_at fw (world e1)) mmap ds"
  shows "\<exists>res so e'. reserve_pmm fw e = Some (res, so, e') \<and>
    (case so of
       None \<Rightarrow> res \<noteq> EFI_SUCCESS \<and> pool e' = pool e
     | Some st \<Rightarrow> res = EFI_SUCCESS \<and> pool e' = add_mset (physical_memory_ptr st) (pool e) \<and>
         reserved_for fw ds st \<and> storage_allocated st e' \<and>
         (\<forall>ds'. length (nonempty ds') \<le> length (nonempty ds) + 16 \<longrightarrow> ram_pages ds' \<le> ram_pages ds \<longrightarrow>
           storage_fits st ds'))"
proof -
  let ?m0 = "\<lparr>map_start = 0, map_end = 0, map_size = 0, map_key = 0, descriptorSize = 0\<rparr>"
  obtain st mmap e1 where g: "getEFIMemoryMap fw ?m0 e = Some (st, mmap, e1)"
      "st = EFI_SUCCESS \<or> map_start mmap = 0" "pool e1 = pool e + own (map_start mmap)"
    using getEFIMemoryMap_spec [OF assms(1,2), of ?m0 e] by blast
  show ?thesis
  proof (cases "st = EFI_SUCCESS")
    case False
    then show ?thesis using g by (simp add: reserve_pmm_def own_def)
  next
    case True
    then have h: "holds_map (descriptor_at fw (world e1)) mmap ds" and nz: "map_start mmap \<noteq> 0" using assms(5) g(1) by blast+
    define e2 where "e2 = efi_free fw (map_start mmap) e1"
    have p2: "pool e2 = pool e" using g(3) nz by (simp add: e2_def own_def)
    let ?c = "of_nat (length (nonempty ds)) + PMM_BLOCK_SLACK" and ?w = "of_nat (ram_pages ds) div 64 + (of_nat (length (nonempty ds)) + PMM_BLOCK_SLACK)"
    obtain p e3 where a: "efi_malloc fw (pmm_bytes ?c ?w) e2 = (p, e3)" by fastforce
    have p3: "pool e3 = (if p = 0 then pool e else add_mset p (pool e))" using efi_malloc_pool [OF assms(1) a] p2 by simp
    have l: "reserve_loop (descriptor_at fw (world e1)) mmap (map_start mmap) 0 0 =
        Some (of_nat (length (nonempty ds)), of_nat (ram_pages ds))"
      using reserve_loop_sum [OF h, of 0 0 0] by simp
    have "length (nonempty ds) \<le> length ds" by (simp add: nonempty_def)
    then have n: "length (nonempty ds) < 2 ^ 32" using assms(3) by (rule le_less_trans)
    show ?thesis
    proof (cases "p = 0")
      case True
      then show ?thesis using g(1) \<open>st = EFI_SUCCESS\<close> l a p3 by (simp add: reserve_pmm_def e2_def [symmetric] Let_def)
    next
      case False
      then have "\<exists>w r w'. serve fw (AllocatePool (pmm_bytes ?c ?w)) w = (r, w') \<and> status r = EFI_SUCCESS \<and> out1 r = p"
        using efi_malloc_served [OF assms(1) a] by blast
      moreover obtain r where r: "trace e3 = trace e2 @ [(AllocatePool (pmm_bytes ?c ?w), r)]" "status r = EFI_SUCCESS" "out1 r = p"
        using efi_malloc_trace [OF assms(1) a False] by blast
      have "storage_allocated \<lparr>physical_memory_ptr = p, block_capacity = ?c, bitmap = p + 16 + ?c * 8 + ?c * 48, bitmap_words = ?w\<rparr> e3"
        unfolding storage_allocated_def using r False unat_reserved [OF n assms(4)]
        by (simp add: PMM_BLOCK_SLACK_def algebra_simps)
      ultimately show ?thesis
        using g(1) True l a p3 False reserved_fits [OF n assms(4)]
        by (simp add: reserve_pmm_def e2_def [symmetric] Let_def reserved_for_def)
    qed
  qed
qed

text \<open>
  C19: reserve_pmm returns when the memory map settles; after a failure it has left no pool memory behind, and on
  success only the storage. That was requested from the firmware with enough bytes for the manager, for the pointers and blocks of
  the recorded capacity and for the recorded number of bitmap words, and the bitmap begins behind the blocks; capacity and
  words suffice for every later memory map with at most 16 more regions and no more RAM than the one it was sized from.
\<close>
theorem reserve_pmm_enough:
  assumes "allocates fw" and "map_settles fw" and "length ds < 2 ^ 32" and "ram_pages ds \<le> 2 ^ 40"
    and "\<forall>mmap e1. getEFIMemoryMap fw \<lparr>map_start = 0, map_end = 0, map_size = 0, map_key = 0, descriptorSize = 0\<rparr> e =
      Some (EFI_SUCCESS, mmap, e1) \<longrightarrow> map_start mmap \<noteq> 0 \<and> holds_map (descriptor_at fw (world e1)) mmap ds"
  shows "\<exists>res so e'. reserve_pmm fw e = Some (res, so, e') \<and>
    (case so of
       None \<Rightarrow> res \<noteq> EFI_SUCCESS \<and> pool e' = pool e
     | Some st \<Rightarrow> res = EFI_SUCCESS \<and> pool e' = add_mset (physical_memory_ptr st) (pool e) \<and> storage_allocated st e' \<and>
         (\<forall>ds'. length (nonempty ds') \<le> length (nonempty ds) + 16 \<longrightarrow> ram_pages ds' \<le> ram_pages ds \<longrightarrow>
           storage_fits st ds'))"
  using reserve_pmm_spec [OF assms] by (fastforce split: option.splits)

lemma demo_getmap:
  "\<exists>e1. getEFIMemoryMap demo_firmware \<lparr>map_start = 0, map_end = 0, map_size = 0, map_key = 0, descriptorSize = 0\<rparr> e =
     Some (EFI_SUCCESS, demo_mmap, e1)"
  by (simp add: getEFIMemoryMap_def getmap_loop.simps invoke_def demo_firmware_def reply_def set_map_def demo_mmap_def)

theorem reserve_pmm_enough_witness:
  "\<exists>res so e'. reserve_pmm demo_firmware \<lparr>trace = [], world = 0\<rparr> = Some (res, so, e') \<and>
    (case so of
       None \<Rightarrow> res \<noteq> EFI_SUCCESS \<and> pool e' = {#}
     | Some st \<Rightarrow> res = EFI_SUCCESS \<and> pool e' = {#physical_memory_ptr st#} \<and> storage_allocated st e' \<and> storage_fits st demo_map)"
proof -
  let ?e = "\<lparr>trace = [], world = 0\<rparr> :: nat efi"
  have "length demo_map < 2 ^ 32" and "ram_pages demo_map \<le> 2 ^ 40"
    by (simp_all add: demo_map_def ram_pages_def demo_descriptor_def)
  moreover have "\<forall>mmap e1. getEFIMemoryMap demo_firmware
      \<lparr>map_start = 0, map_end = 0, map_size = 0, map_key = 0, descriptorSize = 0\<rparr> ?e =
      Some (EFI_SUCCESS, mmap, e1) \<longrightarrow> map_start mmap \<noteq> 0 \<and> holds_map (descriptor_at demo_firmware (world e1)) mmap demo_map"
  proof (intro allI impI)
    fix mmap and e1 :: "nat efi"
    assume "getEFIMemoryMap demo_firmware \<lparr>map_start = 0, map_end = 0, map_size = 0, map_key = 0, descriptorSize = 0\<rparr> ?e =
      Some (EFI_SUCCESS, mmap, e1)"
    then have "mmap = demo_mmap" using demo_getmap [of ?e] by auto
    then show "map_start mmap \<noteq> 0 \<and> holds_map (descriptor_at demo_firmware (world e1)) mmap demo_map"
      using demo_holds_map [of "world e1"] by (simp add: demo_firmware_def demo_mmap_def)
  qed
  ultimately have "\<exists>res so e'. reserve_pmm demo_firmware ?e = Some (res, so, e') \<and>
    (case so of
       None \<Rightarrow> res \<noteq> EFI_SUCCESS \<and> pool e' = pool ?e
     | Some st \<Rightarrow> res = EFI_SUCCESS \<and> pool e' = add_mset (physical_memory_ptr st) (pool ?e) \<and> storage_allocated st e' \<and>
         (\<forall>ds'. length (nonempty ds') \<le> length (nonempty demo_map) + 16 \<longrightarrow> ram_pages ds' \<le> ram_pages demo_map \<longrightarrow>
           storage_fits st ds'))"
    by (rule reserve_pmm_enough [OF demo_allocates demo_settles])
  moreover have "pool ?e = {#}" by (simp add: pool_def)
  ultimately show ?thesis by (fastforce split: option.splits)
qed

end
