(* ===== verification/Efi_Main_Props.thy ===== *)
theory Efi_Main_Props
  imports Efi_Main Efi_Pmm_Props Kernel_Props Console_Props
begin

text \<open>
  The boot stage as a whole: it leaves the firmware with the key of the memory map it has just fetched, calls no
  service after that, and hands the kernel a well-formed frame allocator.
\<close>

section \<open>Leaving the firmware\<close>

definition exited :: "'w efi \<Rightarrow> bool" where
  "exited e \<longleftrightarrow> (\<exists>k r. (ExitBootServices k, r) \<in> set (trace e) \<and> status r = EFI_SUCCESS)"

lemma exited_invoke:
  assumes "invoke fw c e = (r, e')"
  shows "exited e' \<longleftrightarrow> exited e \<or> (\<exists>k. c = ExitBootServices k) \<and> status r = EFI_SUCCESS"
proof -
  have "trace e' = trace e @ [(c, r)]" using assms by (auto simp: invoke_def Let_def split: prod.splits)
  then show ?thesis unfolding exited_def by simp blast
qed

lemma exited_perform:
  assumes "\<And>k. c \<noteq> ExitBootServices k"
  shows "exited (perform fw c e) \<longleftrightarrow> exited e"
  using exited_invoke [of fw c e] assms by (metis perform_def prod.collapse)

lemma exited_perform_simps [simp]:
  "exited (perform fw (Print s a) e) \<longleftrightarrow> exited e" "exited (perform fw (FreePool h) e) \<longleftrightarrow> exited e"
  "exited (perform fw (CloseFile h) e) \<longleftrightarrow> exited e" "exited (perform fw ClearScreen e) \<longleftrightarrow> exited e"
  "exited (perform fw SetWatchdogTimer e) \<longleftrightarrow> exited e"
  by (simp_all add: exited_perform)

lemma exited_malloc:
  assumes "efi_malloc fw n e = (p, e')"
  shows "exited e' \<longleftrightarrow> exited e"
proof -
  obtain r e1 where i: "invoke fw (AllocatePool n) e = (r, e1)" by fastforce
  then show ?thesis using assms exited_invoke [OF i] by (auto simp: efi_malloc_def Let_def split: if_splits)
qed

lemma exited_volume_loop:
  assumes "volume_loop fw filename hs result e = (result', root, fl, e')"
  shows "exited e' \<longleftrightarrow> exited e"
  using assms
proof (induction fw filename hs result e rule: volume_loop.induct)
  case (2 fw filename h hs result e)
  obtain r1 e1 where c1: "invoke fw (HandleProtocol h) e = (r1, e1)" by fastforce
  obtain r2 e2 where c2: "invoke fw (OpenVolume (out1 r1)) e1 = (r2, e2)" by fastforce
  obtain r3 e3 where c3: "invoke fw (OpenFile (out1 r2) filename) e2 = (r3, e3)" by fastforce
  have x: "exited e1 = exited e" "exited e2 = exited e" "exited e3 = exited e"
    using exited_invoke [OF c1] exited_invoke [OF c2] exited_invoke [OF c3] by simp_all
  then show ?case using "2.IH" "2.prems" c1 c2 c3 by (simp add: Let_def split: if_splits)
qed simp

lemma exited_fread:
  assumes "efi_fread fw filename e = (result, data, e')"
  shows "exited e' \<longleftrightarrow> exited e"
proof -
  obtain r1 e1 where c1: "invoke fw LocateHandleBuffer e = (r1, e1)" by fastforce
  obtain res root fl e2 where v: "volume_loop fw filename (out_list r1) EFI_NOT_FOUND e1 = (res, root, fl, e2)"
    by (metis prod_cases4)
  define e3 where "e3 = perform fw (FreePool (out1 r1)) e2"
  obtain r4 e4 where c4: "invoke fw (GetInfo fl) e3 = (r4, e4)" by fastforce
  obtain d e5 where c5: "efi_malloc fw (out1 r4) e4 = (d, e5)" by fastforce
  obtain r6 e6 where c6: "invoke fw (ReadFile fl (out1 r4) d) e5 = (r6, e6)" by fastforce
  have "exited e1 = exited e" "exited e2 = exited e1" "exited e3 = exited e2" "exited e4 = exited e3"
      "exited e5 = exited e4" "exited e6 = exited e5"
    using exited_invoke [OF c1] exited_volume_loop [OF v] exited_invoke [OF c4] exited_malloc [OF c5] exited_invoke [OF c6]
    by (simp_all add: e3_def)
  then show ?thesis
    using assms c1 v c4 c5 c6
    by (auto simp: efi_fread_def e3_def [symmetric] read_file_def close_file_def efi_free_def Let_def split: if_splits)
qed

lemma exited_gop:
  assumes "get_gop fw e = (g, e')"
  shows "exited e' \<longleftrightarrow> exited e"
proof -
  obtain r e1 where i: "invoke fw LocateProtocol e = (r, e1)" by fastforce
  then show ?thesis using assms exited_invoke [OF i] by (auto simp: get_gop_def split: if_splits)
qed

lemma exited_getmap_loop:
  assumes "getmap_loop fw mm b e = Some res"
  shows "exited (snd (snd (snd res))) \<longleftrightarrow> exited e"
  using assms
proof (induction rule: getmap_loop.raw_induct [rotated, consumes 1])
  case (1 loop fw mm b e res)
  obtain r e1 where g: "invoke fw (GetMemoryMap (map_size mm) b) e = (r, e1)" by fastforce
  define e2 where "e2 = (if b \<noteq> 0 then perform fw (FreePool b) e1 else e1)"
  obtain r2 e3 where a: "invoke fw (AllocatePool (out1 r + 2 * out3 r)) e2 = (r2, e3)" by fastforce
  have "exited e3 = exited e" "exited e1 = exited e"
    using exited_invoke [OF g] exited_invoke [OF a] by (simp_all add: e2_def)
  then show ?case
    using "1.hyps" "1.IH" g a by (auto simp: Let_def set_map_def e2_def [symmetric] split: if_splits)
qed

section \<open>What the firmware documents\<close>

text \<open>A reply to \<^verbatim>\<open>GetMemoryMap\<close> describes a map in the buffer \<open>b\<close>.\<close>

definition reply_map :: "u64 \<Rightarrow> efi_reply \<Rightarrow> efi_mmap_t" where
  "reply_map b r = \<lparr>map_start = b, map_end = b + out1 r, map_size = out1 r, map_key = out2 r, descriptorSize = out3 r\<rparr>"

definition valid_map :: "'w firmware \<Rightarrow> 'w \<Rightarrow> u64 \<Rightarrow> efi_reply \<Rightarrow> bool" where
  "valid_map fw w b r \<longleftrightarrow> (\<exists>ds. holds_map (descriptor_at fw w) (reply_map b r) ds \<and> map_ok_regions ds \<and>
     length ds < 2 ^ 32 \<and> ram_pages ds \<le> 2 ^ 40)"

text \<open>
  After a successful \<^verbatim>\<open>GetMemoryMap\<close> the buffer holds the map, also after the services are left. The key may be stale
  when it is used, but only a bounded number of times in a row. Pool memory does not wrap around the address space.
  There is a graphics device, and fewer than 65536 configuration tables.
\<close>

definition maps_valid :: "'w firmware \<Rightarrow> bool" where
  "maps_valid fw \<longleftrightarrow> (\<forall>n b w r w'. serve fw (GetMemoryMap n b) w = (r, w') \<longrightarrow> status r = EFI_SUCCESS \<longrightarrow>
     b \<noteq> 0 \<and> valid_map fw w' b r \<and> (\<forall>k. valid_map fw (snd (serve fw (ExitBootServices k) w')) b r))"

definition keys_settle :: "'w firmware \<Rightarrow> bool" where
  "keys_settle fw \<longleftrightarrow> (\<exists>\<mu> :: 'w \<Rightarrow> nat. \<forall>n b w r w' r2 w2. serve fw (GetMemoryMap n b) w = (r, w') \<longrightarrow> status r = EFI_SUCCESS \<longrightarrow>
     serve fw (ExitBootServices (out2 r)) w' = (r2, w2) \<longrightarrow> status r2 = EFI_INVALID_PARAMETER \<longrightarrow> \<mu> w2 < \<mu> w)"

definition pool_in_space :: "'w firmware \<Rightarrow> bool" where
  "pool_in_space fw \<longleftrightarrow> (\<forall>n w r w'. serve fw (AllocatePool n) w = (r, w') \<longrightarrow> status r = EFI_SUCCESS \<longrightarrow>
     unat (out1 r) + unat n < 2 ^ 64)"

definition has_screen :: "'w firmware \<Rightarrow> bool" where
  "has_screen fw \<longleftrightarrow> (\<forall>w. \<not> EFI_ERROR (status (fst (serve fw LocateProtocol w))) \<and> out1 (fst (serve fw LocateProtocol w)) \<noteq> 0) \<and>
     (\<forall>w. length (tables fw w) < 2 ^ 16)"

section \<open>Parts of the boot stage\<close>

lemma rsdp2_loop_returns:
  assumes "length ts < 2 ^ 16"
  shows "\<exists>p. rsdp2_loop ts c = Some p"
proof (induction "length ts - unat c" arbitrary: c)
  case 0
  then show ?case by (subst rsdp2_loop.simps) simp
next
  case (Suc n)
  then have c: "unat c < length ts" by simp
  then have "unat (c + 1) = Suc (unat c)" using assms by (simp add: unat_word_ariths)
  then have "\<exists>p. rsdp2_loop ts (c + 1) = Some p" using Suc by (intro Suc.hyps(1)) simp
  then show ?case using c by (subst rsdp2_loop.simps) auto
qed

lemma get_gop_found:
  assumes "has_screen fw" and "get_gop fw e = (g, e')"
  shows "g \<noteq> 0"
  using assms by (auto simp: has_screen_def get_gop_def invoke_def Let_def split: prod.splits if_splits) (metis fst_conv)+

text \<open>The map that \<^verbatim>\<open>getEFIMemoryMap\<close> returns is the one of its last call.\<close>

lemma getmap_loop_last:
  assumes "getmap_loop fw mm b e = Some res" and "fst res = EFI_SUCCESS"
  shows "\<exists>n w r. serve fw (GetMemoryMap n (fst (snd (snd res)))) w = (r, world (snd (snd (snd res)))) \<and>
    status r = EFI_SUCCESS \<and> map_size (fst (snd res)) = out1 r \<and> descriptorSize (fst (snd res)) = out3 r"
  using assms
proof (induction rule: getmap_loop.raw_induct [rotated, consumes 1])
  case (1 loop fw mm b e res)
  obtain r e1 where g: "invoke fw (GetMemoryMap (map_size mm) b) e = (r, e1)" by fastforce
  then have s: "serve fw (GetMemoryMap (map_size mm) b) (world e) = (r, world e1)"
    by (auto simp: invoke_def Let_def split: prod.splits)
  define e2 where "e2 = (if b \<noteq> 0 then perform fw (FreePool b) e1 else e1)"
  obtain r2 e3 where a: "invoke fw (AllocatePool (out1 r + 2 * out3 r)) e2 = (r2, e3)" by fastforce
  show ?case
  proof (cases "status r = EFI_SUCCESS")
    case True
    then have "res = (EFI_SUCCESS, set_map r mm, b, e1)" using "1.hyps" g by (simp add: Let_def)
    then show ?thesis using s True by (auto simp: set_map_def)
  next
    case False
    have ts: "status r = EFI_BUFFER_TOO_SMALL" using "1.hyps" "1.prems" g False by (auto simp: Let_def split: if_splits)
    then have ok: "status r2 = EFI_SUCCESS"
      using "1.hyps" "1.prems" g a by (auto simp: Let_def set_map_def e2_def [symmetric] split: if_splits)
    have "loop fw (set_map r mm\<lparr>map_size := out1 r + 2 * out3 r\<rparr>) (out1 r2) e3 = Some res"
      using "1.hyps" g a ts ok by (simp add: Let_def set_map_def e2_def [symmetric])
    from "1.IH" [OF this "1.prems"] show ?thesis .
  qed
qed

lemma holds_map_cong:
  assumes "holds_map rd mm ds" and "map_start mm' = map_start mm" and "map_end mm' = map_end mm"
    and "descriptorSize mm' = descriptorSize mm"
  shows "holds_map rd mm' ds"
  using assms by (simp add: holds_map_def)

lemma getEFIMemoryMap_valid:
  assumes "maps_valid fw" and "getEFIMemoryMap fw mm0 e = Some (EFI_SUCCESS, mm, e1)"
  shows "map_start mm \<noteq> 0 \<and> (\<exists>ds. holds_map (descriptor_at fw (world e1)) mm ds \<and> length ds < 2 ^ 32 \<and> ram_pages ds \<le> 2 ^ 40)"
    and "exited e1 \<longleftrightarrow> exited e"
proof -
  obtain st mm1 b e2 where l: "getmap_loop fw mm0 0 e = Some (st, mm1, b, e2)"
    using assms(2) by (auto simp: getEFIMemoryMap_def split: bind_splits)
  then have r: "st = EFI_SUCCESS" "mm = mm1\<lparr>map_start := b, map_end := b + map_size mm1\<rparr>" "e1 = e2"
    using assms(2) by (auto simp: getEFIMemoryMap_def Let_def split: if_splits)
  obtain n w r where s: "serve fw (GetMemoryMap n b) w = (r, world e2)" "status r = EFI_SUCCESS"
      "map_size mm1 = out1 r" "descriptorSize mm1 = out3 r"
    using getmap_loop_last [OF l] r(1) by auto
  have "b \<noteq> 0 \<and> valid_map fw (world e2) b r" using assms(1) s(1,2) unfolding maps_valid_def by blast
  then show "map_start mm \<noteq> 0 \<and> (\<exists>ds. holds_map (descriptor_at fw (world e1)) mm ds \<and> length ds < 2 ^ 32 \<and> ram_pages ds \<le> 2 ^ 40)"
    using r s(3,4) holds_map_cong [of _ "reply_map b r" _ mm] unfolding valid_map_def by (auto simp: reply_map_def)
  show "exited e1 \<longleftrightarrow> exited e" using exited_getmap_loop [OF l] r(3) by simp
qed

lemma reserved_storage_ok:
  assumes "reserved_for fw ds st" and "pool_in_space fw" and "length ds < 2 ^ 32" and "ram_pages ds \<le> 2 ^ 40"
  shows "storage_ok (bitmap st) (bitmap_words st)"
proof -
  let ?n = "length (nonempty ds)" and ?r = "ram_pages ds" and ?p = "physical_memory_ptr st"
  let ?c = "block_capacity st" and ?w = "bitmap_words st"
  have nl: "?n < 2 ^ 32" using assms(3) by (rule le_less_trans [rotated]) (simp add: nonempty_def)
  have n: "unat (of_nat ?n :: u64) = ?n" "unat (of_nat ?r :: u64) = ?r"
    using nl assms(4) by (intro unat_of_nat_u64; simp)+
  have c: "unat ?c = ?n + 16"
    using assms(1) nl n(1) unat_add_nowrap [of "of_nat ?n" 16] by (simp add: reserved_for_def PMM_BLOCK_SLACK_def)
  have "unat (of_nat ?r div 64 :: u64) = ?r div 64" using n(2) by (simp add: unat_div)
  moreover have "?r div 64 \<le> 2 ^ 34" using assms(4) by simp
  ultimately have w: "unat ?w \<le> 2 ^ 34 + unat ?c"
    using assms(1) c nl unat_add_nowrap [of "of_nat ?r div 64" ?c] by (simp add: reserved_for_def)
  have "(16 + ?c * 8 + ?c * 48 :: u64) = 16 + of_nat (56 * unat ?c)" by simp
  then have h: "unat (16 + ?c * 8 + ?c * 48) = 16 + 56 * unat ?c"
    using c nl unat_add_of_nat [of 16 "56 * unat ?c"] by simp
  have "pmm_bytes ?c ?w = (16 + ?c * 8 + ?c * 48) + of_nat (8 * unat ?w)" by (simp add: pmm_bytes_def)
  then have b: "unat (pmm_bytes ?c ?w) = 16 + 56 * unat ?c + 8 * unat ?w"
    using c nl w h unat_add_of_nat [of "16 + ?c * 8 + ?c * 48" "8 * unat ?w"] by simp
  have "unat ?p + unat (pmm_bytes ?c ?w) < 2 ^ 64"
    using assms(1,2) unfolding reserved_for_def pool_in_space_def by metis
  then have lt: "unat ?p + (16 + 56 * unat ?c) + 8 * unat ?w < 2 ^ 64" using b by simp
  have "bitmap st = ?p + (16 + ?c * 8 + ?c * 48)" using assms(1) by (simp add: reserved_for_def add.assoc)
  then have "unat (bitmap st) = unat ?p + (16 + 56 * unat ?c)"
    using lt h unat_add_nowrap [of ?p "16 + ?c * 8 + ?c * 48"] by simp
  then show ?thesis using lt by (auto simp: storage_ok_def)
qed

text \<open>A framebuffer that describes a graphics mode of the firmware.\<close>

definition shows_mode :: "'w firmware \<Rightarrow> framebuffer_t \<Rightarrow> bool" where
  "shows_mode fw f \<longleftrightarrow> (\<exists>w gop. width f = ucast (HorizontalResolution (mode_of fw w gop)) \<and>
     height f = ucast (VerticalResolution (mode_of fw w gop)) \<and>
     pixels_per_scanline f = ucast (PixelsPerScanLine (mode_of fw w gop)) \<and>
     buffer f = FrameBufferBase (mode_of fw w gop) \<and> margin f = 10)"

text \<open>
  The end of the boot stage: the last two calls fetched the memory map and left the firmware with its key, and the
  kernel gets the key, the framebuffer and a well-formed allocator of the regions of that map, whose free frames
  are conventional memory without the frame at address 0; or the services were not left.
\<close>

definition left_with :: "'w firmware \<Rightarrow> 'w efi \<Rightarrow> u64 \<Rightarrow> efi_reply \<Rightarrow> bool" where
  "left_with fw e buf r1 \<longleftrightarrow> (\<exists>tr n r2 w0 w1. trace e = tr @ [(GetMemoryMap n buf, r1), (ExitBootServices (out2 r1), r2)] \<and>
     serve fw (GetMemoryMap n buf) w0 = (r1, w1) \<and> serve fw (ExitBootServices (out2 r1)) w1 = (r2, world e) \<and>
     status r1 = EFI_SUCCESS \<and> status r2 = EFI_SUCCESS \<and>
     \<not> (\<exists>k r. (ExitBootServices k, r) \<in> set tr \<and> status r = EFI_SUCCESS))"

definition handed_over :: "'w firmware \<Rightarrow> boot_end \<Rightarrow> 'w efi \<Rightarrow> bool" where
  "handed_over fw b e = (case b of
     Kernel_started s pm \<Rightarrow> pmm_ok pm \<and> shows_mode fw (fb s) \<and>
       (\<exists>buf r1 ds. left_with fw e buf r1 \<and> colonel_t.mmap_key s = out2 r1 \<and>
          holds_map (descriptor_at fw (world e)) (reply_map buf r1) ds \<and> blocks_from ds pm \<and>
          pmm_free pm \<subseteq> conventional_frames ds - {0})
   | _ \<Rightarrow> \<not> exited e)"

abbreviation good_end :: "'w firmware \<Rightarrow> (boot_end \<times> 'w efi) option \<Rightarrow> bool" where
  "good_end fw res \<equiv> (\<exists>b e. res = Some (b, e) \<and> handed_over fw b e)"

lemma hang_good: "\<not> exited e \<Longrightarrow> good_end fw (hang fw e)"
  by (simp add: hang_def handed_over_def)

text \<open>One round of the loop that leaves the firmware.\<close>

lemma exit_round:
  assumes "maps_valid fw" and "\<not> exited e" and "invoke fw (GetMemoryMap cap buf) e = (r1, e1)"
    and "status r1 = EFI_SUCCESS" and "invoke fw (ExitBootServices (out2 r1)) e1 = (r2, e2)"
  shows "valid_map fw (world e2) buf r1"
    and "status r2 = EFI_SUCCESS \<Longrightarrow> left_with fw e2 buf r1"
    and "status r2 \<noteq> EFI_SUCCESS \<Longrightarrow> \<not> exited e2"
proof -
  have s: "serve fw (GetMemoryMap cap buf) (world e) = (r1, world e1)" "trace e1 = trace e @ [(GetMemoryMap cap buf, r1)]"
    using assms(3) by (auto simp: invoke_def Let_def split: prod.splits)
  have t: "serve fw (ExitBootServices (out2 r1)) (world e1) = (r2, world e2)" "trace e2 = trace e1 @ [(ExitBootServices (out2 r1), r2)]"
    using assms(5) by (auto simp: invoke_def Let_def split: prod.splits)
  show "valid_map fw (world e2) buf r1"
    using assms(1,4) s(1) t(1) unfolding maps_valid_def by (metis snd_conv)
  show "left_with fw e2 buf r1" if "status r2 = EFI_SUCCESS"
    using assms(2,4) s t that unfolding left_with_def exited_def by auto
  show "\<not> exited e2" if "status r2 \<noteq> EFI_SUCCESS"
    using exited_invoke [OF assms(3)] exited_invoke [OF assms(5)] assms(2) that by simp
qed

lemma exit_loop_ends:
  assumes "maps_valid fw" and "keys_settle fw" and "\<not> exited e"
  shows "\<exists>b m e'. exit_loop fw cap buf mm e = Some (b, m, e') \<and>
    (case m of
       None \<Rightarrow> handed_over fw b e'
     | Some mm' \<Rightarrow> \<exists>r1. left_with fw e' buf r1 \<and> map_size mm' = out1 r1 \<and> map_key mm' = out2 r1 \<and>
         descriptorSize mm' = out3 r1 \<and> valid_map fw (world e') buf r1)"
proof -
  obtain \<mu> :: "'a \<Rightarrow> nat" where \<mu>: "\<And>n b w r w' r2 w2. serve fw (GetMemoryMap n b) w = (r, w') \<Longrightarrow> status r = EFI_SUCCESS \<Longrightarrow>
      serve fw (ExitBootServices (out2 r)) w' = (r2, w2) \<Longrightarrow> status r2 = EFI_INVALID_PARAMETER \<Longrightarrow> \<mu> w2 < \<mu> w"
    using assms(2) unfolding keys_settle_def by metis
  show ?thesis
    using assms(3)
  proof (induction "\<mu> (world e)" arbitrary: e mm rule: less_induct)
    case less
    obtain r1 e1 where g: "invoke fw (GetMemoryMap cap buf) e = (r1, e1)" by fastforce
    obtain r2 e2 where x: "invoke fw (ExitBootServices (out2 r1)) e1 = (r2, e2)" by fastforce
    have ne: "\<not> exited e1" using exited_invoke [OF g] less.prems by simp
    have set: "map_key (set_map r1 mm) = out2 r1" "map_size (set_map r1 mm) = out1 r1" "descriptorSize (set_map r1 mm) = out3 r1"
      by (simp_all add: set_map_def)
    consider "status r1 \<noteq> EFI_SUCCESS" | "status r1 = EFI_SUCCESS" "status r2 = EFI_SUCCESS"
      | "status r1 = EFI_SUCCESS" "status r2 \<noteq> EFI_SUCCESS" "status r2 \<noteq> EFI_INVALID_PARAMETER"
      | "status r1 = EFI_SUCCESS" "status r2 = EFI_INVALID_PARAMETER" by fastforce
    then show ?case
    proof cases
      case 1
      then show ?thesis using g ne by (subst exit_loop.simps) (simp add: hang_def handed_over_def)
    next
      case 2
      then show ?thesis using g x set exit_round [OF assms(1) less.prems g 2(1) x] by (subst exit_loop.simps) auto
    next
      case 3
      then show ?thesis using g x set exit_round(3) [OF assms(1) less.prems g 3(1) x]
        by (subst exit_loop.simps) (simp add: handed_over_def)
    next
      case 4
      have "serve fw (GetMemoryMap cap buf) (world e) = (r1, world e1)"
          "serve fw (ExitBootServices (out2 r1)) (world e1) = (r2, world e2)"
        using g x by (auto simp: invoke_def Let_def split: prod.splits)
      then have "\<mu> (world e2) < \<mu> (world e)" using \<mu> 4 by blast
      moreover have "\<not> exited e2" using exit_round(3) [OF assms(1) less.prems g 4(1) x] 4(2) by simp
      moreover have "exit_loop fw cap buf mm e = exit_loop fw cap buf (set_map r1 mm) e2"
        using g x set 4 by (subst exit_loop.simps) simp
      ultimately show ?thesis using less.hyps [of e2 "set_map r1 mm"] by simp
    qed
  qed
qed

text \<open>From the storage on: the second half of \<^verbatim>\<open>efi_main\<close>.\<close>

lemma leave_firmware:
  assumes "maps_valid fw" and "keys_settle fw" and "\<not> exited e" and "reserved_for fw ds st" and "pool_in_space fw"
    and "length ds < 2 ^ 32" and "ram_pages ds \<le> 2 ^ 40" and "shows_mode fw (fb s)"
  shows "good_end fw (exit_and_start fw block0 s st cap buf mm e)"
proof -
  obtain b m e' where x: "exit_loop fw cap buf mm e = Some (b, m, e')"
      "case m of
       None \<Rightarrow> handed_over fw b e'
     | Some mm' \<Rightarrow> \<exists>r1. left_with fw e' buf r1 \<and> map_size mm' = out1 r1 \<and> map_key mm' = out2 r1 \<and>
         descriptorSize mm' = out3 r1 \<and> valid_map fw (world e') buf r1"
    using exit_loop_ends [OF assms(1-3), of cap buf mm] by blast
  show ?thesis
  proof (cases m)
    case None
    then show ?thesis using x by (simp add: exit_and_start_def)
  next
    case (Some mm')
    then obtain r1 where r: "left_with fw e' buf r1" "map_size mm' = out1 r1" "map_key mm' = out2 r1"
        "descriptorSize mm' = out3 r1" "valid_map fw (world e') buf r1"
      using x(2) by auto
    let ?mm = "mm'\<lparr>map_start := buf, map_end := buf + map_size mm'\<rparr>"
    obtain ds' where ds': "holds_map (descriptor_at fw (world e')) (reply_map buf r1) ds'" "map_ok_regions ds'"
      using r(5) by (auto simp: valid_map_def)
    have h: "holds_map (descriptor_at fw (world e')) ?mm ds'"
      using ds'(1) by (rule holds_map_cong) (simp_all add: r(2-4) reply_map_def)
    have so: "storage_ok (bitmap st) (bitmap_words st)" by (rule reserved_storage_ok [OF assms(4-7)])
    obtain pm where pm: "build_pmm (descriptor_at fw (world e')) st
        \<lparr>blocks = replicate (unat (block_capacity st)) block0, block_count = 0\<rparr> ?mm = Some pm"
        "pmm_ok pm" "blocks_from ds' pm" "pmm_free pm \<subseteq> conventional_frames ds' - {0}"
      using build_pmm_spec [OF h ds'(2) _ so, of "\<lparr>blocks = replicate (unat (block_capacity st)) block0, block_count = 0\<rparr>"] by auto
    have "handed_over fw (Kernel_started (s\<lparr>colonel_t.mmap_key := map_key ?mm, physical_memory := physical_memory_ptr st\<rparr>) pm) e'"
      using pm(2-4) r(1,3) assms(8) ds'(1) unfolding handed_over_def by fastforce
    then show ?thesis using x(1) Some pm(1) by (simp add: exit_and_start_def Let_def)
  qed
qed

lemma exited_getmap:
  assumes "getEFIMemoryMap fw mm0 e = Some (st, mm, e1)"
  shows "exited e1 \<longleftrightarrow> exited e"
proof -
  obtain st' mm1 b e2 where l: "getmap_loop fw mm0 0 e = Some (st', mm1, b, e2)"
    using assms by (auto simp: getEFIMemoryMap_def split: bind_splits)
  then show ?thesis
    using exited_getmap_loop [OF l] assms by (auto simp: getEFIMemoryMap_def Let_def split: if_splits)
qed

lemma exited_reserve:
  assumes "reserve_pmm fw e = Some (res, so, e')"
  shows "exited e' \<longleftrightarrow> exited e"
proof -
  obtain st mm e1 where g: "getEFIMemoryMap fw \<lparr>map_start = 0, map_end = 0, map_size = 0, map_key = 0, descriptorSize = 0\<rparr> e =
      Some (st, mm, e1)"
    using assms by (auto simp: reserve_pmm_def split: bind_splits)
  note x1 = exited_getmap [OF g]
  show ?thesis
  proof (cases "st = EFI_SUCCESS")
    case False
    then show ?thesis using assms g x1 by (auto simp: reserve_pmm_def)
  next
    case True
    then obtain c f where l: "reserve_loop (descriptor_at fw (world e1)) mm (map_start mm) 0 0 = Some (c, f)"
      using assms g by (auto simp: reserve_pmm_def split: bind_splits)
    let ?c = "c + PMM_BLOCK_SLACK"
    obtain p e2 where a: "efi_malloc fw (pmm_bytes ?c (f div 64 + ?c)) (efi_free fw (map_start mm) e1) = (p, e2)" by fastforce
    have "exited e2 = exited e1" using exited_malloc [OF a] by (simp add: efi_free_def)
    then show ?thesis using assms g True l a x1 by (auto simp: reserve_pmm_def Let_def split: if_splits)
  qed
qed

lemma reserve_outcome:
  assumes "allocates fw" and "map_settles fw" and "maps_valid fw"
  shows "\<exists>res so e'. reserve_pmm fw e = Some (res, so, e') \<and>
    (res = EFI_SUCCESS \<longrightarrow> (\<exists>st ds. so = Some st \<and> reserved_for fw ds st \<and> length ds < 2 ^ 32 \<and> ram_pages ds \<le> 2 ^ 40))"
proof -
  let ?m0 = "\<lparr>map_start = 0, map_end = 0, map_size = 0, map_key = 0, descriptorSize = 0\<rparr>"
  obtain st mm e1 where g: "getEFIMemoryMap fw ?m0 e = Some (st, mm, e1)"
    using getEFIMemoryMap_spec [OF assms(1,2), of ?m0 e] by blast
  show ?thesis
  proof (cases "st = EFI_SUCCESS")
    case False
    then show ?thesis using g by (simp add: reserve_pmm_def)
  next
    case True
    then obtain ds where ds: "map_start mm \<noteq> 0" "holds_map (descriptor_at fw (world e1)) mm ds" "length ds < 2 ^ 32" "ram_pages ds \<le> 2 ^ 40"
      using getEFIMemoryMap_valid(1) [OF assms(3)] g by blast
    have "\<forall>mmap e1. getEFIMemoryMap fw ?m0 e = Some (EFI_SUCCESS, mmap, e1) \<longrightarrow>
        map_start mmap \<noteq> 0 \<and> holds_map (descriptor_at fw (world e1)) mmap ds" using g ds(1,2) by simp
    from reserve_pmm_spec [OF assms(1,2) ds(3,4) this] ds(3,4) show ?thesis by (fastforce split: option.splits)
  qed
qed

lemma fread_data:
  assumes "efi_fread fw filename e = (EFI_SUCCESS, data, e')"
  shows "\<exists>b n. data = Some (b, n)"
  using assms by (auto simp: efi_fread_def read_file_def Let_def split: if_splits prod.splits)

text \<open>The course of \<^verbatim>\<open>efi_main\<close> in terms of the results of its calls.\<close>

lemma efi_main_course:
  assumes "efi_fread fw font_path (perform fw SetWatchdogTimer (perform fw ClearScreen e)) = (res1, font_file, e1)"
    and "efi_fread fw kernel_path e1 = (res2, kernel_file, e2)" and "efi_malloc fw 128 e2 = (sy, e3)"
    and "get_rsdp2 fw e3 = Some rsdp" and "framebuffer_init fw fb0 10 e3 = Some (f, e4)"
    and "reserve_pmm fw e4 = Some (res, so, e5)" and "invoke fw (GetMemoryMap 0 0) e5 = (r, e6)"
    and "efi_malloc fw (out1 r + 8 * out3 r) e6 = (buf, e7)"
  shows "efi_main fw sys0 fb0 block0 e =
      (if res1 \<noteq> EFI_SUCCESS then hang fw (perform fw (Print (''Couldn't open '' @ font_path @ nl) []) e1)
       else if res2 \<noteq> EFI_SUCCESS then hang fw (perform fw (Print (''Couldn't open '' @ kernel_path @ nl) []) e2)
       else if sy = 0 then hang fw e3
       else if rsdp = 0 then hang fw (perform fw (Print (''Could not get pointer to RSDP2.'' @ nl) []) e3)
       else Option.bind font_file (\<lambda>(font_data, font_len).
         if res \<noteq> EFI_SUCCESS then hang fw (perform fw (Print (''Could not reserve physical memory manager.'' @ nl) []) e5)
         else Option.bind so (\<lambda>st.
           if buf = 0 then hang fw e7
           else exit_and_start fw block0 (sys0\<lparr>rsdp2 := rsdp, fb := f\<lparr>font_size := font_len, font := font_data\<rparr>\<rparr>) st
             (out1 r + 8 * out3 r) buf
             (set_map r \<lparr>map_start = 0, map_end = 0, map_size = 0, map_key = 0, descriptorSize = 0\<rparr>) e7)))"
  using assms by (cases font_file; cases so) (simp_all add: efi_main_def set_map_def split_beta)

lemma efi_main_spec:
  assumes "allocates fw" and "map_settles fw" and "maps_valid fw" and "pool_in_space fw" and "has_screen fw" and "keys_settle fw"
  shows "good_end fw (efi_main fw sys0 fb0 block0 \<lparr>trace = [], world = w\<rparr>)"
proof -
  define e0 where "e0 = perform fw SetWatchdogTimer (perform fw ClearScreen \<lparr>trace = [], world = w\<rparr>)"
  obtain res1 font_file e1 where f1: "efi_fread fw font_path e0 = (res1, font_file, e1)" by (metis prod_cases3)
  obtain res2 kernel_file e2 where f2: "efi_fread fw kernel_path e1 = (res2, kernel_file, e2)" by (metis prod_cases3)
  obtain sy e3 where f3: "efi_malloc fw 128 e2 = (sy, e3)" by fastforce
  obtain rsdp where f4: "get_rsdp2 fw e3 = Some rsdp"
    using rsdp2_loop_returns [of "tables fw (world e3)" 0] assms(5) by (auto simp: get_rsdp2_def has_screen_def)
  obtain g e4 where f5: "get_gop fw e3 = (g, e4)" by fastforce
  obtain f where fb: "framebuffer_init fw fb0 10 e3 = Some (f, e4)"
    using get_gop_found [OF assms(5) f5] f5 by (auto simp: framebuffer_init_def Let_def)
  have sm: "shows_mode fw (f\<lparr>font_size := n, font := d\<rparr>)" for n d
    using fb get_gop_found [OF assms(5) f5] f5
    unfolding shows_mode_def by (intro exI [of _ "world e4"] exI [of _ g]) (auto simp: framebuffer_init_def Let_def)
  obtain res so e5 where f6: "reserve_pmm fw e4 = Some (res, so, e5)"
      "res = EFI_SUCCESS \<longrightarrow> (\<exists>st ds. so = Some st \<and> reserved_for fw ds st \<and> length ds < 2 ^ 32 \<and> ram_pages ds \<le> 2 ^ 40)"
    using reserve_outcome [OF assms(1-3)] by blast
  obtain r e6 where f7: "invoke fw (GetMemoryMap 0 0) e5 = (r, e6)" by fastforce
  obtain buf e7 where f8: "efi_malloc fw (out1 r + 8 * out3 r) e6 = (buf, e7)" by fastforce
  have "\<not> exited e0" by (simp add: e0_def) (simp add: exited_def)
  then have ne: "\<not> exited e1" "\<not> exited e2" "\<not> exited e3" "\<not> exited e4" "\<not> exited e5" "\<not> exited e6" "\<not> exited e7"
    using exited_fread [OF f1] exited_fread [OF f2] exited_malloc [OF f3] exited_gop [OF f5] exited_reserve [OF f6(1)]
      exited_invoke [OF f7] exited_malloc [OF f8] by simp_all
  note main = efi_main_course [OF f1 [unfolded e0_def] f2 f3 f4 fb f6(1) f7 f8, of sys0 block0]
  consider "res1 \<noteq> EFI_SUCCESS \<or> res2 \<noteq> EFI_SUCCESS \<or> sy = 0 \<or> rsdp = 0"
    | "res1 = EFI_SUCCESS" "res2 = EFI_SUCCESS" "sy \<noteq> 0" "rsdp \<noteq> 0" by blast
  then show ?thesis
  proof cases
    case 1
    then show ?thesis unfolding main using ne by (auto simp: hang_good)
  next
    case 2
    obtain d n where d: "font_file = Some (d, n)" using fread_data f1 2(1) by blast
    show ?thesis
    proof (cases "res = EFI_SUCCESS \<and> buf \<noteq> 0")
      case False
      then show ?thesis unfolding main using 2 d ne f6(2) by (auto simp: hang_good)
    next
      case True
      then obtain st ds where st: "so = Some st" "reserved_for fw ds st" "length ds < 2 ^ 32" "ram_pages ds \<le> 2 ^ 40"
        using f6(2) by blast
      show ?thesis
        unfolding main using 2 d True st(1) leave_firmware [OF assms(3,6) ne(7) st(2) assms(4) st(3,4)] sm by simp
    qed
  qed
qed

section \<open>Properties\<close>

text \<open>
  C7: for every firmware that keeps to its documentation, efi_main ends, however often the key of the memory map
  is stale. When it starts the kernel, the last two calls of the firmware fetched the memory map and left the services
  with the key of that map, which is also the key the kernel gets; no service is called after they are left. The frame
  allocator is well-formed, its blocks are the regions of that map and its free frames conventional memory without
  the frame at address 0, and the framebuffer is the one the firmware reports. Otherwise the services were never left.
\<close>
theorem efi_main_hands_over:
  assumes "allocates fw" and "map_settles fw" and "maps_valid fw" and "pool_in_space fw" and "has_screen fw" and "keys_settle fw"
  shows "\<exists>b e'. efi_main fw sys0 fb0 block0 \<lparr>trace = [], world = w\<rparr> = Some (b, e') \<and> handed_over fw b e'"
  using assms by (rule efi_main_spec)

lemma demo_valid_map: "out1 r = 160 \<Longrightarrow> out3 r = 40 \<Longrightarrow> valid_map demo_firmware w 0x9000 r"
proof -
  assume "out1 r = 160" and "out3 r = 40"
  then have "holds_map (descriptor_at demo_firmware w) (reply_map 0x9000 r) demo_map"
    using demo_holds_map [of w] by (simp add: holds_map_def reply_map_def demo_mmap_def demo_firmware_def)
  moreover have "length demo_map < 2 ^ 32" and "ram_pages demo_map \<le> 2 ^ 40"
    by (simp_all add: demo_map_def ram_pages_def demo_descriptor_def)
  ultimately show ?thesis using demo_map_regions unfolding valid_map_def by blast
qed

lemma demo_maps_valid: "maps_valid demo_firmware"
  unfolding maps_valid_def
proof (intro allI impI)
  fix n b w r w'
  assume s: "serve demo_firmware (GetMemoryMap n b) w = (r, w')" and ok: "status r = EFI_SUCCESS"
  then have "b = 0x9000" "out1 r = 160" "out3 r = 40" by (auto simp: demo_firmware_def reply_def split: if_splits)
  then show "b \<noteq> 0 \<and> valid_map demo_firmware w' b r \<and>
      (\<forall>k. valid_map demo_firmware (snd (serve demo_firmware (ExitBootServices k) w')) b r)"
    by (simp add: demo_valid_map)
qed

lemma demo_keys_settle: "keys_settle demo_firmware"
  by (auto simp: keys_settle_def demo_firmware_def reply_def)

lemma demo_pool_in_space: "pool_in_space demo_firmware"
  by (auto simp: pool_in_space_def demo_firmware_def reply_def word_less_nat_alt split: if_splits)

lemma demo_has_screen: "has_screen demo_firmware"
  by (simp add: has_screen_def demo_firmware_def reply_def)

theorem efi_main_hands_over_witness:
  "\<exists>b e'. efi_main demo_firmware (sys demo_kstate) demo_screen (init_block (demo_descriptor 0 0)) \<lparr>trace = [], world = 0\<rparr> =
     Some (b, e') \<and> handed_over demo_firmware b e'"
  by (rule efi_main_hands_over
      [OF demo_allocates demo_settles demo_maps_valid demo_pool_in_space demo_has_screen demo_keys_settle])

end
