(* ===== verification/Boot.thy ===== *)
theory Boot
  imports Efi_Main_Props
begin

text \<open>
  The two stages together, from the entry of the boot stage to the \<^verbatim>\<open>hlt\<close> loop of the kernel: what the boot stage
  hands over is what the kernel relies on, when memory and framebuffer lie where the kernel can map them to
  themselves.
\<close>

section \<open>From firmware to kernel\<close>

text \<open>
  \<^verbatim>\<open>efi_main\<close> with its call of \<^verbatim>\<open>kernel_start\<close>, which does not return. \<open>k0\<close> is the machine when the kernel is
  entered, with the frame allocator the boot stage built; \<open>package_string\<close> and \<open>self\<close> are those of \<^verbatim>\<open>kernel_start\<close>.
\<close>

definition boot ::
  "'w firmware \<Rightarrow> string \<Rightarrow> u64 \<Rightarrow> kstate \<Rightarrow> colonel_t \<Rightarrow> framebuffer_t \<Rightarrow> pm_block \<Rightarrow> 'w efi \<Rightarrow>
   (boot_end \<times> (halt \<times> kstate) option \<times> 'w efi) option" where
  "boot fw package_string self k0 sys0 fb0 block0 e =
     Option.bind (efi_main fw sys0 fb0 block0 e) (\<lambda>(b, e).
       case b of
         Kernel_started s pm \<Rightarrow>
           Option.bind (kernel_start package_string self (k0\<lparr>kpm := pm\<rparr>) s) (\<lambda>halted. Some (b, Some halted, e))
       | _ \<Rightarrow> Some (b, None, e))"

section \<open>Memory the kernel can map\<close>

text \<open>Regions of the final memory map and the framebuffer lie below \<open>2 ^ 48\<close>.\<close>

definition region_low :: "efi_memory_descriptor \<Rightarrow> bool" where
  "region_low d \<longleftrightarrow> unat (PhysicalStart d) + 4096 * unat (NumberOfPages d) \<le> 2 ^ 48"

definition maps_low :: "'w firmware \<Rightarrow> bool" where
  "maps_low fw \<longleftrightarrow> (\<forall>n b w r w' k ds. serve fw (GetMemoryMap n b) w = (r, w') \<longrightarrow> status r = EFI_SUCCESS \<longrightarrow>
     holds_map (descriptor_at fw (snd (serve fw (ExitBootServices k) w'))) (reply_map b r) ds \<longrightarrow> list_all region_low ds)"

definition screen_low :: "'w firmware \<Rightarrow> bool" where
  "screen_low fw \<longleftrightarrow> (\<forall>w gop. let md = mode_of fw w gop in
     unat (FrameBufferBase md) + 4 * (unat (PixelsPerScanLine md) * unat (VerticalResolution md)) + 4096 \<le> 2 ^ 48)"

lemma blocks_from_low:
  assumes "blocks_from ds pm" and "list_all region_low ds" and "pmm_ok pm"
  shows "low_memory pm"
  unfolding low_memory_def
proof (intro ballI)
  fix j x
  assume j: "j \<in> {0..<unat (block_count pm)}" and x: "x \<in> block_region (snd (geometry pm) ! j)"
  then obtain d where d: "d \<in> set ds" "address (blocks pm ! j) = PhysicalStart d" "frames_total (blocks pm ! j) = NumberOfPages d"
    using assms(1) by (auto simp: blocks_from_def)
  have "unat (block_count pm) \<le> length (blocks pm)" using assms(3) by (simp add: pmm_ok_def)
  then have "snd (geometry pm) ! j = (PhysicalStart d, NumberOfPages d, btype (blocks pm ! j))"
    using j d(2,3) by (simp add: geometry_def)
  then have "x < unat (PhysicalStart d) + 4096 * unat (NumberOfPages d)" using x by (auto split: if_splits)
  then show "x < 2 ^ 48" using assms(2) d(1) by (auto simp: list_all_iff region_low_def)
qed

lemma shows_mode_low:
  assumes "shows_mode fw f" and "screen_low fw"
  shows "fb_top f \<le> 2 ^ 48"
proof -
  obtain w gop where m: "height f = ucast (VerticalResolution (mode_of fw w gop))"
      "pixels_per_scanline f = ucast (PixelsPerScanLine (mode_of fw w gop))" "buffer f = FrameBufferBase (mode_of fw w gop)"
    using assms(1) by (auto simp: shows_mode_def)
  let ?b = "unat (buffer f)" and ?l = "4 * (unat (pixels_per_scanline f) * unat (height f))"
  have low: "?b + ?l + 4096 \<le> 2 ^ 48"
    using assms(2) m unfolding screen_low_def Let_def by (simp add: unat_ucast_u64)
  have "fb_length f = of_nat ?l" by (simp add: fb_length_def)
  moreover have "?l \<le> 2 ^ 48" using low by linarith
  then have "?l < 2 ^ 64" by (rule le_less_trans) simp
  ultimately have len: "unat (fb_length f) = ?l" by (simp only: unat_of_nat_u64)
  have "fb_top f = ?b - ?b mod 4096 + round_up (?b mod 4096 + ?l)"
    by (simp add: fb_top_def page_base_unat span_len_def len)
  moreover have "round_up (?b mod 4096 + ?l) \<le> ?b mod 4096 + ?l + 4095" unfolding round_up_def by simp
  moreover have "?b mod 4096 \<le> ?b" by simp
  ultimately show ?thesis using low by linarith
qed

lemma handed_over_boot_memory:
  assumes "handed_over fw (Kernel_started s pm) e" and "maps_low fw" and "screen_low fw"
  shows "boot_memory (k\<lparr>kpm := pm, sys := s\<rparr>)"
proof -
  obtain buf r1 ds where h: "left_with fw e buf r1" "holds_map (descriptor_at fw (world e)) (reply_map buf r1) ds"
      "blocks_from ds pm" "pmm_free pm \<subseteq> conventional_frames ds - {0}" "pmm_ok pm" "shows_mode fw (fb s)"
    using assms(1) by (auto simp: handed_over_def)
  obtain n r2 w0 w1 where s: "serve fw (GetMemoryMap n buf) w0 = (r1, w1)" "serve fw (ExitBootServices (out2 r1)) w1 = (r2, world e)"
      "status r1 = EFI_SUCCESS"
    using h(1) unfolding left_with_def by blast
  have "list_all region_low ds" using assms(2) s h(2) unfolding maps_low_def by (metis snd_conv)
  then have "low_memory pm" by (rule blocks_from_low [OF h(3) _ h(5)])
  then show ?thesis using h(4,5) shows_mode_low [OF h(6) assms(3)] by (auto simp: boot_memory_def)
qed

section \<open>The demonstration firmware\<close>

lemma demo_maps_low: "maps_low demo_firmware"
  unfolding maps_low_def
proof (intro allI impI)
  fix n b w r w' k ds
  assume s: "serve demo_firmware (GetMemoryMap n b) w = (r, w')" and ok: "status r = EFI_SUCCESS"
    and h: "holds_map (descriptor_at demo_firmware (snd (serve demo_firmware (ExitBootServices k) w'))) (reply_map b r) ds"
  have r: "b = 0x9000" "out1 r = 160" "out3 r = 40" using s ok by (auto simp: demo_firmware_def reply_def split: if_splits)
  have lt: "0x9000 + length ds * 40 < 2 ^ 64" and e: "(0x9000 :: u64) + 160 = 0x9000 + of_nat (length ds) * 40"
    and rd: "\<And>i. i < length ds \<Longrightarrow> demo_descriptor (snd (serve demo_firmware (ExitBootServices k) w')) (0x9000 + of_nat i * 40) = ds ! i"
    using h r by (simp_all add: holds_map_def reply_map_def demo_firmware_def)
  have "(of_nat (length ds * 40) :: u64) = of_nat 160" using e by simp
  then have "length ds * 40 = 160" using lt unat_of_nat_u64 [of "length ds * 40"] by (simp del: of_nat_mult)
  then have len: "length ds = 4" by simp
  have "region_low (ds ! i)" if "i < 4" for i
  proof -
    consider "i = 0" | "i = 1" | "i = 2" | "i = 3" using \<open>i < 4\<close> by linarith
    then show ?thesis using rd [of i] len by cases (simp_all add: demo_descriptor_def region_low_def flip: rd)
  qed
  then show "list_all region_low ds" by (simp add: list_all_length len)
qed

lemma demo_screen_low: "screen_low demo_firmware"
  by (simp add: screen_low_def demo_firmware_def)

end
