(* ===== verification/Virtual_Memory.thy ===== *)
theory Virtual_Memory
  imports Heap
begin

text \<open>
  Frame allocator, page tables and heap as one system: the calls of \<^verbatim>\<open>physical.c\<close>, \<^verbatim>\<open>paging.c\<close> and
  \<^verbatim>\<open>heap.c\<close> in any order, together with the stores of the code that holds the frames it was given. The states that can be
  reached stay well-formed, and in them no call faults.
\<close>

section \<open>The system\<close>

text \<open>Memory, allocator, root table, and the frames that were handed out and not released.\<close>

record vm =
  vm_pm :: pmm
  vm_mem :: mem
  vm_root :: u64
  vm_held :: "u64 set"

definition heap_pre :: "u64 \<Rightarrow> u64 \<Rightarrow> bool" where
  "heap_pre vaddr len \<longleftrightarrow> unat vaddr mod 4096 = 0 \<and> len \<noteq> 0 \<and>
     unat vaddr + round_up (unat len) \<le> 2 ^ 64 - 4096 \<and> round_up (unat len) \<le> 2 ^ 48"

text \<open>
  A step is one call that returns, or a store into a held frame. A successful \<^verbatim>\<open>get_heap\<close> hands out the frames
  behind the new range.
\<close>

inductive vm_step :: "vm \<Rightarrow> vm \<Rightarrow> bool" where
  take_frame: "frame_allocate (vm_pm s) = Some (a, pm') \<Longrightarrow> a \<noteq> NO_FRAME \<Longrightarrow>
    vm_step s (s\<lparr>vm_pm := pm', vm_held := insert a (vm_held s)\<rparr>)"
| take_frames: "frames_allocate (vm_pm s) n = Some (a, pm') \<Longrightarrow> a \<noteq> NO_FRAME \<Longrightarrow>
    vm_step s (s\<lparr>vm_pm := pm', vm_held := vm_held s \<union> run_frames a (unat n)\<rparr>)"
| give_frame: "a \<in> vm_held s \<Longrightarrow> frame_free (vm_pm s) a = Some pm' \<Longrightarrow>
    vm_step s (s\<lparr>vm_pm := pm', vm_held := vm_held s - {a}\<rparr>)"
| page: "map_page (vm_pm s) (vm_mem s) (vm_root s) va pa flags = Some (r, pm', m') \<Longrightarrow>
    vm_step s (s\<lparr>vm_pm := pm', vm_mem := m'\<rparr>)"
| large_page: "map_large_page (vm_pm s) (vm_mem s) (vm_root s) va pa flags = Some (r, pm', m') \<Longrightarrow>
    vm_step s (s\<lparr>vm_pm := pm', vm_mem := m'\<rparr>)"
| range: "map_range_pre va pa len flags \<Longrightarrow>
    map_range (vm_pm s) (vm_mem s) (vm_root s) va pa len flags = Some (r, pm', m') \<Longrightarrow>
    vm_step s (s\<lparr>vm_pm := pm', vm_mem := m'\<rparr>)"
| heap: "heap_pre va len \<Longrightarrow> get_heap (vm_pm s) (vm_mem s) (vm_root s) va len = Some (0, pm', m') \<Longrightarrow>
    walk m' (vm_root s) va = Some a \<Longrightarrow>
    vm_step s (s\<lparr>vm_pm := pm', vm_mem := m', vm_held := vm_held s \<union> run_frames a (heap_pages len)\<rparr>)"
| no_heap: "heap_pre va len \<Longrightarrow> get_heap (vm_pm s) (vm_mem s) (vm_root s) va len = Some (r, pm', m') \<Longrightarrow> r \<noteq> 0 \<Longrightarrow>
    vm_step s (s\<lparr>vm_pm := pm', vm_mem := m'\<rparr>)"
| client_write: "f \<in> vm_held s \<Longrightarrow> unat f \<le> unat a \<Longrightarrow> unat a < unat f + 4096 \<Longrightarrow>
    vm_step s (s\<lparr>vm_mem := (vm_mem s)(a := v)\<rparr>)"

inductive_cases vm_stepE: "vm_step s t"

text \<open>
  Well-formed: the allocator is, the tables form a tree in frames that are neither free nor held, and held
  frames are managed, not free, and not the one at address 0.
\<close>

definition vm_ok :: "vm \<Rightarrow> bool" where
  "vm_ok s \<longleftrightarrow> pt_ok (vm_held s) (vm_pm s) (vm_mem s) (vm_root s) \<and>
     vm_held s \<subseteq> pmm_managed (vm_pm s) \<and> 0 \<notin> vm_held s"

text \<open>No call faults: each returns, whatever its result, for the arguments the steps allow.\<close>

definition vm_ready :: "vm \<Rightarrow> bool" where
  "vm_ready s \<longleftrightarrow>
     frame_allocate (vm_pm s) \<noteq> None \<and> (\<forall>n. frames_allocate (vm_pm s) n \<noteq> None) \<and>
     (\<forall>a \<in> vm_held s. frame_free (vm_pm s) a \<noteq> None) \<and>
     (\<forall>va pa flags. map_page (vm_pm s) (vm_mem s) (vm_root s) va pa flags \<noteq> None \<and>
        map_large_page (vm_pm s) (vm_mem s) (vm_root s) va pa flags \<noteq> None) \<and>
     (\<forall>va pa len flags. map_range_pre va pa len flags \<longrightarrow>
        map_range (vm_pm s) (vm_mem s) (vm_root s) va pa len flags \<noteq> None) \<and>
     (\<forall>va len. heap_pre va len \<longrightarrow> get_heap (vm_pm s) (vm_mem s) (vm_root s) va len \<noteq> None)"

section \<open>Steps keep the system well-formed\<close>

lemma vm_ok_taken:
  assumes "vm_ok s" and "pmm_ok pm'" and "F \<subseteq> pmm_free (vm_pm s)" and "pmm_free pm' = pmm_free (vm_pm s) - F"
    and "pmm_managed pm' = pmm_managed (vm_pm s)"
  shows "vm_ok (s\<lparr>vm_pm := pm', vm_held := vm_held s \<union> F\<rparr>)"
proof -
  have "pt_ok (vm_held s \<union> F) pm' (vm_mem s) (vm_root s)"
    using assms by (intro pt_ok_set_aside [of _ "vm_pm s"]) (simp_all add: vm_ok_def)
  moreover have "F \<subseteq> pmm_managed pm'" "0 \<notin> F" 
    using assms pmm_free_managed [of "vm_pm s"] by (auto simp: vm_ok_def pt_ok_def)
  ultimately show ?thesis using assms(1,5) by (simp add: vm_ok_def)
qed

lemma vm_ok_frame:
  assumes "vm_ok s" and "frame_allocate (vm_pm s) = Some (a, pm')" and "a \<noteq> NO_FRAME"
  shows "vm_ok (s\<lparr>vm_pm := pm', vm_held := insert a (vm_held s)\<rparr>)"
proof -
  have "pmm_ok (vm_pm s)" using assms(1) by (simp add: vm_ok_def pt_ok_def)
  then obtain b q where "frame_allocate (vm_pm s) = Some (b, q)" "pmm_ok q" "pmm_managed q = pmm_managed (vm_pm s)"
      "pmm_free q = pmm_free (vm_pm s) - {b}" "b \<noteq> NO_FRAME \<Longrightarrow> b \<in> pmm_free (vm_pm s)"
    by (rule pm.alloc_total) blast
  then show ?thesis using vm_ok_taken [OF assms(1), of pm' "{a}"] assms(2,3) by simp
qed

lemma vm_ok_frames:
  assumes "vm_ok s" and "frames_allocate (vm_pm s) n = Some (a, pm')" and "a \<noteq> NO_FRAME"
  shows "vm_ok (s\<lparr>vm_pm := pm', vm_held := vm_held s \<union> run_frames a (unat n)\<rparr>)"
proof -
  have ok: "pmm_ok (vm_pm s)" using assms(1) by (simp add: vm_ok_def pt_ok_def)
  from pm.run_taken [OF ok assms(2,3)] show ?thesis
    using vm_ok_taken [OF assms(1), of pm' "run_frames a (unat n)"] by simp
qed

lemma vm_ok_give:
  assumes "vm_ok s" and "a \<in> vm_held s" and "frame_free (vm_pm s) a = Some pm'"
  shows "vm_ok (s\<lparr>vm_pm := pm', vm_held := vm_held s - {a}\<rparr>)"
proof -
  have "pmm_ok (vm_pm s)" and "a \<in> pmm_managed (vm_pm s)" using assms(1,2) by (auto simp: vm_ok_def pt_ok_def)
  then have pm': "pmm_ok pm'" "pmm_free pm' = insert a (pmm_free (vm_pm s))" "pmm_managed pm' = pmm_managed (vm_pm s)"
    using pm.release_ok assms(3) by fastforce+
  have "(vm_held s - {a}) \<union> {a} = vm_held s" using assms(2) by blast
  then have "pt_ok (vm_held s - {a}) pm' (vm_mem s) (vm_root s)"
    using assms(1,2) pm' pt_ok_give_back [of "vm_held s - {a}" "{a}" "vm_pm s" "vm_mem s" "vm_root s" pm']
    by (auto simp: vm_ok_def)
  then show ?thesis using assms(1) pm'(3) by (auto simp: vm_ok_def)
qed

text \<open>A store into a frame that is no table is not seen by the walk.\<close>

lemma entry_write:
  assumes "unat f mod 4096 = 0" and "unat t mod 4096 = 0" and "f \<noteq> t" and "unat f \<le> unat a" and "unat a < unat f + 4096"
  shows "entry (m(a := v)) t i = entry m t i"
  unfolding entry_def
proof (rule load_le_cong)
  fix n :: nat
  assume n: "n < 8"
  have "unat f \<noteq> unat t" using assms(3) by (simp add: word_unat_eq_iff)
  then have "unat f + 4096 \<le> unat t \<or> unat t + 4096 \<le> unat f" by (rule frames_differ [OF assms(1,2)])
  moreover have "unat (t + 8 * ucast i + of_nat n) = unat t + 8 * unat i + n"
    using unat_slot [OF assms(2), of i] n pidx_bound [of i] frame_top [OF assms(2)] by (subst unat_add_of_nat) simp_all
  ultimately have "t + 8 * ucast i + of_nat n \<noteq> a" using n pidx_bound [of i] assms(4,5) by auto
  then show "(m(a := v)) (t + 8 * ucast i + of_nat n) = m (t + 8 * ucast i + of_nat n)" by simp
qed

lemma pt_ok_write:
  assumes "pt_ok R pm m root" and "f \<in> R" and "unat f \<le> unat a" and "unat a < unat f + 4096"
  shows "pt_ok R pm (m(a := v)) root"
proof -
  note p = assms(1) [unfolded pt_ok_def]
  have e: "entry (m(a := v)) t i = entry m t i" if "table_at m root q = Some t" "length q \<le> 3" for q t i
    using tables_okD [of "pmm_free pm \<union> R" m root q t] p that assms(2) by (intro entry_write [OF _ _ _ assms(3,4)]) auto
  have same: "table_at (m(a := v)) root q = table_at m root q" if "length q \<le> 3" for q
    using that by (intro table_at_cong) (auto simp: e prefix_def)
  have "tables_ok (pmm_free pm \<union> R) (m(a := v)) root" using p same unfolding tables_ok_def by metis
  moreover have "root_ok (m(a := v)) root" using p e [of "[]" root] by (simp add: root_ok_def)
  ultimately show ?thesis using p by (simp add: pt_ok_def)
qed

section \<open>The page table routines as clients\<close>

definition pt_state_ok :: "u64 \<Rightarrow> u64 set \<Rightarrow> pmm \<times> mem \<Rightarrow> bool" where
  "pt_state_ok root R s \<longleftrightarrow> pt_ok R (fst s) (snd s) root"

definition pt_keeps :: "u64 set \<Rightarrow> pmm \<times> mem \<Rightarrow> pmm \<times> mem \<Rightarrow> bool" where
  "pt_keeps R s s' \<longleftrightarrow> keeps R (snd s) (snd s')"

interpretation page: frame_client "pt_state_ok root" "\<lambda>s. pmm_managed (fst s)" pt_keeps True
    "\<lambda>s. map_page (fst s) (snd s) root va pa flags" for root va pa flags
proof unfold_locales
  fix R s
  assume "pt_state_ok root R s"
  from map_page_spec [OF this [unfolded pt_state_ok_def], of va pa flags]
  show "\<exists>r s'. map_page (fst s) (snd s) root va pa flags = Some (r, s') \<and> pt_state_ok root R s' \<and> pt_keeps R s s' \<and>
      pmm_managed (fst s') = pmm_managed (fst s)"
    by (auto simp: map_page_post_def takes_def pt_state_ok_def pt_keeps_def)
qed

interpretation large_page: frame_client "pt_state_ok root" "\<lambda>s. pmm_managed (fst s)" pt_keeps True
    "\<lambda>s. map_large_page (fst s) (snd s) root va pa flags" for root va pa flags
proof unfold_locales
  fix R s
  assume "pt_state_ok root R s"
  from map_large_page_spec [OF this [unfolded pt_state_ok_def], of va pa flags]
  show "\<exists>r s'. map_large_page (fst s) (snd s) root va pa flags = Some (r, s') \<and> pt_state_ok root R s' \<and> pt_keeps R s s' \<and>
      pmm_managed (fst s') = pmm_managed (fst s)"
    by (auto simp: map_large_page_post_def takes_def pt_state_ok_def pt_keeps_def)
qed

interpretation range: frame_client "pt_state_ok root" "\<lambda>s. pmm_managed (fst s)" pt_keeps "map_range_pre va pa len flags"
    "\<lambda>s. map_range (fst s) (snd s) root va pa len flags" for root va pa len flags
proof unfold_locales
  fix R s
  assume "map_range_pre va pa len flags" and "pt_state_ok root R s"
  from map_range_spec [OF this(2) [unfolded pt_state_ok_def] this(1)]
  show "\<exists>r s'. map_range (fst s) (snd s) root va pa len flags = Some (r, s') \<and> pt_state_ok root R s' \<and> pt_keeps R s s' \<and>
      pmm_managed (fst s') = pmm_managed (fst s)"
    by (auto simp: map_range_post_def takes_def pt_state_ok_def pt_keeps_def)
qed

lemma vm_ok_mapped:
  assumes "vm_ok s" and "pt_ok (vm_held s) pm' m' (vm_root s)" and "pmm_managed pm' = pmm_managed (vm_pm s)"
  shows "vm_ok (s\<lparr>vm_pm := pm', vm_mem := m'\<rparr>)"
  using assms by (simp add: vm_ok_def)

lemma get_heap_outcome:
  assumes "vm_ok s" and "heap_pre va len"
  shows "\<exists>res. get_heap (vm_pm s) (vm_mem s) (vm_root s) va len = Some res \<and>
    heap_post (vm_held s) (vm_pm s) (vm_mem s) (vm_root s) va len res"
  using assms by (intro get_heap_spec) (simp_all add: vm_ok_def heap_pre_def)

lemma vm_ok_heap:
  assumes "vm_ok s" and "heap_pre va len" and "heap_post (vm_held s) (vm_pm s) (vm_mem s) (vm_root s) va len (r, pm', m')"
  shows "r \<noteq> 0 \<Longrightarrow> vm_ok (s\<lparr>vm_pm := pm', vm_mem := m'\<rparr>)"
    and "r = 0 \<Longrightarrow> walk m' (vm_root s) va = Some a \<Longrightarrow>
      vm_ok (s\<lparr>vm_pm := pm', vm_mem := m', vm_held := vm_held s \<union> run_frames a (heap_pages len)\<rparr>)"
proof -
  note post = assms(3) [unfolded heap_post_def prod.case]
  have mg: "pmm_managed pm' = pmm_managed (vm_pm s)" using post by blast
  show "vm_ok (s\<lparr>vm_pm := pm', vm_mem := m'\<rparr>)" if "r \<noteq> 0" using post that mg by (intro vm_ok_mapped [OF assms(1)]) auto
  assume r: "r = 0" and a: "walk m' (vm_root s) va = Some a"
  then obtain b d where b: "\<forall>x. walk m' (vm_root s) x =
        (if voff va x < d then Some (b + of_nat (voff va x)) else walk (vm_mem s) (vm_root s) x)"
      "d = round_up (unat len)" "run_frames b (heap_pages len) \<subseteq> pmm_free (vm_pm s)"
      "pt_ok (vm_held s \<union> run_frames b (heap_pages len)) pm' m' (vm_root s)"
    using post by auto
  have "0 < unat len" using assms(2) by (simp add: heap_pre_def unat_gt_0)
  then have "0 < d" using round_up_ge [of "unat len"] b(2) by linarith
  then have "a = b" using b(1) [rule_format, of va] a by simp
  moreover have "run_frames b (heap_pages len) \<subseteq> pmm_managed pm'" "0 \<notin> run_frames b (heap_pages len)"
    using b(3) mg pmm_free_managed [of "vm_pm s"] assms(1) unfolding vm_ok_def pt_ok_def by blast+
  ultimately show "vm_ok (s\<lparr>vm_pm := pm', vm_mem := m', vm_held := vm_held s \<union> run_frames a (heap_pages len)\<rparr>)"
    using b(4) assms(1) mg by (simp add: vm_ok_def)
qed

lemma vm_step_ok:
  assumes "vm_step s t" and "vm_ok s"
  shows "vm_ok t"
  using assms
proof (induction rule: vm_step.induct)
  case (take_frame s a pm')
  then show ?case using vm_ok_frame by blast
next
  case (take_frames s n a pm')
  then show ?case using vm_ok_frames by blast
next
  case (give_frame a s pm')
  then show ?case using vm_ok_give by blast
next
  case (page s va pa flags r pm' m')
  then show ?case using page.call_keeps [of "vm_root s" "vm_held s" "(vm_pm s, vm_mem s)" va pa flags r "(pm', m')"]
    by (simp add: vm_ok_def pt_state_ok_def)
next
  case (large_page s va pa flags r pm' m')
  then show ?case using large_page.call_keeps [of "vm_root s" "vm_held s" "(vm_pm s, vm_mem s)" va pa flags r "(pm', m')"]
    by (simp add: vm_ok_def pt_state_ok_def)
next
  case (range va pa len flags s r pm' m')
  then show ?case using range.call_keeps [of va pa len flags "vm_root s" "vm_held s" "(vm_pm s, vm_mem s)" r "(pm', m')"]
    by (simp add: vm_ok_def pt_state_ok_def)
next
  case (heap va len s pm' m' a)
  then show ?case using get_heap_outcome [OF heap.prems heap.hyps(1)] vm_ok_heap(2) [OF heap.prems heap.hyps(1)] by auto
next
  case (no_heap va len s r pm' m')
  then show ?case using get_heap_outcome [OF no_heap.prems no_heap.hyps(1)] vm_ok_heap(1) [OF no_heap.prems no_heap.hyps(1)] by auto
next
  case (client_write f s a v)
  then show ?case using pt_ok_write by (simp add: vm_ok_def)
qed

text \<open>Only its holder writes to a held frame.\<close>

definition stores_held :: "vm \<Rightarrow> vm \<Rightarrow> bool" where
  "stores_held s t \<longleftrightarrow> (\<exists>f \<in> vm_held s. \<exists>a v. unat f \<le> unat a \<and> unat a < unat f + 4096 \<and>
     t = s\<lparr>vm_mem := (vm_mem s)(a := v)\<rparr>)"

lemma vm_step_keeps:
  assumes "vm_step s t" and "vm_ok s"
  shows "stores_held s t \<or> keeps (vm_held s) (vm_mem s) (vm_mem t)"
  using assms
proof (induction rule: vm_step.induct)
  case (page s va pa flags r pm' m')
  then show ?case using page.call_keeps(2) [of "vm_root s" "vm_held s" "(vm_pm s, vm_mem s)" va pa flags r "(pm', m')"]
    by (simp add: vm_ok_def pt_state_ok_def pt_keeps_def)
next
  case (large_page s va pa flags r pm' m')
  then show ?case using large_page.call_keeps(2) [of "vm_root s" "vm_held s" "(vm_pm s, vm_mem s)" va pa flags r "(pm', m')"]
    by (simp add: vm_ok_def pt_state_ok_def pt_keeps_def)
next
  case (range va pa len flags s r pm' m')
  then show ?case using range.call_keeps(2) [of va pa len flags "vm_root s" "vm_held s" "(vm_pm s, vm_mem s)" r "(pm', m')"]
    by (simp add: vm_ok_def pt_state_ok_def pt_keeps_def)
next
  case (heap va len s pm' m' a)
  then show ?case using get_heap_outcome [OF heap.prems heap.hyps(1)] by (auto simp: heap_post_def)
next
  case (no_heap va len s r pm' m')
  then show ?case using get_heap_outcome [OF no_heap.prems no_heap.hyps(1)] by (auto simp: heap_post_def)
next
  case (client_write f s a v)
  then show ?case unfolding stores_held_def by blast
qed simp_all

lemma vm_ok_ready:
  assumes "vm_ok s"
  shows "vm_ready s"
proof -
  have pt: "pt_ok (vm_held s) (vm_pm s) (vm_mem s) (vm_root s)" and ok: "pmm_ok (vm_pm s)"
    using assms by (simp_all add: vm_ok_def pt_ok_def)
  have "frame_allocate (vm_pm s) \<noteq> None" by (rule pm.alloc_total [OF ok]) simp
  moreover have "frames_allocate (vm_pm s) n \<noteq> None" for n
    using pm.run_returns [OF ok, of n] by auto
  moreover have "frame_free (vm_pm s) a \<noteq> None" if "a \<in> vm_held s" for a
    using pm.release_ok [OF ok, of a] assms that by (auto simp: vm_ok_def)
  moreover have "get_heap (vm_pm s) (vm_mem s) (vm_root s) va len \<noteq> None" if "heap_pre va len" for va len
    using get_heap_outcome [OF assms that] by auto
  moreover note page.call_returns [of "vm_root s" "vm_held s" "(vm_pm s, vm_mem s)"]
    large_page.call_returns [of "vm_root s" "vm_held s" "(vm_pm s, vm_mem s)"]
    range.call_returns [of _ _ _ _ "vm_root s" "vm_held s" "(vm_pm s, vm_mem s)"]
  ultimately show ?thesis using pt unfolding vm_ready_def pt_state_ok_def by simp
qed

interpretation vm_sys: kept_by_steps vm_step vm_ok
  by unfold_locales (rule vm_step_ok)

text \<open>The system starts with an empty root table.\<close>

lemma vm_start:
  assumes "pmm_ok pm" and "0 \<notin> pmm_free pm" and "init_pml4 pm m = Some (root, pm', m')" and "root \<noteq> 0"
  shows "vm_ok \<lparr>vm_pm = pm', vm_mem = m', vm_root = root, vm_held = {}\<rparr>"
proof -
  have "pmm_free pm \<noteq> {}"
  proof
    assume "pmm_free pm = {}"
    then show False using assms(3,4) pm.alloc_none [OF assms(1)] by (simp add: init_pml4_def alloc_table_def)
  qed
  from init_pml4_ok [OF assms(1,2) this, of "{}" m] show ?thesis
    using assms(3) by (auto simp: set_aside_def vm_ok_def)
qed

end
