(* ===== verification/Utf8.thy ===== *)
theory Utf8
  imports Cstring
begin

text \<open>
  Decoding of UTF-8 by \<^verbatim>\<open>ssfn_utf8\<close> of \<^verbatim>\<open>include/ssfn.h\<close>, which is compiled into the console driver.
\<close>

section \<open>ssfn\_utf8\<close>

text \<open>
  The result is the code point and the advanced pointer. A \<^verbatim>\<open>char\<close> is signed, so the first assignment widens it
  with its sign; the value is replaced when the top bit is set.
\<close>

definition ssfn_utf8 :: "mem \<Rightarrow> u64 \<Rightarrow> u32 \<times> u64" where
  "ssfn_utf8 m s =
     (let c = scast (m s);
          (c, s) =
            (if m s AND 128 \<noteq> 0
             then
               if m s AND 32 = 0
               then (push_bit 6 (ucast (m s AND 0x1F)) OR ucast (m (s + 1) AND 0x3F), s + 1)
               else if m s AND 16 = 0
               then (push_bit 12 (ucast (m s AND 0xF)) OR push_bit 6 (ucast (m (s + 1) AND 0x3F)) OR
                       ucast (m (s + 2) AND 0x3F), s + 2)
               else if m s AND 8 = 0
               then (push_bit 18 (ucast (m s AND 0x7)) OR push_bit 12 (ucast (m (s + 1) AND 0x3F)) OR
                       push_bit 6 (ucast (m (s + 2) AND 0x3F)) OR ucast (m (s + 3) AND 0x3F), s + 3)
               else (0, s)
             else (c, s))
      in (c, s + 1))"

section \<open>Encoding\<close>

text \<open>The encoding of a code point as the standard has it, in the shortest form.\<close>

definition part :: "nat \<Rightarrow> u32 \<Rightarrow> u8" where
  "part n c = take_bit 6 (ucast (drop_bit n c))"

definition tail_byte :: "nat \<Rightarrow> u32 \<Rightarrow> u8" where
  "tail_byte n c = 0x80 OR part n c"

definition utf8 :: "u32 \<Rightarrow> u8 list" where
  "utf8 c =
     (if c < 0x80 then [ucast c]
      else if c < 0x800 then [0xC0 OR ucast (drop_bit 6 c), tail_byte 0 c]
      else if c < 0x10000 then [0xE0 OR ucast (drop_bit 12 c), tail_byte 6 c, tail_byte 0 c]
      else [0xF0 OR ucast (drop_bit 18 c), tail_byte 12 c, tail_byte 6 c, tail_byte 0 c])"

lemma bit_below:
  assumes "unat (c :: u32) < 2 ^ k" and "bit c n"
  shows "n < k"
proof (rule ccontr)
  assume "\<not> n < k"
  then have "(2 :: nat) ^ k \<le> 2 ^ n" by simp
  with assms(1) have "unat c < 2 ^ n" by (rule less_le_trans)
  then have "\<not> bit (unat c) n" by (simp add: bit_iff_odd)
  then show False using assms(2) by (simp add: bit_unsigned_iff)
qed

lemma utf8_masks:
  "(0x3F :: u8) = mask 6" "(0x1F :: u8) = mask 5" "(0xF :: u8) = mask 4" "(0x7 :: u8) = mask 3"
  by (simp_all add: mask_eq_exp_minus_1)

lemma tail_byte_payload: "tail_byte n c AND mask 6 = part n c"
proof -
  have "(0x80 :: u8) AND mask 6 = 0" by (simp add: mask_eq_exp_minus_1)
  then show ?thesis unfolding tail_byte_def part_def by (simp add: bit.conj_disj_distrib2 take_bit_eq_mask)
qed

lemma head_payload:
  assumes "(h :: u8) AND mask k = 0" and "take_bit k x = x"
  shows "(h OR x) AND mask k = x"
  using assms by (simp add: bit.conj_disj_distrib2 take_bit_eq_mask)

lemma bit_tests:
  "(b :: u8) AND 128 = 0 \<longleftrightarrow> \<not> bit b 7" "b AND 32 = 0 \<longleftrightarrow> \<not> bit b 5" "b AND 16 = 0 \<longleftrightarrow> \<not> bit b 4" "b AND 8 = 0 \<longleftrightarrow> \<not> bit b 3"
  by (simp_all add: bit_iff_and_push_bit_not_eq_0)

lemma head_bits:
  "bit (0xC0 :: u8) 7" "\<not> bit (0xC0 :: u8) 5" "bit (0xE0 :: u8) 7" "bit (0xE0 :: u8) 5" "\<not> bit (0xE0 :: u8) 4"
  "bit (0xF0 :: u8) 7" "bit (0xF0 :: u8) 5" "bit (0xF0 :: u8) 4" "\<not> bit (0xF0 :: u8) 3"
  by simp_all

lemma head_value:
  assumes "unat (c :: u32) < 2 ^ (n + k)"
  shows "take_bit k (ucast (drop_bit n c) :: u8) = ucast (drop_bit n c)" and "\<not> bit (ucast (drop_bit n c) :: u8) k"
  using bit_below [OF assms] by (force simp: bit_simps intro!: bit_word_eqI)+

text \<open>Putting six bits at a time back together.\<close>

lemma bit_part: "bit (push_bit n (ucast (part n c) :: u32)) i \<longleftrightarrow> n \<le> i \<and> i < n + 6 \<and> bit c i"
  by (auto simp: part_def bit_simps dest: bit_imp_le_length)

lemma join_part:
  assumes "n < 26"
  shows "push_bit (n + 6) (drop_bit (n + 6) c) OR push_bit n (ucast (part n c)) = push_bit n (drop_bit n (c :: u32))"
proof (rule bit_word_eqI)
  fix i
  assume "i < LENGTH(32)"
  then show "bit (push_bit (n + 6) (drop_bit (n + 6) c) OR push_bit n (ucast (part n c))) i = bit (push_bit n (drop_bit n c)) i"
    unfolding bit_or_iff bit_part by (cases "i < n + 6") (auto simp: bit_simps)
qed

lemma head_part:
  assumes "unat (c :: u32) < 2 ^ (n + 8)"
  shows "push_bit n (ucast (ucast (drop_bit n c) :: u8)) = push_bit n (drop_bit n c)"
  using bit_below [OF assms] by (intro bit_word_eqI) (force simp: bit_simps)

lemma join_last: "push_bit 6 (drop_bit 6 c) OR ucast (part 0 c) = (c :: u32)"
  using join_part [of 0 c] by simp

lemma join_middle: "push_bit 12 (drop_bit 12 c) OR push_bit 6 (ucast (part 6 c)) = push_bit 6 (drop_bit 6 (c :: u32))"
  "push_bit 18 (drop_bit 18 c) OR push_bit 12 (ucast (part 12 c)) = push_bit 12 (drop_bit 12 (c :: u32))"
  using join_part [of 6 c] join_part [of 12 c] by simp_all

lemma head_masks: "(0xC0 :: u8) AND mask 5 = 0" "(0xE0 :: u8) AND mask 4 = 0" "(0xF0 :: u8) AND mask 3 = 0"
  by (simp_all add: mask_eq_exp_minus_1)

lemma decode_1:
  assumes "m p = ucast c" and "unat c < 2 ^ 7"
  shows "ssfn_utf8 m p = (c, p + 1)"
proof -
  note lt = bit_below [OF assms(2)]
  have b: "\<not> bit (m p) 7" using lt by (auto simp: assms(1) bit_simps)
  have "scast (m p) = c"
  proof (rule bit_word_eqI)
    fix n
    assume "n < LENGTH(32)"
    then show "bit (scast (m p) :: u32) n = bit c n" using lt [of n] b by (auto simp: assms(1) bit_simps min_def)
  qed
  then show ?thesis using b by (simp add: ssfn_utf8_def bit_tests)
qed

lemma decode_2:
  assumes "m p = 0xC0 OR ucast (drop_bit 6 c)" and "m (p + 1) = tail_byte 0 c" and "unat c < 2 ^ 11"
  shows "ssfn_utf8 m p = (c, p + 2)"
proof -
  have "unat c < 2 ^ (6 + 5)" using assms(3) by simp
  note h = head_value [OF this]
  have "unat c < 2 ^ (6 + 8)" using assms(3) by simp
  note hp = head_part [OF this] head_payload [OF head_masks(1) h(1)]
  have "bit (m p) 7" "\<not> bit (m p) 5" using h(2) by (simp_all add: assms(1) bit_or_iff head_bits del: bit_numeral_rec)
  then show ?thesis
    unfolding ssfn_utf8_def utf8_masks bit_tests Let_def by (simp add: assms(1,2) hp tail_byte_payload join_last)
qed

lemma decode_3:
  assumes "m p = 0xE0 OR ucast (drop_bit 12 c)" and "m (p + 1) = tail_byte 6 c" and "m (p + 2) = tail_byte 0 c" and "unat c < 2 ^ 16"
  shows "ssfn_utf8 m p = (c, p + 3)"
proof -
  have "unat c < 2 ^ (12 + 4)" using assms(4) by simp
  note h = head_value [OF this]
  have "unat c < 2 ^ (12 + 8)" using assms(4) by simp
  note hp = head_part [OF this] head_payload [OF head_masks(2) h(1)]
  have "bit (m p) 7" "bit (m p) 5" "\<not> bit (m p) 4" using h(2) by (simp_all add: assms(1) bit_or_iff head_bits)
  then show ?thesis
    unfolding ssfn_utf8_def utf8_masks bit_tests Let_def by (simp add: assms(1-3) hp tail_byte_payload join_last join_middle flip: or.assoc)
qed

lemma decode_4:
  assumes "m p = 0xF0 OR ucast (drop_bit 18 c)" and "m (p + 1) = tail_byte 12 c" and "m (p + 2) = tail_byte 6 c"
    and "m (p + 3) = tail_byte 0 c" and "unat c < 2 ^ 21"
  shows "ssfn_utf8 m p = (c, p + 4)"
proof -
  have "unat c < 2 ^ (18 + 3)" using assms(5) by simp
  note h = head_value [OF this]
  have "unat c < 2 ^ (18 + 8)" using assms(5) by simp
  note hp = head_part [OF this] head_payload [OF head_masks(3) h(1)]
  have "bit (m p) 7" "bit (m p) 5" "bit (m p) 4" "\<not> bit (m p) 3" using h(2) by (simp_all add: assms(1) bit_or_iff head_bits)
  then show ?thesis
    unfolding ssfn_utf8_def utf8_masks bit_tests Let_def by (simp add: assms(1-4) hp tail_byte_payload join_last join_middle flip: or.assoc)
qed

section \<open>Round trip\<close>

text \<open>
  C40: ssfn_utf8 decodes what the standard encodes: at the encoding of any code point below 0x200000 it
  returns the code point and advances the pointer past the encoding.
\<close>
theorem ssfn_utf8_decodes:
  assumes "unat c < 0x200000" and "bytes m p (length (utf8 c)) = utf8 c"
  shows "ssfn_utf8 m p = (c, p + of_nat (length (utf8 c)))"
proof -
  have b: "m (p + of_nat i) = utf8 c ! i" if "i < length (utf8 c)" for i using assms(2) nth_bytes [OF that] by metis
  consider "c < 0x80" | "0x80 \<le> c" "c < 0x800" | "0x800 \<le> c" "c < 0x10000" | "0x10000 \<le> c" by fastforce
  then show ?thesis
  proof cases
    case 1
    then show ?thesis using b [of 0] decode_1 [of m p c] by (simp add: utf8_def word_less_nat_alt)
  next
    case 2
    then show ?thesis using b [of 0] b [of 1] decode_2 [of m p c] by (simp add: utf8_def word_less_nat_alt word_le_nat_alt)
  next
    case 3
    then show ?thesis using b [of 0] b [of 1] b [of 2] decode_3 [of m p c] by (simp add: utf8_def word_less_nat_alt word_le_nat_alt)
  next
    case 4
    then show ?thesis using b [of 0] b [of 1] b [of 2] b [of 3] decode_4 [of m p c] assms(1)
      by (simp add: utf8_def word_less_nat_alt word_le_nat_alt)
  qed
qed

text \<open>The euro sign, in three bytes.\<close>

theorem ssfn_utf8_decodes_witness:
  "utf8 0x20AC = [0xE2, 0x82, 0xAC] \<and> ssfn_utf8 (\<lambda>a. if a = 0x1000 then 0xE2 else if a = 0x1001 then 0x82 else 0xAC) 0x1000 = (0x20AC, 0x1003)"
proof -
  let ?m = "\<lambda>a :: u64. if a = 0x1000 then 0xE2 else if a = 0x1001 then 0x82 else 0xAC :: u8"
  have u: "utf8 0x20AC = [0xE2, 0x82, 0xAC]" by code_simp
  then have "bytes ?m 0x1000 (length (utf8 0x20AC)) = utf8 0x20AC" by (simp add: bytes_def)
  from ssfn_utf8_decodes [OF _ this] u show ?thesis by simp
qed

end
