(* ===== verification/Spec2Isabelle.thy ===== *)
theory Spec2Isabelle
  imports Kernel_Mem Idt Acpi Stack64 Paging_Debug Console_Props Boot Virtual_Memory Utf8
begin

text \<open>
  echOS: a small operating system for x86-64 that is started by UEFI firmware. This development models all the C code
  of the repository that is compiled into the boot stage, the kernel and the library, and shows what makes it correct.

  \<^bold>\<open>The program.\<close> The boot stage (\<^verbatim>\<open>src/efi-stage\<close>) reads the font and the kernel from disk, finds the framebuffer and the
  ACPI tables, reserves storage for the frame allocator, leaves the firmware's boot services and fills the allocator from the
  final memory map; then it calls \<^verbatim>\<open>kernel_start\<close>. The kernel (\<^verbatim>\<open>src/kernel\<close>) builds a descriptor table and page tables
  that map memory to itself, and stops. It draws text with the console driver, which formats with \<^verbatim>\<open>vsprintf\<close> and the string
  routines of \<^verbatim>\<open>src/lib\<close>.

  \<^bold>\<open>How the code is modelled.\<close> Words keep their width. Memory is a function from 64-bit addresses to bytes, with little-endian
  loads and stores at the offsets of packed structures. A function of the code is a HOL function of the same name that takes
  and returns the state it changes; a result in \<^verbatim>\<open>option\<close> is \<^const>\<open>None\<close> when the code reads or writes outside an array or through
  NULL, or never returns. Loops with a bound are recursive functions with a termination proof; loops that may run forever
  are partial functions, and what ends is proved to end. No fuel is used anywhere. Firmware, assembly instructions and the
  allocator passed to \<^verbatim>\<open>idt_init\<close> are parameters or fields of the machine state.

  \<^bold>\<open>Theories and sources.\<close>
  \<^item> \<^verbatim>\<open>Echos_Prelude\<close>: integer types, checked arrays, memory, shared lemmas. \<^verbatim>\<open>Frame_Interface\<close>: the interfaces as locales:
    an allocator of frames, one that also hands out runs, a client of it that leaves held frames alone, and a property kept by the steps of a system.
  \<^item> \<^verbatim>\<open>Physical\<close>, \<^verbatim>\<open>Physical_Props\<close>: \<^verbatim>\<open>kernel/memory/physical.c\<close>. Blocks are records with their bitmap words. Each
    operation refines a set of free frames; frames are conserved under any mix of operations, a round trip restores the
    manager, every free frame is handed out before failure is reported. The interpretations of the allocator locales are here.
    \<^verbatim>\<open>Physical_Mem\<close>: the same functions following the pointers through memory. They refine the operations on records, store
    only to the \<^verbatim>\<open>frames_free\<close> fields and the bitmaps, and are the second interpretation of the allocator locale.
  \<^item> \<^verbatim>\<open>Paging\<close>: \<^verbatim>\<open>kernel/memory/paging.c\<close>. \<^verbatim>\<open>Paging_Walk\<close>: the processor's walk over the tables in memory and the invariant of
    the tree. \<^verbatim>\<open>Paging_Map\<close>, \<^verbatim>\<open>Paging_Range\<close>: what \<^verbatim>\<open>map_page\<close>, \<^verbatim>\<open>map_large_page\<close> and \<^verbatim>\<open>map_range\<close> do to the walk, on every
    branch. \<^verbatim>\<open>Paging_Props\<close>: the properties, success with enough frames included: every frame a call takes is a table on
    the walk of an address in its range, so \<open>frame_cost\<close> bounds the frames it needs (three for a page, about one for 512 pages).
    \<^verbatim>\<open>Paging_Mem\<close>: tables and allocator in one memory. \<^verbatim>\<open>Paging_Debug\<close>: the dumps.
  \<^item> \<^verbatim>\<open>Heap\<close>: \<^verbatim>\<open>kernel/memory/heap.c\<close>, a client of both. \<^verbatim>\<open>Virtual_Memory\<close>: allocator, tables, heap and the holders of
    frames as one transition system.
  \<^item> \<^verbatim>\<open>Gdt\<close>, \<^verbatim>\<open>Idt\<close>: \<^verbatim>\<open>kernel/gdt.c\<close>, \<^verbatim>\<open>kernel/idt.c\<close>; encoding of descriptors and gates as the processor decodes them, and
    updates of the tables in memory. \<^verbatim>\<open>Acpi\<close>: \<^verbatim>\<open>kernel/acpi\<close>; counting processors and finding a table, and the
    record length for which the count never ends. \<^verbatim>\<open>Stack64\<close>: \<^verbatim>\<open>lib/stack.c\<close>, a refinement of a bounded stack (a locale).
  \<^item> \<^verbatim>\<open>Cstring\<close>, \<^verbatim>\<open>Cstring_Props\<close>: \<^verbatim>\<open>lib/string\<close>, with the round trip of \<^verbatim>\<open>itoa\<close>. \<^verbatim>\<open>Vsprintf\<close>, \<^verbatim>\<open>Vsprintf_Props\<close>:
    \<^verbatim>\<open>lib/stdio/vsprintf.c\<close> equals a reference on lists of bytes. \<^verbatim>\<open>Utf8\<close>, \<^verbatim>\<open>Console\<close>, \<^verbatim>\<open>Console_Props\<close>: the part of
    \<^verbatim>\<open>include/ssfn.h\<close> the kernel compiles and \<^verbatim>\<open>kernel/drivers/ssfn_fb.c\<close>; drawing a glyph and its background stays in the
    framebuffer, printing keeps the cursor within the left, upper and right margins.
  \<^item> \<^verbatim>\<open>Kernel\<close>, \<^verbatim>\<open>Kernel_Props\<close>: \<^verbatim>\<open>kernel/kernel.c\<close> and \<^verbatim>\<open>gdt_flush.s\<close> on a machine state; the identity map, the
    frames its tables need (\<open>paging_cost\<close>), and the end of \<^verbatim>\<open>kernel_start\<close>. \<^verbatim>\<open>Kernel_Mem\<close>: the same with the manager, the
    descriptor table and the page tables in the machine's one memory.
  \<^item> \<^verbatim>\<open>Efi_Services\<close>: the firmware as a parameter (a function from call and state to reply and state), the trace of calls,
    and \<^verbatim>\<open>efi_malloc.c\<close>. \<^verbatim>\<open>Efi_Memory\<close>: \<^verbatim>\<open>efi_mmap.c\<close>. \<^verbatim>\<open>Efi_Pmm\<close>, \<^verbatim>\<open>Efi_Pmm_Props\<close>: \<^verbatim>\<open>efi_pmm.c\<close>; the allocator built from
    a memory map is well-formed, and the storage reserved for it suffices. \<^verbatim>\<open>Efi_Fs\<close>: \<^verbatim>\<open>efi_fs.c\<close>; files and pool memory
    balance on every path. \<^verbatim>\<open>Efi_Main\<close>, \<^verbatim>\<open>Efi_Main_Props\<close>: \<^verbatim>\<open>efi_video.c\<close> and \<^verbatim>\<open>main.c\<close>; the services are left with the
    key of the last map, and nothing is called after. \<^verbatim>\<open>Boot\<close>: both stages together.
  \<^item> This theory: the properties that span components.

  \<^bold>\<open>Assumptions.\<close> What is assumed of the firmware is stated as predicates with names: allocation succeeds with a pointer or
  reports an error, no file is opened as NULL, the size of the memory map settles, maps describe disjoint aligned regions, a stale key is not reported
  forever, there is a graphics device. A demonstration firmware satisfies all of them.
  \<^verbatim>\<open>build_pmm\<close> is modelled on records. That the structures it leaves in memory do not overlap and lie in frames that are not
  free is a hypothesis of the theorems about one memory; they hold for any such layout. Memory contents that the code
  does not initialise are parameters. Where the code prints, the kernel theories record the calls of the console; the console
  theories say what a call draws.

  \<^bold>\<open>Bounds.\<close> Frames lie below \<open>2 ^ 52\<close>, the width of a physical address; memory that is mapped to itself lies below \<open>2 ^ 48\<close>, the
  width of a virtual one. \<^verbatim>\<open>map_range\<close> is bounded to ranges whose end does not wrap around (for a wrapping end a property of its own
  says what happens), a printed text to the 1024 bytes of the buffer the driver has for it.

  \<^bold>\<open>Not modelled.\<close> The normal renderer of \<^verbatim>\<open>include/ssfn.h\<close>, which no file of the repository compiles; \<^verbatim>\<open>lib/c.c\<close>,
  \<^verbatim>\<open>lib/stdlib/exit.c\<close> and \<^verbatim>\<open>lib/crt0.s\<close>, stubs without a state; headers that only declare; build and image scripts. Caches
  and the translation lookaside buffer are outside the model.
\<close>

section \<open>Memory management as a whole\<close>

text \<open>
  C2: starting from a fresh root table, whatever sequence of single and contiguous frame allocations, releases of held frames,
  mappings of pages, large pages and ranges, heap requests and stores into held frames follows: the allocator and the
  tree of tables stay well-formed, no held frame is free or a page table, no call of the next step faults, and only
  the holder's own stores change the contents of a held frame.
\<close>
theorem memory_management_type_safe:
  assumes "pmm_ok pm" and "0 \<notin> pmm_free pm" and "init_pml4 pm m = Some (root, pm', m')" and "root \<noteq> 0"
    and "rtranclp vm_step \<lparr>vm_pm = pm', vm_mem = m', vm_root = root, vm_held = {}\<rparr> s"
  shows "vm_ok s \<and> vm_ready s \<and>
    (\<forall>t. vm_step s t \<longrightarrow> stores_held s t \<or> keeps (vm_held s) (vm_mem s) (vm_mem t))"
  using vm_sys.reachable [OF assms(5) vm_start [OF assms(1-4)]] vm_ok_ready vm_step_keeps by blast

text \<open>A frame is taken and written to.\<close>

theorem memory_management_type_safe_witness:
  "\<exists>s. rtranclp vm_step \<lparr>vm_pm = demo_pm1, vm_mem = demo_mem, vm_root = demo_root, vm_held = {}\<rparr> s \<and>
     vm_held s \<noteq> {} \<and> vm_mem s \<noteq> demo_mem \<and> vm_ok s \<and> vm_ready s"
proof -
  let ?s0 = "\<lparr>vm_pm = demo_pm1, vm_mem = demo_mem, vm_root = demo_root, vm_held = {}\<rparr>"
  have ok: "pmm_ok demo_pm1" using demo_pt_ok by (simp add: pt_ok_def)
  obtain a pm2 where a: "frame_allocate demo_pm1 = Some (a, pm2)" "a \<in> pmm_free demo_pm1"
    using pm.alloc_some [OF ok] by (auto simp: demo_free1)
  then have "a \<noteq> NO_FRAME" using pm.none_unmanaged [OF ok] pmm_free_managed by blast
  define s1 where "s1 = ?s0\<lparr>vm_pm := pm2, vm_held := {a}\<rparr>"
  have s1: "vm_step ?s0 s1" using take_frame [of ?s0 a pm2] a(1) \<open>a \<noteq> NO_FRAME\<close> by (simp add: s1_def)
  define s2 where "s2 = s1\<lparr>vm_mem := (vm_mem s1)(a := 1)\<rparr>"
  have "vm_step s1 s2" unfolding s2_def by (rule client_write [of a]) (simp_all add: s1_def)
  with s1 have steps: "rtranclp vm_step ?s0 s2" by simp
  have "demo_root \<noteq> 0" by (simp add: demo_root_def)
  from memory_management_type_safe [OF demo_ok _ demo_init_pml4 this steps] have "vm_ok s2 \<and> vm_ready s2"
    by (simp add: demo_free)
  moreover have "vm_mem s2 a \<noteq> demo_mem a" by (simp add: s2_def demo_mem_def)
  then have "vm_mem s2 \<noteq> demo_mem" by auto
  moreover have "vm_held s2 \<noteq> {}" by (simp add: s2_def s1_def)
  ultimately show ?thesis using steps by blast
qed

section \<open>The boot path as a whole\<close>

text \<open>
  C1: for every firmware that keeps to its documentation, with memory and framebuffer below the 48-bit boundary, the
  boot path ends in one of its halts. Without the kernel it has not left the firmware's services. In the kernel it
  either ran out of frames, and then the memory map had no more of them than two for the descriptor table and those that the
  page tables of memory and framebuffer can need, or the kernel is up on the allocator built from the final memory map: its segments are loaded
  and intact, and CR3 holds tables that map exactly that memory, without page 0, and the framebuffer to themselves.
\<close>
theorem boot_reaches_kernel:
  assumes "allocates fw" and "map_settles fw" and "maps_valid fw" and "pool_in_space fw" and "has_screen fw" and "keys_settle fw"
    and "maps_low fw" and "screen_low fw"
  shows "\<exists>b h e. boot fw pkg self k0 sys0 fb0 block0 \<lparr>trace = [], world = w\<rparr> = Some (b, h, e) \<and> handed_over fw b e \<and>
    (case b of
       Kernel_started s pm \<Rightarrow> (\<exists>halt k. h = Some (halt, k) \<and>
         (if halt = Up then kernel_up (k0\<lparr>kpm := pm, sys := s\<rparr>) k
          else pmm_free (kpm k) = {} \<and> card (pmm_free pm) \<le> 2 + paging_cost (k0\<lparr>kpm := pm, sys := s\<rparr>)))
     | _ \<Rightarrow> h = None)"
proof -
  obtain b e where m: "efi_main fw sys0 fb0 block0 \<lparr>trace = [], world = w\<rparr> = Some (b, e)" "handed_over fw b e"
    using efi_main_spec [OF assms(1-6)] by blast
  show ?thesis
  proof (cases b)
    case (Kernel_started s pm)
    have "boot_memory (k0\<lparr>kpm := pm, sys := s\<rparr>)"
      using m(2) Kernel_started handed_over_boot_memory [OF _ assms(7,8)] by blast
    moreover have "kpm (k0\<lparr>kpm := pm, sys := s\<rparr>) = pm" by simp
    ultimately obtain h k where "kernel_start pkg self (k0\<lparr>kpm := pm\<rparr>) s = Some (h, k)"
        "if h = Up then kernel_up (k0\<lparr>kpm := pm, sys := s\<rparr>) k
         else pmm_free (kpm k) = {} \<and> card (pmm_free pm) \<le> 2 + paging_cost (k0\<lparr>kpm := pm, sys := s\<rparr>)"
      using kernel_start_spec by metis
    then show ?thesis using m Kernel_started by (simp add: boot_def)
  qed (use m in \<open>simp_all add: boot_def\<close>)
qed

theorem boot_reaches_kernel_witness:
  "\<exists>b h e. boot demo_firmware ''echOS'' 0x200000 demo_kstate (sys demo_kstate) demo_screen (init_block (demo_descriptor 0 0))
      \<lparr>trace = [], world = 0\<rparr> = Some (b, h, e) \<and> handed_over demo_firmware b e"
  using boot_reaches_kernel [OF demo_allocates demo_settles demo_maps_valid demo_pool_in_space demo_has_screen demo_keys_settle
      demo_maps_low demo_screen_low] by blast

end
